(* ===== verification/Lustre_Prelude.thy ===== *)
theory Lustre_Prelude
  imports Main "HOL-Library.Word" "HOL-Library.Multiset" "HOL-Library.Monad_Syntax"
begin

text \<open>
  What every theory of the development shares: the machine integers of the C code, the
  error numbers, the reading of \<open>LASSERT\<close> and \<open>LBUG\<close>, and the generic lemmas on
  options, lists and words that the component proofs use.

  Conventions.
  \<^item> \<open>__u64\<close>, \<open>__u32\<close>, \<open>__u16\<close> and \<open>__u8\<close> are words of that width, so
    that \<open>+\<close>, \<open>-\<close>, \<open>*\<close> and the shifts wrap around as in C.
  \<^item> A function that contains an \<open>LASSERT\<close> or an \<open>LBUG\<close> returns an \<open>option\<close>:
    \<open>None\<close> is the failed assertion (the thread stops there), \<open>Some r\<close> a normal return.
  \<^item> A C return code is an \<open>int\<close>: \<open>0\<close>, a positive value, or a negated error number.
  \<^item> The result of an allocation or of an operation of another layer is an argument of the
    model, so every theorem holds for each of its outcomes.
  \<^item> Tracing (\<open>CDEBUG\<close>, \<open>CERROR\<close>, \<open>ENTRY\<close>, \<open>EXIT\<close>) writes no state of the
    components and is left out, as are the lock operations around a handler that the model
    runs as one atomic step.
\<close>

unbundle bit_operations_syntax

section \<open>Machine integers\<close>

type_synonym u8 = "8 word"
type_synonym u16 = "16 word"
type_synonym u32 = "32 word"
type_synonym u64 = "64 word"

section \<open>Facts the components collect\<close>

named_theorems errno_defs \<open>the values of the error numbers\<close>
named_theorems const_defs \<open>the values of the constants and flags of the C headers\<close>

section \<open>Error numbers\<close>

definition ENOENT :: int where [errno_defs]: "ENOENT = 2"
definition EIO :: int where [errno_defs]: "EIO = 5"
definition E2BIG :: int where [errno_defs]: "E2BIG = 7"
definition EBADF :: int where [errno_defs]: "EBADF = 9"
definition EAGAIN :: int where [errno_defs]: "EAGAIN = 11"
definition EWOULDBLOCK :: int where [errno_defs]: "EWOULDBLOCK = 11"
definition ENOMEM :: int where [errno_defs]: "ENOMEM = 12"
definition EFAULT :: int where [errno_defs]: "EFAULT = 14"
definition EEXIST :: int where [errno_defs]: "EEXIST = 17"
definition ENODEV :: int where [errno_defs]: "ENODEV = 19"
definition EINVAL :: int where [errno_defs]: "EINVAL = 22"
definition ENOSPC :: int where [errno_defs]: "ENOSPC = 28"
definition EROFS :: int where [errno_defs]: "EROFS = 30"
definition EDEADLK :: int where [errno_defs]: "EDEADLK = 35"
definition ENODATA :: int where [errno_defs]: "ENODATA = 61"
definition EPROTO :: int where [errno_defs]: "EPROTO = 71"
definition EUSERS :: int where [errno_defs]: "EUSERS = 87"
definition ESHUTDOWN :: int where [errno_defs]: "ESHUTDOWN = 108"
definition ENOTSUPP :: int where [errno_defs]: "ENOTSUPP = 524"
definition EINPROGRESS :: int where [errno_defs]: "EINPROGRESS = 115"

section \<open>Assertions\<close>

definition LASSERT :: "bool \<Rightarrow> unit option" where
  "LASSERT b = (if b then Some () else None)"

lemma bind_LASSERT [simp]: "Option.bind (LASSERT b) f = (if b then f () else None)"
  by (simp add: LASSERT_def)

lemma bind_LASSERT_eq_Some: "(Option.bind (LASSERT b) f = Some y) = (b \<and> f () = Some y)"
  by simp

lemma bind_SomeE: "Option.bind m f = Some y \<Longrightarrow> (\<And>x. m = Some x \<Longrightarrow> f x = Some y \<Longrightarrow> P) \<Longrightarrow> P"
  by (auto simp: bind_eq_Some_conv)

text \<open>The mark of an error that no reply body goes with.\<close>

definition ESERIOUS :: int where [errno_defs]: "ESERIOUS = 0x1000"

definition err_serious :: "int \<Rightarrow> int option" where
  "err_serious rc = do { LASSERT (rc < 0); Some (- ((- rc) OR ESERIOUS)) }"

section \<open>Arrays\<close>

text \<open>Reading and writing an array element; \<open>None\<close> is an access out of bounds.\<close>

definition arr_get :: "'a list \<Rightarrow> nat \<Rightarrow> 'a option" where
  "arr_get xs i = (if i < length xs then Some (xs ! i) else None)"

definition arr_set :: "'a list \<Rightarrow> nat \<Rightarrow> 'a \<Rightarrow> 'a list option" where
  "arr_set xs i v = (if i < length xs then Some (xs[i := v]) else None)"

lemma arr_get_in [simp]: "i < length xs \<Longrightarrow> arr_get xs i = Some (xs ! i)"
  by (simp add: arr_get_def)

lemma arr_set_in [simp]: "i < length xs \<Longrightarrow> arr_set xs i v = Some (xs[i := v])"
  by (simp add: arr_set_def)

lemma arr_get_eq_Some: "arr_get xs i = Some v \<longleftrightarrow> i < length xs \<and> v = xs ! i"
  by (auto simp: arr_get_def)

section \<open>Words\<close>

lemma unat_lt_bound: "unat (a :: 'a::len word) < 2 ^ LENGTH('a)"
  by (rule unsigned_less)

lemma unat_plus_no_wrap: "unat (a :: 'a::len word) + unat b < 2 ^ LENGTH('a) \<Longrightarrow> unat (a + b) = unat a + unat b"
  by (simp add: unat_add_lem)

lemma unat_inc: "(a :: 'a::len word) < b \<Longrightarrow> unat (a + 1) = unat a + 1"
proof -
  assume "a < b"
  then have "unat a + 1 < 2 ^ LENGTH('a)"
    using unat_lt_bound [of b] unfolding word_less_nat_alt by linarith
  then show ?thesis by (subst unat_plus_no_wrap) simp_all
qed

lemma word_inc_le: "(a :: 'a::len word) < b \<Longrightarrow> a + 1 \<le> x \<longleftrightarrow> a < x"
  by (simp add: word_le_nat_alt word_less_nat_alt unat_inc Suc_le_eq)

lemma unat_minus_le: "(b :: 'a::len word) \<le> a \<Longrightarrow> unat (a - b) = unat a - unat b"
  by (rule unat_sub)

lemma unat_mult_no_wrap: "unat (a :: 'a::len word) * unat b < 2 ^ LENGTH('a) \<Longrightarrow> unat (a * b) = unat a * unat b"
  by (simp add: unat_mult_lem)

lemma bit_u32_ge [simp]: "32 \<le> n \<Longrightarrow> \<not> bit (w :: u32) n"
  using bit_imp_le_length[of w n] by auto

lemma bit_u64_ge [simp]: "64 \<le> n \<Longrightarrow> \<not> bit (w :: u64) n"
  using bit_imp_le_length[of w n] by auto

lemma unat_ucast_up: "LENGTH('a::len) \<le> LENGTH('b::len) \<Longrightarrow> unat (ucast (w :: 'a word) :: 'b word) = unat w"
  by (metis take_bit_nat_eq_self unsigned_less unsigned_ucast_eq power_increasing one_le_numeral order_less_le_trans)

lemma unat_ucast_32_64 [simp]: "unat (ucast (w :: u32) :: u64) = unat w"
  by (rule unat_ucast_up) simp

lemma take_bit_unat_less: "unat (w :: 'a::len word) < 2 ^ k \<Longrightarrow> take_bit k w = w"
  by (metis take_bit_nat_eq_self unsigned_take_bit_eq word_unat_eq_iff)

lemma bit_above: "unat w < 2 ^ k \<Longrightarrow> k \<le> n \<Longrightarrow> \<not> bit (w :: 'a::len word) n"
  by (metis bit_take_bit_iff not_le take_bit_unat_less)

lemma unat_take_bit_less: "take_bit k w = w \<Longrightarrow> unat (w :: 'a::len word) < 2 ^ k"
  by (metis take_bit_nat_less_exp unsigned_take_bit_eq)

lemma mult_add_eqD:
  assumes "a * m + b = c * m + d" and "b < m" and "d < (m :: nat)"
  shows "a = c" and "b = d"
proof -
  have "(a * m + b) div m = (c * m + d) div m" using assms(1) by simp
  then show "a = c" using assms(2,3) by simp
  with assms(1) show "b = d" by simp
qed

lemma lex_less:
  assumes "x < W" "r < (W :: nat)"
  shows "p * W + x < q * W + r \<longleftrightarrow> p < q \<or> p = q \<and> x < r"
proof (cases p q rule: linorder_cases)
  case less
  then have "Suc p * W \<le> q * W" by (intro mult_le_mono1) simp
  then show ?thesis using less assms by simp
next
  case greater
  then have "Suc q * W \<le> p * W" by (intro mult_le_mono1) simp
  then show ?thesis using greater assms by simp
qed simp

lemma divmod_eqI: "x = p * s + m \<Longrightarrow> m < s \<Longrightarrow> x div s = p" "x = p * s + m \<Longrightarrow> m < s \<Longrightarrow> x mod s = (m :: nat)"
  by simp_all

lemma sint_eq_unat: "unat (a :: 'a::len word) < 2 ^ (LENGTH('a) - 1) \<Longrightarrow> sint a = int (unat a)"
proof -
  let ?n = "LENGTH('a) - 1"
  assume a: "unat a < 2 ^ ?n"
  have u: "uint a = int (unat a)" by simp
  have "int (unat a) < int (2 ^ ?n)" using a by (simp only: of_nat_less_iff)
  then have "uint a < 2 ^ ?n" by (simp only: u of_nat_power of_nat_numeral)
  moreover have "- (2 ^ ?n) \<le> uint a" by (rule order.trans [of _ 0]) simp_all
  ultimately have "signed_take_bit ?n (uint a) = uint a" by (intro signed_take_bit_int_eq_self)
  then show ?thesis by (simp add: sint_uint)
qed

lemma unat_word_of_int_nat: "n < 2 ^ LENGTH('a) \<Longrightarrow> unat (word_of_int (int n) :: 'a::len word) = n"
  by (simp add: unat_of_nat take_bit_nat_eq_self)

end
