(* ===== verification/Fid.thy ===== *)
theory Fid
  imports Lustre_Prelude
begin

text \<open>
  File identifiers: the sequence number spaces, the legacy OST object identifiers and their
  embedding into the FID space (IDIF), the lock resource names built from FIDs, and the
  flattening of a FID into an inode number
  (\<open>lustre/include/uapi/linux/lustre/lustre_fid.h\<close>, \<open>lustre_ostid.h\<close>,
  \<open>lustre_user.h\<close> and \<open>lustre/include/lustre_fid.h\<close>).

  The union inside \<open>struct ost_id\<close> is modelled by its sixteen bytes: \<open>oi_id\<close> and
  \<open>oi_seq\<close> are the two 64-bit halves, and \<open>oi_fid\<close> reads the same bytes as a FID
  (little-endian host: \<open>f_seq\<close> overlays \<open>oi_id\<close>, \<open>f_oid\<close> the low and
  \<open>f_ver\<close> the high half of \<open>oi_seq\<close>).
\<close>

section \<open>Sequence number spaces\<close>

record lu_fid =
  f_seq :: u64
  f_oid :: u32
  f_ver :: u32

definition FID_SEQ_OST_MDT0 :: u64 where [const_defs]: "FID_SEQ_OST_MDT0 = 0"
definition FID_SEQ_LLOG :: u64 where [const_defs]: "FID_SEQ_LLOG = 1"
definition FID_SEQ_ECHO :: u64 where [const_defs]: "FID_SEQ_ECHO = 2"
definition FID_SEQ_LLOG_NAME :: u64 where [const_defs]: "FID_SEQ_LLOG_NAME = 10"
definition FID_SEQ_RSVD :: u64 where [const_defs]: "FID_SEQ_RSVD = 11"
definition FID_SEQ_IGIF :: u64 where [const_defs]: "FID_SEQ_IGIF = 12"
definition FID_SEQ_IGIF_MAX :: u64 where [const_defs]: "FID_SEQ_IGIF_MAX = 0x0ffffffff"
definition FID_SEQ_IDIF :: u64 where [const_defs]: "FID_SEQ_IDIF = 0x100000000"
definition FID_SEQ_IDIF_MAX :: u64 where [const_defs]: "FID_SEQ_IDIF_MAX = 0x1ffffffff"
definition FID_SEQ_START :: u64 where [const_defs]: "FID_SEQ_START = 0x200000000"
definition FID_SEQ_LOCAL_FILE :: u64 where [const_defs]: "FID_SEQ_LOCAL_FILE = 0x200000001"
definition FID_SEQ_DOT_LUSTRE :: u64 where [const_defs]: "FID_SEQ_DOT_LUSTRE = 0x200000002"
definition FID_SEQ_LOCAL_NAME :: u64 where [const_defs]: "FID_SEQ_LOCAL_NAME = 0x200000003"
definition FID_SEQ_SPECIAL :: u64 where [const_defs]: "FID_SEQ_SPECIAL = 0x200000004"
definition FID_SEQ_QUOTA :: u64 where [const_defs]: "FID_SEQ_QUOTA = 0x200000005"
definition FID_SEQ_QUOTA_GLB :: u64 where [const_defs]: "FID_SEQ_QUOTA_GLB = 0x200000006"
definition FID_SEQ_ROOT :: u64 where [const_defs]: "FID_SEQ_ROOT = 0x200000007"
definition FID_SEQ_LAYOUT_RBTREE :: u64 where [const_defs]: "FID_SEQ_LAYOUT_RBTREE = 0x200000008"
definition FID_SEQ_UPDATE_LOG :: u64 where [const_defs]: "FID_SEQ_UPDATE_LOG = 0x200000009"
definition FID_SEQ_UPDATE_LOG_DIR :: u64 where [const_defs]: "FID_SEQ_UPDATE_LOG_DIR = 0x20000000a"
definition FID_SEQ_NORMAL :: u64 where [const_defs]: "FID_SEQ_NORMAL = 0x200000400"
definition FID_SEQ_LOV_DEFAULT :: u64 where [const_defs]: "FID_SEQ_LOV_DEFAULT = 0xffffffffffffffff"

definition OBIF_MAX_OID :: u64 where [const_defs]: "OBIF_MAX_OID = 0x100000000"
definition IDIF_MAX_OID :: u64 where [const_defs]: "IDIF_MAX_OID = 0x1000000000000"
definition IDIF_OID_MASK :: u64 where [const_defs]: "IDIF_OID_MASK = 0xffffffffffff"
definition LUSTRE_FID_INIT_OID :: u32 where [const_defs]: "LUSTRE_FID_INIT_OID = 1"

definition fid_zero :: lu_fid where
  "fid_zero = \<lparr>f_seq = 0, f_oid = 0, f_ver = 0\<rparr>"

definition fid_is_zero :: "lu_fid \<Rightarrow> bool" where
  "fid_is_zero fid \<longleftrightarrow> f_seq fid = 0 \<and> f_oid fid = 0"

definition fid_ver_oid :: "lu_fid \<Rightarrow> u64" where
  "fid_ver_oid fid = push_bit 32 (ucast (f_ver fid)) OR ucast (f_oid fid)"

definition fid_seq_is_mdt0 :: "u64 \<Rightarrow> bool" where
  "fid_seq_is_mdt0 seq \<longleftrightarrow> seq = FID_SEQ_OST_MDT0"

definition fid_seq_is_mdt :: "u64 \<Rightarrow> bool" where
  "fid_seq_is_mdt seq \<longleftrightarrow> seq = FID_SEQ_OST_MDT0 \<or> seq \<ge> FID_SEQ_NORMAL"

definition fid_seq_is_echo :: "u64 \<Rightarrow> bool" where
  "fid_seq_is_echo seq \<longleftrightarrow> seq = FID_SEQ_ECHO"

definition fid_is_echo :: "lu_fid \<Rightarrow> bool" where
  "fid_is_echo fid \<longleftrightarrow> fid_seq_is_echo (f_seq fid)"

definition fid_seq_is_llog :: "u64 \<Rightarrow> bool" where
  "fid_seq_is_llog seq \<longleftrightarrow> seq = FID_SEQ_LLOG"

definition fid_is_llog :: "lu_fid \<Rightarrow> bool" where
  "fid_is_llog fid \<longleftrightarrow> fid_seq_is_llog (f_seq fid) \<and> f_oid fid > 0"

definition fid_seq_is_rsvd :: "u64 \<Rightarrow> bool" where
  "fid_seq_is_rsvd seq \<longleftrightarrow> seq > FID_SEQ_OST_MDT0 \<and> seq \<le> FID_SEQ_RSVD"

definition fid_seq_is_special :: "u64 \<Rightarrow> bool" where
  "fid_seq_is_special seq \<longleftrightarrow> seq = FID_SEQ_SPECIAL"

definition fid_seq_is_local_file :: "u64 \<Rightarrow> bool" where
  "fid_seq_is_local_file seq \<longleftrightarrow> seq = FID_SEQ_LOCAL_FILE \<or> seq = FID_SEQ_LOCAL_NAME"

definition fid_seq_is_root :: "u64 \<Rightarrow> bool" where
  "fid_seq_is_root seq \<longleftrightarrow> seq = FID_SEQ_ROOT"

definition fid_seq_is_dot :: "u64 \<Rightarrow> bool" where
  "fid_seq_is_dot seq \<longleftrightarrow> seq = FID_SEQ_DOT_LUSTRE"

definition fid_seq_is_default :: "u64 \<Rightarrow> bool" where
  "fid_seq_is_default seq \<longleftrightarrow> seq = FID_SEQ_LOV_DEFAULT"

definition fid_is_mdt0 :: "lu_fid \<Rightarrow> bool" where
  "fid_is_mdt0 fid \<longleftrightarrow> fid_seq_is_mdt0 (f_seq fid)"

definition fid_seq_is_igif :: "u64 \<Rightarrow> bool" where
  "fid_seq_is_igif seq \<longleftrightarrow> seq \<ge> FID_SEQ_IGIF \<and> seq \<le> FID_SEQ_IGIF_MAX"

definition fid_is_igif :: "lu_fid \<Rightarrow> bool" where
  "fid_is_igif fid \<longleftrightarrow> fid_seq_is_igif (f_seq fid)"

definition fid_seq_is_idif :: "u64 \<Rightarrow> bool" where
  "fid_seq_is_idif seq \<longleftrightarrow> seq \<ge> FID_SEQ_IDIF \<and> seq \<le> FID_SEQ_IDIF_MAX"

definition fid_is_idif :: "lu_fid \<Rightarrow> bool" where
  "fid_is_idif fid \<longleftrightarrow> fid_seq_is_idif (f_seq fid)"

definition fid_is_local_file :: "lu_fid \<Rightarrow> bool" where
  "fid_is_local_file fid \<longleftrightarrow> fid_seq_is_local_file (f_seq fid)"

definition fid_seq_is_norm :: "u64 \<Rightarrow> bool" where
  "fid_seq_is_norm seq \<longleftrightarrow> seq \<ge> FID_SEQ_NORMAL"

definition fid_is_norm :: "lu_fid \<Rightarrow> bool" where
  "fid_is_norm fid \<longleftrightarrow> fid_seq_is_norm (f_seq fid)"

definition fid_is_layout_rbtree :: "lu_fid \<Rightarrow> bool" where
  "fid_is_layout_rbtree fid \<longleftrightarrow> f_seq fid = FID_SEQ_LAYOUT_RBTREE"

definition fid_seq_is_update_log :: "u64 \<Rightarrow> bool" where
  "fid_seq_is_update_log seq \<longleftrightarrow> seq = FID_SEQ_UPDATE_LOG"

definition fid_is_update_log :: "lu_fid \<Rightarrow> bool" where
  "fid_is_update_log fid \<longleftrightarrow> fid_seq_is_update_log (f_seq fid)"

definition fid_seq_is_update_log_dir :: "u64 \<Rightarrow> bool" where
  "fid_seq_is_update_log_dir seq \<longleftrightarrow> seq = FID_SEQ_UPDATE_LOG_DIR"

definition fid_is_update_log_dir :: "lu_fid \<Rightarrow> bool" where
  "fid_is_update_log_dir fid \<longleftrightarrow> fid_seq_is_update_log_dir (f_seq fid)"

definition fid_idif_seq :: "u64 \<Rightarrow> u32 \<Rightarrow> u64" where
  "fid_idif_seq oid ost_idx =
     FID_SEQ_IDIF OR ucast (push_bit 16 ost_idx) OR (drop_bit 32 oid AND 0xffff)"

definition fid_idif_id :: "u64 \<Rightarrow> u32 \<Rightarrow> u32 \<Rightarrow> u64" where
  "fid_idif_id seq oid ver =
     push_bit 48 (ucast ver) OR push_bit 32 (seq AND 0xffff) OR ucast oid"

definition idif_ost_idx :: "u64 \<Rightarrow> u32" where
  "idif_ost_idx seq = ucast (drop_bit 16 seq AND 0xffff)"

definition fid_idif_ost_idx :: "lu_fid \<Rightarrow> u32" where
  "fid_idif_ost_idx fid = idif_ost_idx (f_seq fid)"

definition fid_is_last_id :: "lu_fid \<Rightarrow> bool" where
  "fid_is_last_id fid =
     (if f_oid fid \<noteq> 0 then False
      else if fid_is_idif fid \<and> f_seq fid AND 0xFFFF \<noteq> 0 then False
      else if f_seq fid = FID_SEQ_UPDATE_LOG \<or> f_seq fid = FID_SEQ_UPDATE_LOG_DIR \<or>
              fid_seq_is_igif (f_seq fid) then False
      else True)"

definition lu_igif_ino :: "lu_fid \<Rightarrow> u64" where
  "lu_igif_ino fid = f_seq fid"

definition lu_igif_gen :: "lu_fid \<Rightarrow> u32" where
  "lu_igif_gen fid = f_oid fid"

definition lu_igif_build :: "u32 \<Rightarrow> u32 \<Rightarrow> lu_fid" where
  "lu_igif_build ino gen = \<lparr>f_seq = ucast ino, f_oid = gen, f_ver = 0\<rparr>"

definition fid_is_sane :: "lu_fid option \<Rightarrow> bool" where
  "fid_is_sane fidp =
     (case fidp of None \<Rightarrow> False
      | Some fid \<Rightarrow> (f_seq fid \<ge> FID_SEQ_START \<and> f_ver fid = 0) \<or> fid_is_igif fid \<or>
                    fid_is_idif fid \<or> fid_seq_is_rsvd (f_seq fid))"

definition lu_fid_eq :: "lu_fid \<Rightarrow> lu_fid \<Rightarrow> bool" where
  "lu_fid_eq f0 f1 \<longleftrightarrow> f_seq f0 = f_seq f1 \<and> f_oid f0 = f_oid f1 \<and> f_ver f0 = f_ver f1"

definition lu_fid_cmp :: "lu_fid \<Rightarrow> lu_fid \<Rightarrow> int" where
  "lu_fid_cmp f0 f1 =
     (if f_seq f0 \<noteq> f_seq f1 then (if f_seq f0 > f_seq f1 then 1 else -1)
      else if f_oid f0 \<noteq> f_oid f1 then (if f_oid f0 > f_oid f1 then 1 else -1)
      else if f_ver f0 \<noteq> f_ver f1 then (if f_ver f0 > f_ver f1 then 1 else -1)
      else 0)"

section \<open>Legacy OST object identifiers\<close>

record ost_id =
  oi_id :: u64
  oi_seq :: u64

definition oi_fid :: "ost_id \<Rightarrow> lu_fid" where
  "oi_fid oi = \<lparr>f_seq = oi_id oi, f_oid = ucast (oi_seq oi), f_ver = ucast (drop_bit 32 (oi_seq oi))\<rparr>"

definition set_oi_fid :: "lu_fid \<Rightarrow> ost_id" where
  "set_oi_fid fid = \<lparr>oi_id = f_seq fid, oi_seq = fid_ver_oid fid\<rparr>"

definition ostid_seq :: "ost_id \<Rightarrow> u64" where
  "ostid_seq ostid =
     (if fid_seq_is_mdt0 (oi_seq ostid) then FID_SEQ_OST_MDT0
      else if fid_seq_is_default (oi_seq ostid) then FID_SEQ_LOV_DEFAULT
      else if fid_is_idif (oi_fid ostid) then FID_SEQ_OST_MDT0
      else f_seq (oi_fid ostid))"

definition ostid_id :: "ost_id \<Rightarrow> u64" where
  "ostid_id ostid =
     (if fid_seq_is_mdt0 (oi_seq ostid) then oi_id ostid AND IDIF_OID_MASK
      else if fid_seq_is_default (oi_seq ostid) then oi_id ostid
      else if fid_is_idif (oi_fid ostid)
           then fid_idif_id (f_seq (oi_fid ostid)) (f_oid (oi_fid ostid)) 0
      else ucast (f_oid (oi_fid ostid)))"

definition ostid_set_seq :: "ost_id \<Rightarrow> u64 \<Rightarrow> ost_id" where
  "ostid_set_seq oi seq =
     (if fid_seq_is_mdt0 seq \<or> fid_seq_is_default seq then oi\<lparr>oi_seq := seq\<rparr>
      else let fid = (oi_fid oi)\<lparr>f_seq := seq\<rparr>
           in set_oi_fid (if f_oid fid = 0 \<and> f_ver fid = 0
                          then fid\<lparr>f_oid := LUSTRE_FID_INIT_OID\<rparr> else fid))"

definition ostid_set_seq_mdt0 :: "ost_id \<Rightarrow> ost_id" where
  "ostid_set_seq_mdt0 oi = ostid_set_seq oi FID_SEQ_OST_MDT0"

definition ostid_set_seq_echo :: "ost_id \<Rightarrow> ost_id" where
  "ostid_set_seq_echo oi = ostid_set_seq oi FID_SEQ_ECHO"

definition ostid_set_seq_llog :: "ost_id \<Rightarrow> ost_id" where
  "ostid_set_seq_llog oi = ostid_set_seq oi FID_SEQ_LLOG"

text \<open>The return code comes first, the updated object second.\<close>

definition ostid_set_id :: "ost_id \<Rightarrow> u64 \<Rightarrow> int \<times> ost_id" where
  "ostid_set_id oi oid =
     (if fid_seq_is_mdt0 (oi_seq oi) then
        (if oid \<ge> IDIF_MAX_OID then (- E2BIG, oi) else (0, oi\<lparr>oi_id := oid\<rparr>))
      else if fid_is_idif (oi_fid oi) then
        (if oid \<ge> IDIF_MAX_OID then (- E2BIG, oi)
         else (0, set_oi_fid \<lparr>f_seq = fid_idif_seq oid (fid_idif_ost_idx (oi_fid oi)),
                              f_oid = ucast oid, f_ver = ucast (drop_bit 48 oid)\<rparr>))
      else
        (if oid \<ge> OBIF_MAX_OID then (- E2BIG, oi)
         else (0, set_oi_fid ((oi_fid oi)\<lparr>f_oid := ucast oid\<rparr>))))"

definition ostid_to_fid :: "lu_fid \<Rightarrow> ost_id \<Rightarrow> u32 \<Rightarrow> int \<times> lu_fid" where
  "ostid_to_fid fid ostid ost_idx =
     (let seq = ostid_seq ostid in
      if ost_idx > 0xffff then (- EBADF, fid)
      else if fid_seq_is_mdt0 seq then
        (let oid = ostid_id ostid in
         if oid \<ge> IDIF_MAX_OID then (- EBADF, fid)
         else (0, \<lparr>f_seq = fid_idif_seq oid ost_idx, f_oid = ucast oid,
                   f_ver = ucast (drop_bit 48 oid)\<rparr>))
      else if \<not> fid_seq_is_default seq then
        (if f_ver (oi_fid ostid) \<noteq> 0 then (- EBADF, fid) else (0, oi_fid ostid))
      else (0, fid))"

definition fid_to_ostid :: "lu_fid \<Rightarrow> ost_id \<Rightarrow> int \<times> ost_id" where
  "fid_to_ostid fid ostid =
     (if fid_seq_is_igif (f_seq fid) then (- EBADF, ostid)
      else if fid_is_idif fid then
        ostid_set_id (ostid_set_seq_mdt0 ostid)
          (fid_idif_id (f_seq fid) (f_oid fid) (f_ver fid))
      else (0, set_oi_fid fid))"

definition fid_to_lmm_oi :: "lu_fid \<Rightarrow> ost_id" where
  "fid_to_lmm_oi fid = \<lparr>oi_id = ucast (f_oid fid), oi_seq = f_seq fid\<rparr>"

definition fid_set_id :: "lu_fid \<Rightarrow> u64 \<Rightarrow> int \<times> lu_fid" where
  "fid_set_id fid oid =
     (if fid_seq_is_igif (f_seq fid) then (- EBADF, fid)
      else if fid_is_idif fid then
        (if oid \<ge> IDIF_MAX_OID then (- EBADF, fid)
         else (0, \<lparr>f_seq = fid_idif_seq oid (fid_idif_ost_idx fid), f_oid = ucast oid,
                   f_ver = ucast (drop_bit 48 oid)\<rparr>))
      else
        (if oid > OBIF_MAX_OID then (- EBADF, fid) else (0, fid\<lparr>f_oid := ucast oid\<rparr>)))"

section \<open>Lock resource names\<close>

text \<open>The four words \<open>name[0..3]\<close> of \<open>struct ldlm_res_id\<close>, named by their offsets.\<close>

record ldlm_res_id =
  res_seq :: u64
  res_ver_oid :: u64
  res_name2 :: u64
  res_name3 :: u64

definition res_id_zero :: ldlm_res_id where
  "res_id_zero = \<lparr>res_seq = 0, res_ver_oid = 0, res_name2 = 0, res_name3 = 0\<rparr>"

definition fid_build_reg_res_name :: "lu_fid \<Rightarrow> ldlm_res_id" where
  "fid_build_reg_res_name fid =
     res_id_zero\<lparr>res_seq := f_seq fid, res_ver_oid := fid_ver_oid fid\<rparr>"

definition fid_res_name_eq :: "lu_fid \<Rightarrow> ldlm_res_id \<Rightarrow> bool" where
  "fid_res_name_eq fid res \<longleftrightarrow> res_seq res = f_seq fid \<and> res_ver_oid res = fid_ver_oid fid"

definition fid_extract_from_res_name :: "ldlm_res_id \<Rightarrow> lu_fid option" where
  "fid_extract_from_res_name res =
     (let fid = \<lparr>f_seq = res_seq res, f_oid = ucast (res_ver_oid res),
                 f_ver = ucast (drop_bit 32 (res_ver_oid res))\<rparr>
      in do { LASSERT (fid_res_name_eq fid res); Some fid })"

text \<open>A quota identifier is read through its \<open>qid_fid\<close> member.\<close>

definition fid_build_quota_res_name :: "lu_fid \<Rightarrow> lu_fid \<Rightarrow> ldlm_res_id" where
  "fid_build_quota_res_name glb_fid qid =
     (fid_build_reg_res_name glb_fid)\<lparr>res_name2 := f_seq qid, res_name3 := fid_ver_oid qid\<rparr>"

definition fid_extract_from_quota_res :: "ldlm_res_id \<Rightarrow> (lu_fid \<times> lu_fid) option" where
  "fid_extract_from_quota_res res =
     do { glb_fid \<leftarrow> fid_extract_from_res_name res;
          Some (glb_fid, \<lparr>f_seq = res_name2 res, f_oid = ucast (res_name3 res),
                          f_ver = ucast (drop_bit 32 (res_name3 res))\<rparr>) }"

definition fid_build_pdo_res_name :: "lu_fid \<Rightarrow> u32 \<Rightarrow> ldlm_res_id" where
  "fid_build_pdo_res_name fid hash = (fid_build_reg_res_name fid)\<lparr>res_name3 := ucast hash\<rparr>"

definition ostid_build_res_name :: "ost_id \<Rightarrow> ldlm_res_id" where
  "ostid_build_res_name oi =
     (if fid_seq_is_mdt0 (ostid_seq oi)
      then res_id_zero\<lparr>res_seq := ostid_id oi, res_ver_oid := ostid_seq oi\<rparr>
      else fid_build_reg_res_name (oi_fid oi))"

definition ostid_res_name_eq :: "ost_id \<Rightarrow> ldlm_res_id \<Rightarrow> bool" where
  "ostid_res_name_eq oi name =
     (if fid_seq_is_mdt0 (ostid_seq oi)
      then res_seq name = ostid_id oi \<and> res_ver_oid name = ostid_seq oi
      else res_seq name = ostid_seq oi \<and> res_ver_oid name = ostid_id oi)"

text \<open>\<open>oi.oi_seq\<close> of the local variable is not initialised by the code; it is the
  argument \<open>garbage\<close>, and the result may not depend on it.\<close>

definition ost_fid_build_resid :: "u64 \<Rightarrow> lu_fid \<Rightarrow> ldlm_res_id \<Rightarrow> ldlm_res_id" where
  "ost_fid_build_resid garbage fid resname =
     (if fid_is_mdt0 fid \<or> fid_is_idif fid then
        (case fid_to_ostid fid \<lparr>oi_id = 0, oi_seq = garbage\<rparr> of
           (rc, oi) \<Rightarrow> if rc \<noteq> 0 then resname else ostid_build_res_name oi)
      else fid_build_reg_res_name fid)"

definition ost_fid_from_resid :: "lu_fid \<Rightarrow> ldlm_res_id \<Rightarrow> u32 \<Rightarrow> lu_fid option" where
  "ost_fid_from_resid fid name ost_idx =
     (if fid_seq_is_mdt0 (res_ver_oid name) then
        (let oi = ostid_set_seq \<lparr>oi_id = 0, oi_seq = 0\<rparr> (res_ver_oid name);
             oi = snd (ostid_set_id oi (res_seq name))
         in Some (snd (ostid_to_fid fid oi ost_idx)))
      else fid_extract_from_res_name name)"

section \<open>Flattening\<close>

definition fid_flatten :: "lu_fid \<Rightarrow> u64" where
  "fid_flatten fid =
     (if fid_is_igif fid then lu_igif_ino fid
      else let seq = f_seq fid;
               ino = push_bit 24 seq + (drop_bit 24 seq AND 0xffffff0000) + ucast (f_oid fid)
           in if ino \<noteq> 0 then ino else ucast (f_oid fid))"

definition fid_flatten32 :: "lu_fid \<Rightarrow> u32" where
  "fid_flatten32 fid =
     (if fid_is_igif fid then ucast (lu_igif_ino fid)
      else let seq = f_seq fid - FID_SEQ_START;
               ino = ucast (push_bit 12 (seq AND 0x000fffff) + (drop_bit 8 seq AND 0xfffff000) +
                            (drop_bit (64 - (40 - 8)) seq AND 0xffffff00) +
                            ucast (f_oid fid AND 0xff000fff) +
                            ucast (push_bit 8 (f_oid fid AND 0x00fff000))) :: u32
           in if ino \<noteq> 0 then ino else f_oid fid)"

definition lu_fid_diff :: "lu_fid \<Rightarrow> lu_fid \<Rightarrow> int option" where
  "lu_fid_diff fid1 fid2 =
     do { LASSERT (f_seq fid1 = f_seq fid2);
          Some (if fid_is_idif fid1 \<and> fid_is_idif fid2
                then sint (ucast (fid_idif_id (f_seq fid1) (f_oid fid1) (f_ver fid1) -
                                  fid_idif_id (f_seq fid2) (f_oid fid2) (f_ver fid2)) :: u32)
                else sint (f_oid fid1 - f_oid fid2)) }"

section \<open>Bits of the identifiers\<close>

lemma ucast_ver_oid [simp]: "ucast (fid_ver_oid fid) = f_oid fid"
  by (rule bit_word_eqI) (auto simp: fid_ver_oid_def bit_simps)

lemma drop_ver_oid [simp]: "ucast (drop_bit 32 (fid_ver_oid fid)) = f_ver fid"
  by (rule bit_word_eqI) (auto simp: fid_ver_oid_def bit_simps)

lemma bit_FID_SEQ_IDIF: "bit FID_SEQ_IDIF n \<longleftrightarrow> n = 32"
proof -
  have "FID_SEQ_IDIF = 2 ^ 32" by (simp add: const_defs)
  then have "bit FID_SEQ_IDIF n = bit (2 ^ 32 :: u64) n" by simp
  then show ?thesis unfolding bit_exp_iff by auto
qed

lemma and_ffff: "x AND 0xffff = take_bit 16 (x :: u64)"
  by (simp add: take_bit_eq_mask mask_eq_exp_minus_1)

lemma and_IDIF_OID_MASK: "x AND IDIF_OID_MASK = take_bit 48 x"
  by (simp add: take_bit_eq_mask mask_eq_exp_minus_1 const_defs)

lemmas idif_unfold = idif_ost_idx_def fid_idif_seq_def fid_idif_id_def and_ffff and_IDIF_OID_MASK
lemmas idif_bit_simps = bit_simps bit_FID_SEQ_IDIF

lemma idif_ost_idx_idif_seq: "idx \<le> 0xffff \<Longrightarrow> idif_ost_idx (fid_idif_seq oid idx) = idx"
proof (rule bit_word_eqI)
  fix n assume i: "idx \<le> 0xffff" and n: "n < LENGTH(32)"
  have "unat idx < 2 ^ 16" using i by (simp add: word_le_nat_alt)
  then have "16 \<le> n \<Longrightarrow> \<not> bit idx n" by (rule bit_above)
  then show "bit (idif_ost_idx (fid_idif_seq oid idx)) n = bit idx n"
    using n unfolding idif_unfold by (auto simp: idif_bit_simps)
qed

lemma idif_id_idif_seq: "oid < IDIF_MAX_OID \<Longrightarrow> fid_idif_id (fid_idif_seq oid idx) (ucast oid) (ucast (drop_bit 48 oid)) = oid"
proof (rule bit_word_eqI)
  fix n assume i: "oid < IDIF_MAX_OID" and n: "n < LENGTH(64)"
  have "unat oid < 2 ^ 48" using i by (simp add: const_defs word_less_nat_alt)
  then have "\<And>n. 48 \<le> n \<Longrightarrow> \<not> bit oid n" by (rule bit_above)
  then show "bit (fid_idif_id (fid_idif_seq oid idx) (ucast oid) (ucast (drop_bit 48 oid))) n = bit oid n"
    using n unfolding idif_unfold by (auto simp: idif_bit_simps)
qed

lemma idif_seq_is_idif: "fid_seq_is_idif (fid_idif_seq oid idx)"
proof -
  let ?s = "fid_idif_seq oid idx"
  have "take_bit 33 ?s = ?s"
    by (rule bit_word_eqI) (auto simp: idif_unfold idif_bit_simps)
  then have "unat ?s < 2 ^ 33" by (rule unat_take_bit_less)
  moreover have "FID_SEQ_IDIF \<le> ?s"
    unfolding fid_idif_seq_def by (metis or.assoc le_word_or2)
  ultimately show ?thesis by (simp add: fid_seq_is_idif_def const_defs word_le_nat_alt)
qed

lemma oi_fid_set [simp]: "oi_fid (set_oi_fid fid) = fid"
  by (simp add: oi_fid_def set_oi_fid_def)

lemma fid_ver_oid_halves: "fid_ver_oid \<lparr>f_seq = s, f_oid = ucast w, f_ver = ucast (drop_bit 32 w)\<rparr> = w"
  by (rule bit_word_eqI) (auto simp: fid_ver_oid_def bit_simps)

lemma set_oi_fid_oi_fid [simp]: "set_oi_fid (oi_fid oi) = oi"
  by (simp add: oi_fid_def set_oi_fid_def fid_ver_oid_halves)

lemma unat_IDIF_MAX: "oid < IDIF_MAX_OID \<longleftrightarrow> unat oid < 2 ^ 48"
  by (simp add: const_defs word_less_nat_alt)

lemma take_bit_48: "oid < IDIF_MAX_OID \<Longrightarrow> take_bit 48 oid = oid"
  by (simp add: unat_IDIF_MAX take_bit_unat_less)

lemma drop_bit_48: "oid < IDIF_MAX_OID \<Longrightarrow> drop_bit 48 oid = 0"
  by (metis drop_bit_take_bit take_bit_48 diff_self_eq_0 take_bit_0)

text \<open>
  C20. A legacy object (group 0, object id below \<open>2^48\<close>) maps to a sane IDIF FID that carries the
  OST index, and packing that FID again gives back the same id/seq pair.
\<close>

theorem ostid_fid_roundtrip:
  assumes "oid < IDIF_MAX_OID" and "ost_idx \<le> 0xffff"
  shows "\<exists>f. ostid_to_fid fid0 \<lparr>oi_id = oid, oi_seq = FID_SEQ_OST_MDT0\<rparr> ost_idx = (0, f) \<and>
             fid_is_idif f \<and> fid_is_sane (Some f) \<and> fid_idif_ost_idx f = ost_idx \<and>
             fid_to_ostid f oi0 = (0, \<lparr>oi_id = oid, oi_seq = FID_SEQ_OST_MDT0\<rparr>)"
proof -
  let ?oi = "\<lparr>oi_id = oid, oi_seq = FID_SEQ_OST_MDT0\<rparr>"
  let ?f = "\<lparr>f_seq = fid_idif_seq oid ost_idx, f_oid = ucast oid, f_ver = ucast (drop_bit 48 oid)\<rparr>"
  have b: "\<not> IDIF_MAX_OID \<le> oid" "\<not> 0xffff < ost_idx" using assms by auto
  then have "ostid_to_fid fid0 ?oi ost_idx = (0, ?f)"
    using assms by (simp add: ostid_to_fid_def ostid_seq_def ostid_id_def fid_seq_is_mdt0_def
        and_IDIF_OID_MASK take_bit_48 Let_def)
  moreover have "fid_is_idif ?f" by (simp add: fid_is_idif_def idif_seq_is_idif)
  moreover have "fid_idif_ost_idx ?f = ost_idx"
    using assms by (simp add: fid_idif_ost_idx_def idif_ost_idx_idif_seq)
  moreover have "\<not> fid_seq_is_igif (fid_idif_seq oid ost_idx)"
    using idif_seq_is_idif [of oid ost_idx]
    by (auto simp: fid_seq_is_idif_def fid_seq_is_igif_def const_defs word_le_nat_alt)
  then have "fid_to_ostid ?f oi0 = (0, ?oi)"
    using assms b by (simp add: fid_to_ostid_def fid_is_idif_def idif_seq_is_idif idif_id_idif_seq
        ostid_set_seq_mdt0_def ostid_set_seq_def ostid_set_id_def fid_seq_is_mdt0_def)
  ultimately show ?thesis by (auto simp: fid_is_sane_def)
qed

theorem ostid_fid_roundtrip_witness:
  "\<exists>f. ostid_to_fid fid_zero \<lparr>oi_id = 0x123456789a, oi_seq = FID_SEQ_OST_MDT0\<rparr> 3 = (0, f) \<and>
       fid_is_idif f \<and> fid_is_sane (Some f) \<and> fid_idif_ost_idx f = 3 \<and>
       fid_to_ostid f \<lparr>oi_id = 7, oi_seq = 7\<rparr> = (0, \<lparr>oi_id = 0x123456789a, oi_seq = FID_SEQ_OST_MDT0\<rparr>)"
  by (rule ostid_fid_roundtrip) (simp_all add: const_defs)

lemma idif_seq_id_self:
  assumes "fid_seq_is_idif seq"
  shows "fid_idif_seq (fid_idif_id seq oid 0) (idif_ost_idx seq) = seq"
proof -
  have u: "unat seq < 2 ^ 33" and l: "2 ^ 32 \<le> unat seq"
    using assms by (auto simp: fid_seq_is_idif_def const_defs word_le_nat_alt)
  have hi: "\<And>n. 33 \<le> n \<Longrightarrow> \<not> bit seq n" using u by (rule bit_above)
  then have lim: "n < 33" if "bit seq n" for n using that by (meson not_le)
  have b32: "bit seq 32"
  proof (rule ccontr)
    assume n: "\<not> bit seq 32"
    have "\<not> bit seq m" if "32 \<le> m" for m using that hi n by (cases "m = 32") auto
    then have "take_bit 32 seq = seq"
      by (intro bit_word_eqI) (auto simp: bit_simps not_less [symmetric])
    from unat_take_bit_less [OF this] l show False by simp
  qed
  show ?thesis
    by (rule bit_word_eqI, unfold idif_unfold) (use b32 in \<open>auto simp: idif_bit_simps dest: lim\<close>)
qed


lemma fid_idif_id_bound: "fid_idif_id seq oid 0 < IDIF_MAX_OID"
proof -
  have "take_bit 48 (fid_idif_id seq oid 0) = fid_idif_id seq oid 0"
    by (rule bit_word_eqI, unfold idif_unfold) (auto simp: idif_bit_simps)
  from unat_take_bit_less [OF this] show ?thesis by (simp add: unat_IDIF_MAX)
qed

lemma ucast_fid_idif_id: "ucast (fid_idif_id seq oid 0) = oid"
  by (rule bit_word_eqI, unfold idif_unfold) (auto simp: idif_bit_simps)

lemma fid_extract_build [simp]: "fid_extract_from_res_name (fid_build_reg_res_name fid) = Some fid"
  by (simp add: fid_extract_from_res_name_def fid_build_reg_res_name_def fid_res_name_eq_def
      Let_def) (simp add: fid_ver_oid_def)

definition resid_fid_ok :: "lu_fid \<Rightarrow> u32 \<Rightarrow> bool" where
  "resid_fid_ok fid ost_idx \<longleftrightarrow>
     (if fid_is_idif fid then f_ver fid = 0 \<and> ost_idx = fid_idif_ost_idx fid
      else f_seq fid \<noteq> FID_SEQ_OST_MDT0 \<and> fid_ver_oid fid \<noteq> 0)"

lemma idif_ost_idx_bound: "\<not> 0xffff < idif_ost_idx seq"
proof -
  have "take_bit 16 (idif_ost_idx seq) = idif_ost_idx seq"
    by (rule bit_word_eqI, unfold idif_unfold) (auto simp: idif_bit_simps)
  from unat_take_bit_less [OF this] show ?thesis by (simp add: word_less_nat_alt)
qed

text \<open>
  C21. The FID of an OST object survives the trip through its lock resource name, whatever the
  uninitialised half of the local \<open>ost_id\<close> and the previous contents of the outputs are: for
  IDIF FIDs read back with their own OST index, and for every other FID outside group 0 with a
  non-zero object id or version.
\<close>

theorem ost_resid_roundtrip:
  assumes "resid_fid_ok fid ost_idx"
  shows "ost_fid_from_resid fid0 (ost_fid_build_resid garbage fid res0) ost_idx = Some fid"
proof (cases "fid_is_idif fid")
  case True
  with assms have v: "f_ver fid = 0" and i: "ost_idx = fid_idif_ost_idx fid"
    and s: "fid_seq_is_idif (f_seq fid)" by (auto simp: resid_fid_ok_def fid_is_idif_def)
  let ?id = "fid_idif_id (f_seq fid) (f_oid fid) 0"
  have b: "\<not> IDIF_MAX_OID \<le> ?id" "take_bit 48 ?id = ?id" "drop_bit 48 ?id = 0"
    using fid_idif_id_bound [of "f_seq fid" "f_oid fid"] by (auto simp: take_bit_48 drop_bit_48)
  have "\<not> fid_seq_is_igif (f_seq fid)"
    using s by (auto simp: fid_seq_is_idif_def fid_seq_is_igif_def const_defs word_le_nat_alt)
  then have "ost_fid_build_resid garbage fid res0 = res_id_zero\<lparr>res_seq := ?id, res_ver_oid := 0\<rparr>"
    using True v b by (simp add: ost_fid_build_resid_def fid_to_ostid_def ostid_set_seq_mdt0_def
        ostid_set_seq_def ostid_set_id_def fid_seq_is_mdt0_def ostid_build_res_name_def
        ostid_seq_def ostid_id_def FID_SEQ_OST_MDT0_def and_IDIF_OID_MASK)
  with True v b i s show ?thesis
    by (simp add: ost_fid_from_resid_def ostid_set_seq_def ostid_set_id_def fid_seq_is_mdt0_def
        ostid_to_fid_def ostid_seq_def ostid_id_def FID_SEQ_OST_MDT0_def and_IDIF_OID_MASK
        idif_seq_id_self ucast_fid_idif_id fid_idif_ost_idx_def idif_ost_idx_bound)
next
  case False
  with assms show ?thesis
    by (simp add: resid_fid_ok_def ost_fid_build_resid_def ost_fid_from_resid_def fid_is_mdt0_def
        fid_seq_is_mdt0_def FID_SEQ_OST_MDT0_def)
       (simp add: fid_build_reg_res_name_def)
qed

theorem ost_resid_roundtrip_witness:
  "ost_fid_from_resid fid_zero
     (ost_fid_build_resid 99 \<lparr>f_seq = 0x100030012, f_oid = 77, f_ver = 0\<rparr> res_id_zero) 3 =
   Some \<lparr>f_seq = 0x100030012, f_oid = 77, f_ver = 0\<rparr>"
  by (rule ost_resid_roundtrip)
     (simp add: resid_fid_ok_def fid_is_idif_def fid_seq_is_idif_def fid_idif_ost_idx_def
        idif_ost_idx_def const_defs)

lemma unat_fid_flatten:
  assumes "unat (f_seq fid) < 2 ^ 40" and "unat (f_oid fid) < 2 ^ 24" and "\<not> fid_is_igif fid"
    and "f_seq fid \<noteq> 0"
  shows "unat (fid_flatten fid) = unat (f_seq fid) * 2 ^ 24 + unat (f_oid fid)"
proof -
  have "take_bit 16 (drop_bit 24 (f_seq fid)) = drop_bit 24 (f_seq fid)"
    using assms(1) by (intro take_bit_unat_less) (simp add: drop_bit_eq_div unat_div less_mult_imp_div_less)
  then have "drop_bit 24 (f_seq fid) AND 0xffffff0000 = (drop_bit 24 (f_seq fid) AND 0xffff) AND 0xffffff0000"
    by (simp only: and_ffff)
  then have z: "drop_bit 24 (f_seq fid) AND 0xffffff0000 = 0"
    by (simp add: and.assoc)
  have p: "unat (push_bit 24 (f_seq fid)) = unat (f_seq fid) * 2 ^ 24"
    using assms(1) by (simp add: push_bit_eq_mult unat_mult_no_wrap)
  let ?u = "push_bit 24 (f_seq fid) + ucast (f_oid fid) :: u64"
  have u: "unat ?u = unat (f_seq fid) * 2 ^ 24 + unat (f_oid fid)"
    using assms(1,2) p by (subst unat_plus_no_wrap) auto
  moreover have "?u \<noteq> 0" using u assms(4) by (metis unat_0 add_is_0 mult_is_0 unat_eq_zero power_not_zero zero_neq_numeral)
  ultimately show ?thesis using assms(3) z by (simp add: fid_flatten_def Let_def)
qed

text \<open>
  C22. Flattening to an inode number is injective on version-0 FIDs in normal sequences below
  \<open>2^40\<close> whose object ids stay below \<open>2^24\<close>, the range the comment on
  \<open>fid_flatten\<close> claims.
\<close>

theorem fid_flatten_inj:
  assumes "fid_is_norm a" "fid_is_norm b" "f_ver a = 0" "f_ver b = 0"
    and "unat (f_seq a) < 2 ^ 40" "unat (f_seq b) < 2 ^ 40"
    and "unat (f_oid a) < 2 ^ 24" "unat (f_oid b) < 2 ^ 24"
    and "a \<noteq> b"
  shows "fid_flatten a \<noteq> fid_flatten b"
proof
  assume eq: "fid_flatten a = fid_flatten b"
  have n: "\<not> fid_is_igif x \<and> f_seq x \<noteq> 0" if "fid_is_norm x" for x
    using that by (auto simp: fid_is_norm_def fid_seq_is_norm_def fid_is_igif_def fid_seq_is_igif_def
        const_defs word_le_nat_alt)
  have "unat (f_seq a) * 2 ^ 24 + unat (f_oid a) = unat (f_seq b) * 2 ^ 24 + unat (f_oid b)"
    using eq n [OF assms(1)] n [OF assms(2)] assms(5-8) by (metis unat_fid_flatten)
  then have "unat (f_seq a) = unat (f_seq b)" "unat (f_oid a) = unat (f_oid b)"
    using assms(7,8) by (blast dest: mult_add_eqD)+
  then show False using assms(3,4,9) by (simp add: word_unat_eq_iff)
qed

theorem fid_flatten_inj_witness:
  "fid_flatten \<lparr>f_seq = 0x200000401, f_oid = 5, f_ver = 0\<rparr> \<noteq>
   fid_flatten \<lparr>f_seq = 0x200000400, f_oid = 6, f_ver = 0\<rparr>"
  by (rule fid_flatten_inj) (simp_all add: fid_is_norm_def fid_seq_is_norm_def const_defs)

text \<open>
  \<open>fid_set_id\<close> accepts the object id \<open>2^32\<close> for a regular FID and stores it as
  object id 0, which turns the FID into the sequence's LAST_ID; \<open>ostid_set_id\<close> refuses the
  same value.
\<close>

theorem fid_set_id_truncates:
  "fid_set_id \<lparr>f_seq = FID_SEQ_NORMAL, f_oid = 5, f_ver = 0\<rparr> OBIF_MAX_OID =
     (0, \<lparr>f_seq = FID_SEQ_NORMAL, f_oid = 0, f_ver = 0\<rparr>) \<and>
   fid_is_last_id \<lparr>f_seq = FID_SEQ_NORMAL, f_oid = 0, f_ver = 0\<rparr> \<and>
   fst (ostid_set_id (set_oi_fid \<lparr>f_seq = FID_SEQ_NORMAL, f_oid = 5, f_ver = 0\<rparr>) OBIF_MAX_OID) = - E2BIG"
  by (simp add: fid_set_id_def fid_is_last_id_def fid_seq_is_igif_def fid_is_idif_def fid_seq_is_idif_def ostid_set_id_def
   fid_seq_is_mdt0_def const_defs set_oi_fid_def fid_ver_oid_def oi_fid_def errno_defs)

end
