(* ===== verification/Seq_Range.thy ===== *)
theory Seq_Range
  imports Lustre_Prelude
begin

text \<open>
  Sequence ranges \<open>[lsr_start, lsr_end)\<close>, the unit in which FID sequences are delegated from
  the controller to the metadata servers and from them to the clients
  (\<open>lustre/include/seq_range.h\<close>, \<open>struct lu_seq_range\<close> of \<open>lustre_idl.h\<close> and
  \<open>range_alloc\<close> of \<open>lustre/fid/fid_handler.c\<close>), and the set of sequence numbers a range
  stands for.
\<close>

record lu_seq_range =
  lsr_start :: u64
  lsr_end :: u64
  lsr_index :: u32
  lsr_flags :: u32

definition LU_SEQ_RANGE_MDT :: u32 where [const_defs]: "LU_SEQ_RANGE_MDT = 0x0"
definition LU_SEQ_RANGE_OST :: u32 where [const_defs]: "LU_SEQ_RANGE_OST = 0x1"
definition LU_SEQ_RANGE_ANY :: u32 where [const_defs]: "LU_SEQ_RANGE_ANY = 0x3"
definition LU_SEQ_RANGE_MASK :: u32 where [const_defs]: "LU_SEQ_RANGE_MASK = 0x3"

definition fld_range_type :: "lu_seq_range \<Rightarrow> u32" where
  "fld_range_type rng = lsr_flags rng AND LU_SEQ_RANGE_MASK"

definition fld_range_is_ost :: "lu_seq_range \<Rightarrow> bool" where
  "fld_range_is_ost rng \<longleftrightarrow> fld_range_type rng = LU_SEQ_RANGE_OST"

definition fld_range_is_mdt :: "lu_seq_range \<Rightarrow> bool" where
  "fld_range_is_mdt rng \<longleftrightarrow> fld_range_type rng = LU_SEQ_RANGE_MDT"

definition fld_range_is_any :: "lu_seq_range \<Rightarrow> bool" where
  "fld_range_is_any rng \<longleftrightarrow> fld_range_type rng = LU_SEQ_RANGE_ANY"

definition fld_range_set_type :: "lu_seq_range \<Rightarrow> u32 \<Rightarrow> lu_seq_range" where
  "fld_range_set_type rng flags = rng\<lparr>lsr_flags := lsr_flags rng OR flags\<rparr>"

definition fld_range_set_mdt :: "lu_seq_range \<Rightarrow> lu_seq_range" where
  "fld_range_set_mdt rng = fld_range_set_type rng LU_SEQ_RANGE_MDT"

definition fld_range_set_ost :: "lu_seq_range \<Rightarrow> lu_seq_range" where
  "fld_range_set_ost rng = fld_range_set_type rng LU_SEQ_RANGE_OST"

definition fld_range_set_any :: "lu_seq_range \<Rightarrow> lu_seq_range" where
  "fld_range_set_any rng = fld_range_set_type rng LU_SEQ_RANGE_ANY"

definition lu_seq_range_space :: "lu_seq_range \<Rightarrow> u64" where
  "lu_seq_range_space rng = lsr_end rng - lsr_start rng"

definition lu_seq_range_init :: lu_seq_range where
  "lu_seq_range_init = \<lparr>lsr_start = 0, lsr_end = 0, lsr_index = 0, lsr_flags = 0\<rparr>"

definition lu_seq_range_within :: "lu_seq_range \<Rightarrow> u64 \<Rightarrow> bool" where
  "lu_seq_range_within rng seq \<longleftrightarrow> seq \<ge> lsr_start rng \<and> seq < lsr_end rng"

definition lu_seq_range_is_sane :: "lu_seq_range \<Rightarrow> bool" where
  "lu_seq_range_is_sane rng \<longleftrightarrow> lsr_end rng \<ge> lsr_start rng"

definition lu_seq_range_is_zero :: "lu_seq_range \<Rightarrow> bool" where
  "lu_seq_range_is_zero rng \<longleftrightarrow> lsr_start rng = 0 \<and> lsr_end rng = 0"

definition lu_seq_range_is_exhausted :: "lu_seq_range \<Rightarrow> bool" where
  "lu_seq_range_is_exhausted rng \<longleftrightarrow> lu_seq_range_space rng = 0"

definition lu_seq_range_compare_loc :: "lu_seq_range \<Rightarrow> lu_seq_range \<Rightarrow> bool" where
  "lu_seq_range_compare_loc r1 r2 \<longleftrightarrow> lsr_index r1 \<noteq> lsr_index r2 \<or> lsr_flags r1 \<noteq> lsr_flags r2"

text \<open>\<open>range_alloc\<close> cuts at most \<open>width\<close> sequences off the front of \<open>from\<close>. The model
  returns the new \<open>to\<close> and the new \<open>from\<close>.\<close>

definition range_alloc :: "lu_seq_range \<Rightarrow> lu_seq_range \<Rightarrow> u64 \<Rightarrow> lu_seq_range \<times> lu_seq_range" where
  "range_alloc to from width =
     (let width = min (lu_seq_range_space from) width
      in (to\<lparr>lsr_start := lsr_start from, lsr_end := lsr_start from + width\<rparr>,
          from\<lparr>lsr_start := lsr_start from + width\<rparr>))"

section \<open>The sequences of a range\<close>

definition seqs :: "lu_seq_range \<Rightarrow> u64 set" where
  "seqs rng = {s. lu_seq_range_within rng s}"

lemma seqs_iff [simp]: "s \<in> seqs r \<longleftrightarrow> lsr_start r \<le> s \<and> s < lsr_end r"
  by (auto simp: seqs_def lu_seq_range_within_def)

lemma seqs_init [simp]: "seqs lu_seq_range_init = {}"
  by (auto simp: lu_seq_range_init_def)

lemma sane_init [simp]: "lu_seq_range_is_sane lu_seq_range_init"
  by (simp add: lu_seq_range_is_sane_def lu_seq_range_init_def)

lemma exhausted_iff: "lu_seq_range_is_exhausted r \<longleftrightarrow> lsr_end r = lsr_start r"
  by (auto simp: lu_seq_range_is_exhausted_def lu_seq_range_space_def)

lemma seqs_exhausted: "lu_seq_range_is_exhausted r \<Longrightarrow> seqs r = {}"
  by (auto simp: exhausted_iff)

lemma seqs_nonempty: "lu_seq_range_is_sane r \<Longrightarrow> \<not> lu_seq_range_is_exhausted r \<Longrightarrow> seqs r \<noteq> {}"
  by (auto simp: exhausted_iff lu_seq_range_is_sane_def set_eq_iff intro!: exI [of _ "lsr_start r"])

text \<open>A cut inside a sane range is a word between its ends: no wrap-around.\<close>

lemma range_cut_bounds:
  assumes sane: "lu_seq_range_is_sane r"
  shows "lsr_start r \<le> lsr_start r + min (lu_seq_range_space r) w"
    and "lsr_start r + min (lu_seq_range_space r) w \<le> lsr_end r"
proof -
  let ?m = "min (lu_seq_range_space r) w"
  have le: "unat (lsr_start r) \<le> unat (lsr_end r)"
    using sane by (simp add: lu_seq_range_is_sane_def word_le_nat_alt)
  have "unat ?m \<le> unat (lu_seq_range_space r)"
    by (simp add: word_le_nat_alt [symmetric])
  also have "\<dots> = unat (lsr_end r) - unat (lsr_start r)"
    using sane by (simp add: lu_seq_range_space_def lu_seq_range_is_sane_def unat_minus_le)
  finally have m: "unat (lsr_start r) + unat ?m \<le> unat (lsr_end r)" using le by linarith
  then have "unat (lsr_start r + ?m) = unat (lsr_start r) + unat ?m"
    by (intro unat_plus_no_wrap) (use unat_lt_bound [of "lsr_end r"] in linarith)
  then show "lsr_start r \<le> lsr_start r + ?m" "lsr_start r + ?m \<le> lsr_end r"
    using m by (simp_all add: word_le_nat_alt)
qed

lemma range_alloc_split:
  assumes "lu_seq_range_is_sane from" "range_alloc to from w = (to', from')"
  shows "lu_seq_range_is_sane to'" "lu_seq_range_is_sane from'"
    and "seqs from = seqs to' \<union> seqs from'" "seqs to' \<inter> seqs from' = {}"
    and "lsr_end from' = lsr_end from"
  using assms range_cut_bounds [OF assms(1), of w]
  by (auto simp: range_alloc_def Let_def lu_seq_range_is_sane_def)

lemma range_alloc_width:
  assumes "range_alloc to from w = (to', from')"
  shows "lu_seq_range_space to' = min (lu_seq_range_space from) w"
  using assms by (auto simp: range_alloc_def Let_def lu_seq_range_space_def)

lemma range_alloc_exhausted:
  assumes "range_alloc to from w = (to', from')" "w \<noteq> 0"
  shows "lu_seq_range_is_exhausted to' \<longleftrightarrow> lu_seq_range_is_exhausted from"
  using range_alloc_width [OF assms(1)] assms(2)
  by (auto simp: lu_seq_range_is_exhausted_def min_def word_le_nat_alt)

end
