(* ===== verification/Seq_Client.thy ===== *)
theory Seq_Client
  imports Fid Seq_Range
begin

text \<open>
  The client side of the sequence manager (\<open>lustre/fid/fid_request.c\<close>): a client keeps a range
  of sequences it may use (\<open>lcs_space\<close>) and the last FID it allocated (\<open>lcs_fid\<close>), bumps
  the object id inside a sequence and asks its server for a new range when it runs out.
  A function returns \<open>None\<close> when it does not return to its caller: an assertion fails, or it
  still waits for the server after the replies it is given. The pointer \<open>lcs_srv\<close> (talk to
  a local server) and \<open>lcs_exp\<close> (an export to a remote one) are the flags of being set. What
  the other side answers is an argument: \<open>direct\<close> for the local call, \<open>rpc\<close> for a request.
  Allocating a FID under contention is a machine of three atomic steps per thread, as
  \<open>lcs_mutex\<close> is released while the server is asked.
\<close>

datatype lu_cli_type = LUSTRE_SEQ_METADATA | LUSTRE_SEQ_DATA

record lu_client_seq =
  lcs_exp :: bool
  lcs_space :: lu_seq_range
  lcs_fid :: lu_fid
  lcs_type :: lu_cli_type
  lcs_width :: u64
  lcs_srv :: bool
  lcs_update :: int

definition LUSTRE_METADATA_SEQ_MAX_WIDTH :: u64 where [const_defs]: "LUSTRE_METADATA_SEQ_MAX_WIDTH = 0x20000"
definition LUSTRE_DATA_SEQ_MAX_WIDTH :: u64 where [const_defs]: "LUSTRE_DATA_SEQ_MAX_WIDTH = 0xFFFFFFFF"
definition SEQ_ALLOC_SUPER :: u32 where [const_defs]: "SEQ_ALLOC_SUPER = 0"
definition SEQ_ALLOC_META :: u32 where [const_defs]: "SEQ_ALLOC_META = 1"

text \<open>The outcome of one request: no memory for it, or the status of \<open>ptlrpc_queue_wait\<close> with
  the range of the reply buffer.\<close>

datatype seq_rpc = Rpc_nomem | Rpc_reply int lu_seq_range

text \<open>The range \<open>seq_client_rpc\<close> sends: zero, with the client's index and type.\<close>

definition seq_rpc_in :: "lu_client_seq \<Rightarrow> lu_seq_range" where
  "seq_rpc_in seq =
     (let in_r = lu_seq_range_init\<lparr>lsr_index := lsr_index (lcs_space seq)\<rparr>
      in if lcs_type seq = LUSTRE_SEQ_METADATA then fld_range_set_mdt in_r else fld_range_set_ost in_r)"

definition seq_client_rpc :: "seq_rpc \<Rightarrow> lu_client_seq \<Rightarrow> (int \<times> lu_client_seq) option" where
  "seq_client_rpc rpc seq = do {
     LASSERT (lcs_exp seq);
     Some (case rpc of
         Rpc_nomem \<Rightarrow> (- ENOMEM, seq)
       | Rpc_reply rc out \<Rightarrow>
           if rc \<noteq> 0 then (rc, seq)
           else let seq = seq\<lparr>lcs_space := out\<rparr>
                in if \<not> lu_seq_range_is_sane out then (- EINVAL, seq)
                   else if lu_seq_range_is_exhausted out then (- EINVAL, seq)
                   else (0, seq)) }"

definition seq_client_alloc_super ::
  "int \<times> lu_seq_range \<Rightarrow> seq_rpc \<Rightarrow> lu_client_seq \<Rightarrow> (int \<times> lu_client_seq) option" where
  "seq_client_alloc_super direct rpc seq =
     (if lcs_srv seq then Some (fst direct, seq\<lparr>lcs_space := snd direct\<rparr>)
      else if \<not> lcs_exp seq then Some (- EINPROGRESS, seq)
      else seq_client_rpc rpc seq)"

text \<open>The retry loop of \<open>seq_client_alloc_meta\<close>: one request of the list per round.\<close>

fun seq_client_meta_loop :: "seq_rpc list \<Rightarrow> lu_client_seq \<Rightarrow> (int \<times> lu_client_seq) option" where
  "seq_client_meta_loop [] seq = None"
| "seq_client_meta_loop (rpc # rpcs) seq = do {
     (rc, seq) \<leftarrow> seq_client_rpc rpc seq;
     if rc = - EINPROGRESS \<or> rc = - EAGAIN then seq_client_meta_loop rpcs seq else Some (rc, seq) }"

definition seq_client_alloc_meta ::
  "int \<times> lu_seq_range \<Rightarrow> seq_rpc list \<Rightarrow> lu_client_seq \<Rightarrow> (int \<times> lu_client_seq) option" where
  "seq_client_alloc_meta direct rpcs seq =
     (if lcs_srv seq then Some (fst direct, seq\<lparr>lcs_space := snd direct\<rparr>)
      else seq_client_meta_loop rpcs seq)"

definition seq_client_alloc_seq ::
  "int \<times> lu_seq_range \<Rightarrow> seq_rpc list \<Rightarrow> lu_client_seq \<Rightarrow> (int \<times> u64 \<times> lu_client_seq) option" where
  "seq_client_alloc_seq direct rpcs seq = do {
     LASSERT (lu_seq_range_is_sane (lcs_space seq));
     (rc, seq) \<leftarrow> (if lu_seq_range_is_exhausted (lcs_space seq)
                   then seq_client_alloc_meta direct rpcs seq else Some (0, seq));
     if rc \<noteq> 0 then Some (rc, 0, seq)
     else do {
       LASSERT (\<not> lu_seq_range_is_exhausted (lcs_space seq));
       let space = lcs_space seq;
       Some (rc, lsr_start space, seq\<lparr>lcs_space := space\<lparr>lsr_start := lsr_start space + 1\<rparr>\<rparr>) } }"

definition seq_fid_alloc_prep :: "lu_client_seq \<Rightarrow> int \<times> lu_client_seq" where
  "seq_fid_alloc_prep seq =
     (if lcs_update seq \<noteq> 0 then (- EAGAIN, seq)
      else (0, seq\<lparr>lcs_update := lcs_update seq + 1\<rparr>))"

definition seq_fid_alloc_fini :: "u64 \<Rightarrow> bool \<Rightarrow> lu_client_seq \<Rightarrow> lu_client_seq option" where
  "seq_fid_alloc_fini seqnr whole seq = do {
     LASSERT (lcs_update seq = 1);
     let seq = (if seqnr \<noteq> 0 then
                  seq\<lparr>lcs_fid := \<lparr>f_seq = seqnr,
                                  f_oid = (if whole then
                                             (if lcs_type seq = LUSTRE_SEQ_METADATA
                                              then ucast LUSTRE_METADATA_SEQ_MAX_WIDTH
                                              else ucast LUSTRE_DATA_SEQ_MAX_WIDTH)
                                           else LUSTRE_FID_INIT_OID),
                                  f_ver = 0\<rparr>\<rparr>
                else seq);
     Some (seq\<lparr>lcs_update := lcs_update seq - 1\<rparr>) }"

text \<open>\<open>seq_client_alloc_fid\<close> up to the point where it has the FID or has to get a new sequence
  (\<open>obd_fail\<close> is the fault injection \<open>OBD_FAIL_SEQ_EXHAUST\<close>, tested once, before the loop).\<close>

definition seq_client_exhaust :: "bool \<Rightarrow> lu_client_seq \<Rightarrow> lu_client_seq" where
  "seq_client_exhaust obd_fail seq =
     (if obd_fail then seq\<lparr>lcs_fid := (lcs_fid seq)\<lparr>f_oid := ucast (lcs_width seq)\<rparr>\<rparr> else seq)"

definition seq_client_bump :: "lu_client_seq \<Rightarrow> lu_client_seq option" where
  "seq_client_bump seq =
     (if \<not> fid_is_zero (lcs_fid seq) \<and> ucast (f_oid (lcs_fid seq)) < lcs_width seq
      then Some (seq\<lparr>lcs_fid := (lcs_fid seq)\<lparr>f_oid := f_oid (lcs_fid seq) + 1\<rparr>\<rparr>) else None)"

text \<open>The whole calls, run without a competing thread (\<open>lcs_update = 0\<close>, so that
  \<open>seq_fid_alloc_prep\<close> does not sleep; with one it is the caller that waits).\<close>

definition seq_client_get_seq ::
  "int \<times> lu_seq_range \<Rightarrow> seq_rpc list \<Rightarrow> lu_client_seq \<Rightarrow> (int \<times> u64 \<times> lu_client_seq) option" where
  "seq_client_get_seq direct rpcs seq =
     (case seq_fid_alloc_prep seq of (rc0, seq) \<Rightarrow>
        if rc0 \<noteq> 0 then None
        else do {
          (rc, seqnr, seq) \<leftarrow> seq_client_alloc_seq direct rpcs seq;
          seq \<leftarrow> seq_fid_alloc_fini (if rc \<noteq> 0 then 0 else seqnr) True seq;
          Some (rc, seqnr, seq) })"

definition seq_client_alloc_fid ::
  "bool \<Rightarrow> int \<times> lu_seq_range \<Rightarrow> seq_rpc list \<Rightarrow> lu_client_seq \<Rightarrow> (int \<times> lu_fid option \<times> lu_client_seq) option" where
  "seq_client_alloc_fid obd_fail direct rpcs seq =
     (let seq = seq_client_exhaust obd_fail seq
      in case seq_client_bump seq of
           Some seq \<Rightarrow> Some (0, Some (lcs_fid seq), seq)
         | None \<Rightarrow>
             (case seq_fid_alloc_prep seq of (rc0, seq) \<Rightarrow>
                if rc0 \<noteq> 0 then None
                else do {
                  (rc, seqnr, seq) \<leftarrow> seq_client_alloc_seq direct rpcs seq;
                  seq \<leftarrow> seq_fid_alloc_fini (if rc \<noteq> 0 then 0 else seqnr) False seq;
                  Some (if rc \<noteq> 0 then (rc, None, seq) else (1, Some (lcs_fid seq), seq)) }))"

text \<open>\<open>seq_client_flush\<close> once no thread updates the client.\<close>

definition seq_client_flush :: "lu_client_seq \<Rightarrow> lu_client_seq option" where
  "seq_client_flush seq =
     (if lcs_update seq \<noteq> 0 then None
      else Some (seq\<lparr>lcs_fid := fid_zero, lcs_space := lu_seq_range_init\<rparr>))"

definition seq_client_fini :: "lu_client_seq \<Rightarrow> lu_client_seq" where
  "seq_client_fini seq = seq\<lparr>lcs_exp := False, lcs_srv := False\<rparr>"

definition seq_client_init ::
  "bool \<Rightarrow> lu_cli_type \<Rightarrow> bool \<Rightarrow> int \<Rightarrow> lu_client_seq \<Rightarrow> (int \<times> lu_client_seq) option" where
  "seq_client_init exp type srv debugfs_rc seq = do {
     let seq = seq\<lparr>lcs_srv := srv, lcs_type := type,
                   lcs_width := (if type = LUSTRE_SEQ_METADATA then LUSTRE_METADATA_SEQ_MAX_WIDTH
                                 else LUSTRE_DATA_SEQ_MAX_WIDTH)\<rparr>;
     seq \<leftarrow> seq_client_flush seq;
     let seq = (if exp then seq\<lparr>lcs_exp := True\<rparr> else seq);
     Some (if debugfs_rc \<noteq> 0 then (debugfs_rc, seq_client_fini seq) else (0, seq)) }"


section \<open>The calls of one client\<close>

lemmas seq_client_defs = seq_client_rpc_def seq_client_alloc_meta_def seq_client_alloc_seq_def
  seq_fid_alloc_prep_def seq_fid_alloc_fini_def seq_client_exhaust_def seq_client_bump_def

text \<open>The retry loop returns as soon as one of the requests is answered with something else than
  "not ready"; the ranges of the replies before it are not looked at.\<close>

fun rpc_waits :: "seq_rpc \<Rightarrow> bool" where
  "rpc_waits Rpc_nomem = False"
| "rpc_waits (Rpc_reply rc r) = (rc = - EINPROGRESS \<or> rc = - EAGAIN)"

lemma seq_client_rpc_waits:
  "rpc_waits rpc \<Longrightarrow> lcs_exp seq \<Longrightarrow> \<exists>rc. (rc = - EINPROGRESS \<or> rc = - EAGAIN) \<and> seq_client_rpc rpc seq = Some (rc, seq)"
  by (cases rpc) (auto simp: seq_client_rpc_def errno_defs)

lemma seq_client_rpc_answers:
  "\<not> rpc_waits rpc \<Longrightarrow> lcs_exp seq \<Longrightarrow>
   \<exists>rc seq'. rc \<noteq> - EINPROGRESS \<and> rc \<noteq> - EAGAIN \<and> seq_client_rpc rpc seq = Some (rc, seq')"
  by (cases rpc) (auto simp: seq_client_rpc_def errno_defs Let_def)

lemma seq_client_meta_loop_eq:
  assumes "lcs_exp seq" "list_all rpc_waits pre" "\<not> rpc_waits rpc"
  shows "seq_client_meta_loop (pre @ rpc # post) seq = seq_client_rpc rpc seq"
  using assms
proof (induction pre)
  case Nil
  then obtain rc seq' where "rc \<noteq> - EINPROGRESS" "rc \<noteq> - EAGAIN" "seq_client_rpc rpc seq = Some (rc, seq')"
    using seq_client_rpc_answers by blast
  then show ?case by simp
next
  case (Cons a pre)
  then obtain rc where "rc = - EINPROGRESS \<or> rc = - EAGAIN" "seq_client_rpc a seq = Some (rc, seq)"
    using seq_client_rpc_waits [of a seq] by auto
  then show ?case using Cons by simp
qed

text \<open>What the loop leaves in \<open>lcs_space\<close> came with a successful reply.\<close>

lemma seq_client_rpc_space:
  assumes "seq_client_rpc rpc seq = Some (rc, seq')"
  shows "seq' = seq \<or> (\<exists>r. rpc = Rpc_reply 0 r \<and> seq' = seq\<lparr>lcs_space := r\<rparr>)"
    and "rc = 0 \<Longrightarrow> \<exists>r. rpc = Rpc_reply 0 r \<and> seq' = seq\<lparr>lcs_space := r\<rparr>
            \<and> lu_seq_range_is_sane r \<and> \<not> lu_seq_range_is_exhausted r"
  using assms
  by (auto simp: seq_client_rpc_def Let_def bind_LASSERT_eq_Some errno_defs split: seq_rpc.splits if_splits)

lemma seq_client_meta_loop_space:
  assumes "seq_client_meta_loop rpcs seq = Some (rc, seq')"
  shows "(seq' = seq \<or> (\<exists>r. Rpc_reply 0 r \<in> set rpcs \<and> seq' = seq\<lparr>lcs_space := r\<rparr>)) \<and>
         (rc = 0 \<longrightarrow> (\<exists>r. Rpc_reply 0 r \<in> set rpcs \<and> seq' = seq\<lparr>lcs_space := r\<rparr>
            \<and> lu_seq_range_is_sane r \<and> \<not> lu_seq_range_is_exhausted r))"
  using assms
proof (induction rpcs arbitrary: seq)
  case (Cons rpc rpcs)
  then obtain rc1 seq1 where 1: "seq_client_rpc rpc seq = Some (rc1, seq1)"
    by (auto split: Option.bind_splits)
  have waits: "seq1 = seq" if "rc1 = - EINPROGRESS \<or> rc1 = - EAGAIN"
    using 1 that by (auto simp: seq_client_rpc_def Let_def bind_LASSERT_eq_Some errno_defs
        split: seq_rpc.splits if_splits)
  show ?case
  proof (cases "rc1 = - EINPROGRESS \<or> rc1 = - EAGAIN")
    case True
    then have "seq_client_meta_loop rpcs seq = Some (rc, seq')" using Cons.prems 1 waits by simp
    then show ?thesis using Cons.IH [of seq] by auto
  next
    case False
    then have "rc = rc1" "seq' = seq1" using Cons.prems 1 by auto
    then show ?thesis using seq_client_rpc_space [OF 1] by auto
  qed
qed simp

section \<open>Threads of one client\<close>

text \<open>
  A thread in \<open>seq_client_alloc_fid\<close> or \<open>seq_client_get_seq\<close> (\<open>whole\<close>) is outside, owns
  \<open>lcs_update\<close> and has the server call ahead of it, or has its answer. The client records the
  FIDs and whole sequences it returned and the sequences it took.
\<close>

datatype cli_pc = Idle | Getting bool | Got bool int u64

record cli =
  cl_seq :: lu_client_seq
  cl_pc :: "nat \<Rightarrow> cli_pc"
  cl_fids :: "lu_fid list"
  cl_whole :: "u64 list"
  cl_taken :: "u64 set"

text \<open>The answers a call may see: all of them hand out \<open>r\<close>, or none hands out anything.\<close>

fun cli_answer :: "lu_seq_range option \<Rightarrow> lu_client_seq \<Rightarrow> int \<times> lu_seq_range \<Rightarrow> seq_rpc list \<Rightarrow> bool" where
  "cli_answer (Some r) seq direct rpcs \<longleftrightarrow>
     lu_seq_range_is_exhausted (lcs_space seq) \<and> direct = (0, r) \<and> (\<forall>r'. Rpc_reply 0 r' \<in> set rpcs \<longrightarrow> r' = r)"
| "cli_answer None seq direct rpcs \<longleftrightarrow>
     fst direct \<noteq> 0 \<and> snd direct = lcs_space seq \<and> (\<forall>r'. Rpc_reply 0 r' \<notin> set rpcs)"

inductive cli_step :: "lu_seq_range option \<Rightarrow> cli \<Rightarrow> cli \<Rightarrow> bool" where
  fid_bump:
    "\<lbrakk>cl_pc c t = Idle; seq_client_bump (seq_client_exhaust fail (cl_seq c)) = Some seq\<rbrakk> \<Longrightarrow>
     cli_step None c (c\<lparr>cl_seq := seq, cl_fids := lcs_fid seq # cl_fids c\<rparr>)"
| fid_prep:
    "\<lbrakk>cl_pc c t = Idle; seq_client_bump (seq_client_exhaust fail (cl_seq c)) = None;
      seq_fid_alloc_prep (seq_client_exhaust fail (cl_seq c)) = (rc, seq)\<rbrakk> \<Longrightarrow>
     cli_step None c (c\<lparr>cl_seq := seq, cl_pc := (cl_pc c)(t := if rc = 0 then Getting False else Idle)\<rparr>)"
| whole_prep:
    "\<lbrakk>cl_pc c t = Idle; seq_fid_alloc_prep (cl_seq c) = (rc, seq)\<rbrakk> \<Longrightarrow>
     cli_step None c (c\<lparr>cl_seq := seq, cl_pc := (cl_pc c)(t := if rc = 0 then Getting True else Idle)\<rparr>)"
| alloc:
    "\<lbrakk>cl_pc c t = Getting w; cli_answer ans (cl_seq c) direct rpcs;
      seq_client_alloc_seq direct rpcs (cl_seq c) = Some (rc, nr, seq)\<rbrakk> \<Longrightarrow>
     cli_step ans c (c\<lparr>cl_seq := seq, cl_pc := (cl_pc c)(t := Got w rc nr),
                       cl_taken := (if rc = 0 then insert nr (cl_taken c) else cl_taken c)\<rparr>)"
| fini:
    "\<lbrakk>cl_pc c t = Got w rc nr;
      seq_fid_alloc_fini (if rc \<noteq> 0 then 0 else nr) w (cl_seq c) = Some seq\<rbrakk> \<Longrightarrow>
     cli_step None c (c\<lparr>cl_seq := seq, cl_pc := (cl_pc c)(t := Idle),
                        cl_fids := (if rc = 0 \<and> \<not> w then lcs_fid seq # cl_fids c else cl_fids c),
                        cl_whole := (if rc = 0 \<and> w then nr # cl_whole c else cl_whole c)\<rparr>)"
| flush:
    "seq_client_flush (cl_seq c) = Some seq \<Longrightarrow> cli_step None c (c\<lparr>cl_seq := seq\<rparr>)"

inductive_cases cli_stepE: "cli_step ans c c'"

text \<open>One owner of \<open>lcs_update\<close>.\<close>

definition cli_lock_inv :: "cli \<Rightarrow> bool" where
  "cli_lock_inv c \<longleftrightarrow>
     (lcs_update (cl_seq c) = 0 \<and> (\<forall>t. cl_pc c t = Idle)) \<or>
     (lcs_update (cl_seq c) = 1 \<and> (\<exists>t. cl_pc c t \<noteq> Idle \<and> (\<forall>u. u \<noteq> t \<longrightarrow> cl_pc c u = Idle)))"

definition cli_type_inv :: "lu_client_seq \<Rightarrow> bool" where
  "cli_type_inv seq \<longleftrightarrow>
     lcs_width seq = (if lcs_type seq = LUSTRE_SEQ_METADATA then LUSTRE_METADATA_SEQ_MAX_WIDTH
                      else LUSTRE_DATA_SEQ_MAX_WIDTH)"

text \<open>Sequences: what the client has and took is part of what it was given (\<open>own\<close>).\<close>

definition cli_seq_inv :: "u64 set \<Rightarrow> cli \<Rightarrow> bool" where
  "cli_seq_inv own c \<longleftrightarrow>
     lu_seq_range_is_sane (lcs_space (cl_seq c)) \<and> 0 \<notin> own \<and>
     seqs (lcs_space (cl_seq c)) \<subseteq> own \<and> cl_taken c \<subseteq> own \<and>
     seqs (lcs_space (cl_seq c)) \<inter> cl_taken c = {}"

text \<open>FIDs: the last one bounds those of its sequence.\<close>

definition cli_fid_inv :: "cli \<Rightarrow> bool" where
  "cli_fid_inv c \<longleftrightarrow>
     (let last = lcs_fid (cl_seq c) in
      (f_seq last = 0 \<longrightarrow> seq_client_bump (cl_seq c) = None) \<and>
      f_oid last \<le> ucast (lcs_width (cl_seq c)) \<and> f_seq last \<in> insert 0 (cl_taken c) \<and>
      (f_seq last \<in> set (cl_whole c) \<longrightarrow> ucast (f_oid last) = lcs_width (cl_seq c)) \<and>
      distinct (cl_fids c) \<and> distinct (cl_whole c) \<and> set (cl_whole c) \<subseteq> cl_taken c \<and>
      f_seq ` set (cl_fids c) \<subseteq> cl_taken c \<and> f_seq ` set (cl_fids c) \<inter> set (cl_whole c) = {} \<and>
      (\<forall>f\<in>set (cl_fids c). f_seq f = f_seq last \<longrightarrow> f_oid f \<le> f_oid last))"

text \<open>A sequence a thread is about to install is taken and not in use.\<close>

definition cli_got_inv :: "cli \<Rightarrow> bool" where
  "cli_got_inv c \<longleftrightarrow> (\<forall>t w nr. cl_pc c t = Got w 0 nr \<longrightarrow>
     nr \<in> cl_taken c \<and> nr \<notin> f_seq ` set (cl_fids c) \<and> nr \<notin> set (cl_whole c) \<and> nr \<noteq> f_seq (lcs_fid (cl_seq c)))"

definition cli_inv :: "u64 set \<Rightarrow> cli \<Rightarrow> bool" where
  "cli_inv own c \<longleftrightarrow>
     cli_lock_inv c \<and> cli_type_inv (cl_seq c) \<and> cli_seq_inv own c \<and> cli_fid_inv c \<and> cli_got_inv c"

lemmas cli_inv_defs = cli_lock_inv_def cli_type_inv_def cli_seq_inv_def cli_fid_inv_def cli_got_inv_def

fun ans_seqs :: "lu_seq_range option \<Rightarrow> u64 set" where
  "ans_seqs None = {}"
| "ans_seqs (Some r) = seqs r"

lemma ucast_width [simp]:
  "cli_type_inv seq \<Longrightarrow> ucast (ucast (lcs_width seq) :: u32) = lcs_width seq"
  by (simp add: cli_type_inv_def const_defs)

lemma bump_None: "seq_client_bump seq = None \<longleftrightarrow> fid_is_zero (lcs_fid seq) \<or> \<not> ucast (f_oid (lcs_fid seq)) < lcs_width seq"
  by (auto simp: seq_client_bump_def)

lemma bump_exhaust_True: "cli_type_inv seq \<Longrightarrow> seq_client_bump (seq_client_exhaust True seq) = None"
  by (simp add: seq_client_bump_def seq_client_exhaust_def)

lemma bump_Some:
  assumes "cli_type_inv seq" "seq_client_bump seq = Some seq'"
  shows "f_oid (lcs_fid seq) < f_oid (lcs_fid seq')" "f_oid (lcs_fid seq') \<le> ucast (lcs_width seq)"
    and "seq' = seq\<lparr>lcs_fid := (lcs_fid seq)\<lparr>f_oid := f_oid (lcs_fid seq) + 1\<rparr>\<rparr>"
    and "ucast (f_oid (lcs_fid seq)) \<noteq> lcs_width seq"
proof -
  have lt: "ucast (f_oid (lcs_fid seq)) < lcs_width seq" "lcs_width seq \<le> 0xFFFFFFFF"
    and eq: "seq' = seq\<lparr>lcs_fid := (lcs_fid seq)\<lparr>f_oid := f_oid (lcs_fid seq) + 1\<rparr>\<rparr>"
    using assms by (auto simp: seq_client_bump_def cli_type_inv_def const_defs split: if_splits)
  have n: "unat (f_oid (lcs_fid seq)) < unat (lcs_width seq)" "unat (lcs_width seq) \<le> 0xFFFFFFFF"
    using lt by (simp_all add: word_less_nat_alt word_le_nat_alt)
  have w: "unat (ucast (lcs_width seq) :: u32) = unat (lcs_width seq)"
    using assms(1) by (simp add: cli_type_inv_def const_defs)
  have s: "unat (f_oid (lcs_fid seq) + 1) = unat (f_oid (lcs_fid seq)) + 1"
    using n by (subst unat_plus_no_wrap) auto
  show "f_oid (lcs_fid seq) < f_oid (lcs_fid seq')" "f_oid (lcs_fid seq') \<le> ucast (lcs_width seq)"
    using n w s by (simp_all add: eq word_less_nat_alt word_le_nat_alt)
  show "seq' = seq\<lparr>lcs_fid := (lcs_fid seq)\<lparr>f_oid := f_oid (lcs_fid seq) + 1\<rparr>\<rparr>" by (rule eq)
  show "ucast (f_oid (lcs_fid seq)) \<noteq> lcs_width seq" using lt by auto
qed

lemma cli_inv_exhaust:
  assumes "cli_inv own c" "cl_seq c' = seq_client_exhaust fail (cl_seq c)"
    "cl_pc c' = cl_pc c" "cl_fids c' = cl_fids c" "cl_whole c' = cl_whole c" "cl_taken c' = cl_taken c"
  shows "cli_inv own c'"
proof (cases fail)
  case False
  then have "c' = c" using assms by (intro cli.equality) (auto simp: seq_client_exhaust_def)
  then show ?thesis using assms(1) by simp
next
  case True
  have ty: "cli_type_inv (cl_seq c)" using assms(1) by (simp add: cli_inv_def)
  have b: "seq_client_bump (cl_seq c') = None" using bump_exhaust_True [OF ty] assms(2) True by simp
  have fid: "cli_fid_inv c" and ow: "f_oid (lcs_fid (cl_seq c)) \<le> ucast (lcs_width (cl_seq c))"
    using assms(1) by (auto simp: cli_inv_def cli_fid_inv_def Let_def)
  have seq: "cl_seq c' = (cl_seq c)\<lparr>lcs_fid := (lcs_fid (cl_seq c))\<lparr>f_oid := ucast (lcs_width (cl_seq c))\<rparr>\<rparr>"
    using assms(2) True by (simp add: seq_client_exhaust_def)
  have "cli_fid_inv c'"
    using fid b ow unfolding cli_fid_inv_def Let_def assms(3-6)
    by (simp add: seq ucast_width [OF ty]) (metis order.trans)
  moreover have "cli_lock_inv c'" "cli_type_inv (cl_seq c')" "cli_seq_inv own c'" "cli_got_inv c'"
    using assms(1) by (simp_all add: cli_inv_def cli_lock_inv_def cli_type_inv_def cli_seq_inv_def
        cli_got_inv_def seq assms(3-6))
  ultimately show ?thesis by (simp add: cli_inv_def)
qed

lemma cli_inv_bump:
  assumes inv: "cli_inv own c" and b: "seq_client_bump (cl_seq c) = Some seq"
  shows "cli_inv own (c\<lparr>cl_seq := seq, cl_fids := lcs_fid seq # cl_fids c\<rparr>)"
proof -
  have ty: "cli_type_inv (cl_seq c)" using inv by (simp add: cli_inv_def)
  note b' = bump_Some [OF ty b]
  have s: "f_seq (lcs_fid (cl_seq c)) \<noteq> 0" using inv b by (auto simp: cli_inv_def cli_fid_inv_def Let_def)
  have "lcs_fid seq \<notin> set (cl_fids c)"
    using inv b'(1,3) by (auto simp: cli_inv_def cli_fid_inv_def Let_def dest: leD)
  moreover have "\<forall>f\<in>set (cl_fids c). f_seq f = f_seq (lcs_fid seq) \<longrightarrow> f_oid f \<le> f_oid (lcs_fid seq)"
    using inv b'(1,3) by (auto simp: cli_inv_def cli_fid_inv_def Let_def dest: order.trans [OF _ less_imp_le])
  ultimately have "cli_fid_inv (c\<lparr>cl_seq := seq, cl_fids := lcs_fid seq # cl_fids c\<rparr>)"
    using inv b'(2,4) s unfolding cli_inv_def cli_fid_inv_def Let_def by (simp add: b'(3))
  moreover have "cli_lock_inv (c\<lparr>cl_seq := seq, cl_fids := lcs_fid seq # cl_fids c\<rparr>)" "cli_type_inv seq"
    "cli_seq_inv own (c\<lparr>cl_seq := seq, cl_fids := lcs_fid seq # cl_fids c\<rparr>)"
    "cli_got_inv (c\<lparr>cl_seq := seq, cl_fids := lcs_fid seq # cl_fids c\<rparr>)"
    using inv by (auto simp: cli_inv_def cli_lock_inv_def cli_type_inv_def cli_seq_inv_def cli_got_inv_def b'(3))
  ultimately show ?thesis by (simp add: cli_inv_def)
qed

text \<open>What a call of \<open>seq_client_alloc_seq\<close> does to the client, given a lawful answer.\<close>

definition ans_ok :: "u64 set \<Rightarrow> lu_seq_range option \<Rightarrow> bool" where
  "ans_ok own ans \<longleftrightarrow> (\<forall>r. ans = Some r \<longrightarrow>
     lu_seq_range_is_sane r \<and> 0 \<notin> seqs r \<and> seqs r \<inter> own = {})"

lemma alloc_seq_ans:
  assumes "seq_client_alloc_seq direct rpcs seq = Some (rc, nr, seq')"
    and "cli_answer ans seq direct rpcs" "ans_ok own ans"
  obtains (err) "rc \<noteq> 0" "seq' = seq"
    | (err_space) r where "rc \<noteq> 0" "ans = Some r" "seq' = seq\<lparr>lcs_space := r\<rparr>"
    | (ok) r where "rc = 0" "r = (case ans of None \<Rightarrow> lcs_space seq | Some r \<Rightarrow> r)"
        "\<not> lu_seq_range_is_exhausted r" "lu_seq_range_is_sane r" "nr = lsr_start r"
        "seq' = seq\<lparr>lcs_space := r\<lparr>lsr_start := lsr_start r + 1\<rparr>\<rparr>"
proof (cases "lu_seq_range_is_exhausted (lcs_space seq)")
  case False
  then have "ans = None" using assms(2) by (cases ans) auto
  then show thesis using False assms(1) by (auto simp: seq_client_alloc_seq_def Let_def intro!: ok split: if_splits)
next
  case True
  then obtain rc1 seq1 where m: "seq_client_alloc_meta direct rpcs seq = Some (rc1, seq1)"
    and rest: "if rc1 \<noteq> 0 then rc = rc1 \<and> seq' = seq1 else \<not> lu_seq_range_is_exhausted (lcs_space seq1) \<and> rc = 0
      \<and> nr = lsr_start (lcs_space seq1)
      \<and> seq' = seq1\<lparr>lcs_space := (lcs_space seq1)\<lparr>lsr_start := lsr_start (lcs_space seq1) + 1\<rparr>\<rparr>"
    using assms(1) by (auto simp: seq_client_alloc_seq_def Let_def bind_LASSERT_eq_Some
        split: if_splits Option.bind_splits)
  have mm: "(rc1 \<noteq> 0 \<and> seq1 = seq) \<or> (\<exists>r. ans = Some r \<and> seq1 = seq\<lparr>lcs_space := r\<rparr>)"
  proof (cases "lcs_srv seq")
    case True
    then show ?thesis using m assms(2) by (cases ans) (auto simp: seq_client_alloc_meta_def)
  next
    case False
    then have "seq_client_meta_loop rpcs seq = Some (rc1, seq1)" using m by (simp add: seq_client_alloc_meta_def)
    from seq_client_meta_loop_space [OF this] show ?thesis using assms(2) by (cases ans) auto
  qed
  show thesis
  proof (cases "rc1 = 0")
    case True
    then obtain r where "ans = Some r" "seq1 = seq\<lparr>lcs_space := r\<rparr>" using mm by auto
    then show thesis using rest True assms(3) by (intro ok [of r]) (auto simp: ans_ok_def)
  next
    case False
    then show thesis using mm rest err err_space by auto
  qed
qed

lemma range_take_first:
  assumes "\<not> lu_seq_range_is_exhausted r" "lu_seq_range_is_sane r"
  shows "lsr_start r \<in> seqs r" "seqs (r\<lparr>lsr_start := lsr_start r + 1\<rparr>) = seqs r - {lsr_start r}"
    "lu_seq_range_is_sane (r\<lparr>lsr_start := lsr_start r + 1\<rparr>)"
proof -
  have lt: "lsr_start r < lsr_end r" using assms by (auto simp: exhausted_iff lu_seq_range_is_sane_def)
  have inc: "lsr_start r + 1 \<le> x \<longleftrightarrow> lsr_start r < x" for x
    using lt by (rule word_inc_le)
  show "lsr_start r \<in> seqs r" using lt by simp
  show "seqs (r\<lparr>lsr_start := lsr_start r + 1\<rparr>) = seqs r - {lsr_start r}" by (auto simp: inc)
  show "lu_seq_range_is_sane (r\<lparr>lsr_start := lsr_start r + 1\<rparr>)" using lt by (simp add: lu_seq_range_is_sane_def inc)
qed

lemma cli_inv_cong:
  assumes "cli_inv own c" "cl_seq c' = (cl_seq c)\<lparr>lcs_update := u\<rparr>" "cli_lock_inv c'"
    "cl_fids c' = cl_fids c" "cl_whole c' = cl_whole c" "cl_taken c' = cl_taken c"
    "\<And>t w nr. cl_pc c' t = Got w 0 nr \<Longrightarrow> cl_pc c t = Got w 0 nr"
  shows "cli_inv own c'"
proof -
  have "cli_fid_inv c'"
    using assms(1) by (simp add: cli_inv_def cli_fid_inv_def Let_def bump_None assms(2,4-6))
  moreover have "cli_type_inv (cl_seq c')" "cli_seq_inv own c'"
    using assms(1) by (simp_all add: cli_inv_def cli_type_inv_def cli_seq_inv_def assms(2,4-6))
  moreover have "cli_got_inv c'"
    unfolding cli_got_inv_def
  proof (intro allI impI)
    fix t w nr assume "cl_pc c' t = Got w 0 nr"
    then have "cl_pc c t = Got w 0 nr" by (rule assms(7))
    then show "nr \<in> cl_taken c' \<and> nr \<notin> f_seq ` set (cl_fids c') \<and> nr \<notin> set (cl_whole c')
      \<and> nr \<noteq> f_seq (lcs_fid (cl_seq c'))"
      using assms(1) unfolding cli_inv_def cli_got_inv_def assms(4-6) by (simp add: assms(2))
  qed
  ultimately show ?thesis using assms(3) by (simp add: cli_inv_def)
qed

lemma cli_inv_prep:
  assumes inv: "cli_inv own c" and "cl_pc c t = Idle" "seq_fid_alloc_prep (cl_seq c) = (rc, seq)"
  shows "cli_inv own (c\<lparr>cl_seq := seq, cl_pc := (cl_pc c)(t := if rc = 0 then Getting w else Idle)\<rparr>)"
proof (cases "lcs_update (cl_seq c) = 0")
  case True
  then have "\<forall>t. cl_pc c t = Idle" using inv by (auto simp: cli_inv_def cli_lock_inv_def)
  moreover have "rc = 0" "seq = (cl_seq c)\<lparr>lcs_update := 1\<rparr>"
    using True assms(3) by (auto simp: seq_fid_alloc_prep_def)
  ultimately show ?thesis
    by (intro cli_inv_cong [OF inv, where u = 1]) (auto simp: cli_lock_inv_def split: if_splits)
next
  case False
  then have "rc \<noteq> 0" "seq = cl_seq c" using assms(3) by (auto simp: seq_fid_alloc_prep_def errno_defs)
  then have "c\<lparr>cl_seq := seq, cl_pc := (cl_pc c)(t := if rc = 0 then Getting w else Idle)\<rparr> = c"
    using assms(2) by (intro cli.equality) auto
  then show ?thesis using inv by simp
qed

lemma cli_lock_others:
  "cli_lock_inv c \<Longrightarrow> cl_pc c t \<noteq> Idle \<Longrightarrow> u \<noteq> t \<Longrightarrow> cl_pc c u = Idle"
  "cli_lock_inv c \<Longrightarrow> cl_pc c t \<noteq> Idle \<Longrightarrow> lcs_update (cl_seq c) = 1"
  unfolding cli_lock_inv_def by metis+

lemma cli_fid_inv_space:
  assumes "cli_fid_inv c" "cl_taken c \<subseteq> T"
  shows "cli_fid_inv (c\<lparr>cl_seq := (cl_seq c)\<lparr>lcs_space := r\<rparr>, cl_pc := pc, cl_taken := T\<rparr>)"
  using assms unfolding cli_fid_inv_def Let_def bump_None by (simp add: subset_trans) blast

lemma cli_inv_alloc:
  assumes inv: "cli_inv own c" and t: "cl_pc c t = Getting w" and ans: "ans_ok own ans"
    and a: "cli_answer ans (cl_seq c) direct rpcs" "seq_client_alloc_seq direct rpcs (cl_seq c) = Some (rc, nr, seq)"
  shows "cli_inv (own \<union> ans_seqs ans) (c\<lparr>cl_seq := seq, cl_pc := (cl_pc c)(t := Got w rc nr),
            cl_taken := (if rc = 0 then insert nr (cl_taken c) else cl_taken c)\<rparr>)" (is "cli_inv _ ?c")
proof -
  have others: "cl_pc c u = Idle" if "u \<noteq> t" for u
    using inv t that cli_lock_others(1) [of c t u] by (simp add: cli_inv_def)
  obtain r where seq: "seq = (cl_seq c)\<lparr>lcs_space := r\<rparr>" and ty: "cli_type_inv seq"
    and sp: "lu_seq_range_is_sane r" "seqs r \<subseteq> own \<union> ans_seqs ans" "seqs r \<inter> cl_taken ?c = {}"
    and ok: "rc = 0 \<longrightarrow> nr \<in> own \<union> ans_seqs ans \<and> nr \<notin> cl_taken c" "0 \<notin> own \<union> ans_seqs ans"
  proof -
    have z: "0 \<notin> own \<union> ans_seqs ans" using inv ans by (cases ans) (auto simp: cli_inv_def cli_seq_inv_def ans_ok_def)
    have sub: "cl_taken c \<subseteq> own" "seqs (lcs_space (cl_seq c)) \<subseteq> own" "seqs (lcs_space (cl_seq c)) \<inter> cl_taken c = {}"
      and sane: "lu_seq_range_is_sane (lcs_space (cl_seq c))"
      using inv by (auto simp: cli_inv_def cli_seq_inv_def)
    show ?thesis using a(2,1) ans
    proof (cases rule: alloc_seq_ans)
      case err then show ?thesis
        using sub sane z inv by (intro that [of "lcs_space (cl_seq c)"]) (auto simp: cli_inv_def)
    next
      case (err_space r) then show ?thesis
        using sub ans z inv by (intro that [of r]) (auto simp: cli_inv_def ans_ok_def cli_type_inv_def)
    next
      case (ok r)
      note f = range_take_first [OF ok(3,4)]
      have "seqs r \<subseteq> own \<union> ans_seqs ans" "seqs r \<inter> cl_taken c = {}"
        using ok(2) sub ans by (cases ans; auto simp: ans_ok_def)+
      then show ?thesis using f ok(1,5,6) z inv
        by (intro that [of "r\<lparr>lsr_start := lsr_start r + 1\<rparr>"]) (auto simp: cli_inv_def cli_type_inv_def)
    qed
  qed
  have "cli_lock_inv ?c" using inv t others by (auto simp: cli_inv_def cli_lock_inv_def seq)
  moreover have "cli_seq_inv (own \<union> ans_seqs ans) ?c"
    using inv sp ok by (auto simp: cli_inv_def cli_seq_inv_def seq)
  moreover have "cli_fid_inv ?c"
    using inv unfolding seq by (intro cli_fid_inv_space) (auto simp: cli_inv_def)
  moreover have "cli_got_inv ?c"
  proof -
    have "f_seq ` set (cl_fids c) \<subseteq> cl_taken c" "set (cl_whole c) \<subseteq> cl_taken c"
      "f_seq (lcs_fid (cl_seq c)) \<in> insert 0 (cl_taken c)"
      using inv unfolding cli_inv_def cli_fid_inv_def Let_def by simp_all
    moreover have "rc = 0 \<longrightarrow> nr \<notin> insert 0 (cl_taken c)" using ok by auto
    ultimately show ?thesis using others by (auto simp: cli_got_inv_def seq)
  qed
  ultimately show ?thesis using ty by (simp add: cli_inv_def)
qed

lemma cli_inv_fini:
  assumes inv: "cli_inv own c" and t: "cl_pc c t = Got w rc nr"
    and f: "seq_fid_alloc_fini (if rc \<noteq> 0 then 0 else nr) w (cl_seq c) = Some seq"
  shows "cli_inv own (c\<lparr>cl_seq := seq, cl_pc := (cl_pc c)(t := Idle),
            cl_fids := (if rc = 0 \<and> \<not> w then lcs_fid seq # cl_fids c else cl_fids c),
            cl_whole := (if rc = 0 \<and> w then nr # cl_whole c else cl_whole c)\<rparr>)" (is "cli_inv _ ?c")
proof -
  have idle: "cl_pc ?c u = Idle" for u
    using inv t cli_lock_others(1) [of c t u] by (simp add: cli_inv_def)
  have u: "lcs_update (cl_seq c) = 1"
    using inv t cli_lock_others(2) [of c t] by (simp add: cli_inv_def)
  show ?thesis
  proof (cases "rc = 0")
    case False
    then have "seq = (cl_seq c)\<lparr>lcs_update := 0\<rparr>" using f u by (simp add: seq_fid_alloc_fini_def)
    then show ?thesis
      using False idle by (intro cli_inv_cong [OF inv, of _ 0]) (simp_all add: cli_lock_inv_def)
  next
    case True
    let ?oid = "if w then (if lcs_type (cl_seq c) = LUSTRE_SEQ_METADATA then ucast LUSTRE_METADATA_SEQ_MAX_WIDTH
      else ucast LUSTRE_DATA_SEQ_MAX_WIDTH) else LUSTRE_FID_INIT_OID"
    have nr: "nr \<in> cl_taken c" "nr \<notin> f_seq ` set (cl_fids c)" "nr \<notin> set (cl_whole c)"
      and ty: "cli_type_inv (cl_seq c)" and own: "cl_taken c \<subseteq> own" "0 \<notin> own"
      using inv t True by (simp_all add: cli_inv_def cli_got_inv_def cli_seq_inv_def)
    then have "nr \<noteq> 0" and nf: "\<forall>f\<in>set (cl_fids c). f_seq f \<noteq> nr" by auto
    then have seq: "seq = (cl_seq c)\<lparr>lcs_fid := \<lparr>f_seq = nr, f_oid = ?oid, f_ver = 0\<rparr>, lcs_update := 0\<rparr>"
      using f True u by (simp add: seq_fid_alloc_fini_def Let_def)
    have oid: "?oid \<le> ucast (lcs_width (cl_seq c))" "w \<longrightarrow> ucast ?oid = lcs_width (cl_seq c)"
      using ty by (auto simp: cli_type_inv_def const_defs)
    have "cli_fid_inv ?c"
    proof (cases w)
      case False
      then have "lcs_fid seq \<notin> set (cl_fids c)" using nf by (auto simp: seq)
      then show ?thesis using inv nr \<open>nr \<noteq> 0\<close> nf oid True False
        unfolding cli_inv_def cli_fid_inv_def Let_def by (simp add: seq split del: if_split)
    next
      case w: True
      then show ?thesis using inv nr \<open>nr \<noteq> 0\<close> oid(1) mp [OF oid(2) w] True
        unfolding cli_inv_def cli_fid_inv_def Let_def by (simp add: seq split del: if_split) blast
    qed
    moreover have "cli_lock_inv ?c" using idle by (simp add: cli_lock_inv_def seq)
    moreover have "cli_got_inv ?c" using idle by (simp add: cli_got_inv_def)
    moreover have "cli_seq_inv own ?c" "cli_type_inv seq"
      using inv by (simp_all add: cli_inv_def cli_seq_inv_def cli_type_inv_def seq)
    ultimately show ?thesis by (simp add: cli_inv_def)
  qed
qed

lemma cli_inv_flush:
  assumes inv: "cli_inv own c" and f: "seq_client_flush (cl_seq c) = Some seq"
  shows "cli_inv own (c\<lparr>cl_seq := seq\<rparr>)" (is "cli_inv _ ?c")
proof -
  have seq: "seq = (cl_seq c)\<lparr>lcs_fid := fid_zero, lcs_space := lu_seq_range_init\<rparr>"
    using f by (auto simp: seq_client_flush_def split: if_splits)
  have z: "0 \<notin> cl_taken c" and t: "set (cl_whole c) \<subseteq> cl_taken c" "f_seq ` set (cl_fids c) \<subseteq> cl_taken c"
    using inv by (auto simp: cli_inv_def cli_seq_inv_def cli_fid_inv_def Let_def)
  have "cli_fid_inv ?c"
    using inv z t by (auto simp: cli_inv_def cli_fid_inv_def Let_def seq bump_None fid_zero_def fid_is_zero_def)
  moreover have "cli_got_inv ?c"
    using inv z by (auto simp: cli_inv_def cli_got_inv_def seq fid_zero_def)
  moreover have "cli_lock_inv ?c" "cli_seq_inv own ?c" "cli_type_inv seq"
    using inv by (simp_all add: cli_inv_def cli_lock_inv_def cli_seq_inv_def cli_type_inv_def seq)
  ultimately show ?thesis by (simp add: cli_inv_def)
qed

lemma cli_inv_step:
  assumes "cli_step ans c c'" "cli_inv own c" "ans_ok own ans"
  shows "cli_inv (own \<union> ans_seqs ans) c'"
  using assms
proof (cases rule: cli_step.cases)
  case (fid_bump t fail seq)
  let ?c = "c\<lparr>cl_seq := seq_client_exhaust fail (cl_seq c)\<rparr>"
  have "cli_inv own ?c" using assms(2) by (rule cli_inv_exhaust) simp_all
  then show ?thesis using cli_inv_bump [of own ?c seq] fid_bump by simp
next
  case (fid_prep t fail rc seq)
  let ?c = "c\<lparr>cl_seq := seq_client_exhaust fail (cl_seq c)\<rparr>"
  have "cli_inv own ?c" using assms(2) by (rule cli_inv_exhaust) simp_all
  then show ?thesis using cli_inv_prep [of own ?c t rc seq False] fid_prep by simp
next
  case (whole_prep t rc seq)
  then show ?thesis using cli_inv_prep [OF assms(2)] by simp
next
  case (alloc t w direct rpcs rc nr seq)
  then show ?thesis using cli_inv_alloc [OF assms(2) _ assms(3)] by simp
next
  case (fini t w rc nr seq)
  then show ?thesis using cli_inv_fini [OF assms(2)] by simp
next
  case (flush seq)
  then show ?thesis using cli_inv_flush [OF assms(2)] by simp
qed

end
