(* ===== verification/Seq_Server.thy ===== *)
theory Seq_Server
  imports Seq_Client
begin

text \<open>
  The sequence server and controller (\<open>lustre/fid/fid_handler.c\<close>) and their backing store
  (\<open>lustre/fid/fid_store.c\<close>). The store is a file on a transactional device: the range that is
  durable, the transactions written and not yet committed (each with the flag of carrying the
  commit callback \<open>seq_update_cb\<close>), and the number of callbacks of committed transactions that
  have not run yet. A transaction that is stopped with \<open>th_sync\<close> is committed with everything
  before it. What the storage stack and the memory allocator answer is the argument \<open>io\<close>;
  ranges are stored little-endian and converted back on reading, so the model keeps the range.
\<close>

datatype lu_mgr_type = LUSTRE_SEQ_SERVER | LUSTRE_SEQ_CONTROLLER

record lu_server_seq =
  lss_space :: lu_seq_range
  lss_lowater_set :: lu_seq_range
  lss_hiwater_set :: lu_seq_range
  lss_type :: lu_mgr_type
  lss_cli :: "lu_client_seq option"
  lss_width :: u64
  lss_set_width :: u64
  lss_need_sync :: u32
  lss_node_id :: u32

definition LUSTRE_SEQ_META_WIDTH :: u64 where [const_defs]: "LUSTRE_SEQ_META_WIDTH = 1"
definition LUSTRE_SEQ_BATCH_WIDTH :: u64 where [const_defs]: "LUSTRE_SEQ_BATCH_WIDTH = 1000"
definition LUSTRE_SEQ_SUPER_WIDTH :: u64 where [const_defs]: "LUSTRE_SEQ_SUPER_WIDTH = 0x40000000"

definition LUSTRE_SEQ_SPACE_RANGE :: lu_seq_range where
  "LUSTRE_SEQ_SPACE_RANGE = \<lparr>lsr_start = FID_SEQ_NORMAL, lsr_end = 0xFFFFFFFFFFFFFFFF, lsr_index = 0, lsr_flags = 0\<rparr>"

definition LUSTRE_SEQ_ZERO_RANGE :: lu_seq_range where
  "LUSTRE_SEQ_ZERO_RANGE = \<lparr>lsr_start = 0, lsr_end = 0, lsr_index = 0, lsr_flags = 0\<rparr>"

section \<open>The store\<close>

record seq_disk =
  sd_durable :: "lu_seq_range option"
  sd_journal :: "(lu_seq_range \<times> bool) list"
  sd_cbs :: nat

record seq_io =
  io_rdonly :: bool
  io_create :: int
  io_declare :: int
  io_fld_declare :: int
  io_start :: int
  io_write :: int
  io_fld_create :: int
  io_cb_alloc :: bool
  io_cb_add :: int

text \<open>Commit of the oldest transaction, and of all of them.\<close>

definition commit_one :: "seq_disk \<Rightarrow> seq_disk" where
  "commit_one d = (case sd_journal d of
       [] \<Rightarrow> d
     | (r, cb) # js \<Rightarrow> \<lparr>sd_durable = Some r, sd_journal = js, sd_cbs = sd_cbs d + (if cb then 1 else 0)\<rparr>)"

definition commit_all :: "seq_disk \<Rightarrow> seq_disk" where
  "commit_all d = (commit_one ^^ length (sd_journal d)) d"

text \<open>\<open>dt_trans_stop\<close> of a transaction that wrote the record \<open>r\<close>.\<close>

definition trans_stop :: "lu_seq_range \<Rightarrow> bool \<Rightarrow> bool \<Rightarrow> seq_disk \<Rightarrow> seq_disk" where
  "trans_stop r cb sync d =
     (let d = d\<lparr>sd_journal := sd_journal d @ [(r, cb)]\<rparr> in if sync then commit_all d else d)"

text \<open>The file as the running system reads it, and what a power failure leaves.\<close>

definition seq_file :: "seq_disk \<Rightarrow> lu_seq_range option" where
  "seq_file d = (if sd_journal d = [] then sd_durable d else Some (fst (last (sd_journal d))))"

definition disk_crash :: "seq_disk \<Rightarrow> seq_disk" where
  "disk_crash d = d\<lparr>sd_journal := [], sd_cbs := 0\<rparr>"

definition seq_update_cb :: "lu_server_seq \<Rightarrow> lu_server_seq" where
  "seq_update_cb seq = seq\<lparr>lss_need_sync := 0\<rparr>"

definition seq_update_cb_add :: "seq_io \<Rightarrow> lu_server_seq \<Rightarrow> int \<times> lu_server_seq" where
  "seq_update_cb_add io seq =
     (if \<not> io_cb_alloc io then (- ENOMEM, seq)
      else (io_cb_add io, seq\<lparr>lss_need_sync := 1\<rparr>))"

text \<open>\<open>out\<close> tells whether the call also enters a range into the FLD.\<close>

definition seq_store_update ::
  "seq_io \<Rightarrow> bool \<Rightarrow> bool \<Rightarrow> lu_server_seq \<Rightarrow> seq_disk \<Rightarrow> int \<times> lu_server_seq \<times> seq_disk" where
  "seq_store_update io out sync seq d =
     (if io_rdonly io then (0, seq, d)
      else if io_create io \<noteq> 0 then (io_create io, seq, d)
      else if io_declare io \<noteq> 0 then (io_declare io, seq, d)
      else if out \<and> io_fld_declare io \<noteq> 0 then (io_fld_declare io, seq, d)
      else if io_start io \<noteq> 0 then (io_start io, seq, d)
      else if io_write io \<noteq> 0 then (io_write io, seq, d)
      else if out \<and> io_fld_create io \<noteq> 0
        then (io_fld_create io, seq, trans_stop (lss_space seq) False False d)
      else if sync then (0, seq, trans_stop (lss_space seq) False True d)
      else (case seq_update_cb_add io seq of (rc, seq') \<Rightarrow>
              (0, seq', trans_stop (lss_space seq) (rc = 0) (rc \<noteq> 0) d)))"

text \<open>\<open>rd\<close> is what \<open>dt_read\<close> returns, \<open>content\<close> what it put into the buffer;
  a range takes 24 bytes.\<close>

definition seq_store_read :: "int \<Rightarrow> lu_seq_range \<Rightarrow> lu_server_seq \<Rightarrow> int \<times> lu_server_seq" where
  "seq_store_read rd content seq =
     (if rd = 24 then (0, seq\<lparr>lss_space := content\<rparr>)
      else if rd = 0 then (- ENODATA, seq)
      else if rd > 0 then (- EIO, seq)
      else (rd, seq))"

section \<open>The controller\<close>

definition seq_server_set_cli :: "lu_client_seq option \<Rightarrow> lu_server_seq \<Rightarrow> int \<times> lu_server_seq" where
  "seq_server_set_cli cli seq =
     (case cli of
        None \<Rightarrow> (0, seq\<lparr>lss_cli := None\<rparr>)
      | Some c \<Rightarrow>
          if lss_cli seq \<noteq> None then (- EEXIST, seq)
          else (0, seq\<lparr>lss_cli := Some (c\<lparr>lcs_space := (lcs_space c)\<lparr>lsr_index := lss_node_id seq\<rparr>\<rparr>)\<rparr>))"

definition seq_server_alloc_super ::
  "seq_io \<Rightarrow> lu_seq_range \<Rightarrow> lu_server_seq \<Rightarrow> seq_disk \<Rightarrow> (int \<times> lu_seq_range \<times> lu_server_seq \<times> seq_disk) option" where
  "seq_server_alloc_super io out seq d = do {
     LASSERT (lu_seq_range_is_sane (lss_space seq));
     if lu_seq_range_is_exhausted (lss_space seq) then Some (- ENOSPC, out, seq, d)
     else let (out, space) = range_alloc out (lss_space seq) (lss_width seq);
              (rc, seq, d) = seq_store_update io True True (seq\<lparr>lss_space := space\<rparr>) d
          in Some (rc, out, seq, d) }"

definition seq_server_alloc_spec ::
  "seq_io \<Rightarrow> lu_seq_range \<Rightarrow> lu_server_seq \<Rightarrow> seq_disk \<Rightarrow> int \<times> lu_server_seq \<times> seq_disk" where
  "seq_server_alloc_spec io spec seq d =
     (if lsr_start spec \<ge> lsr_end spec then (- EINVAL, seq, d)
      else if lsr_flags spec \<noteq> LU_SEQ_RANGE_MDT \<and> lsr_flags spec \<noteq> LU_SEQ_RANGE_OST then (- EINVAL, seq, d)
      else if lsr_start spec \<ge> lsr_start (lss_space seq)
        then seq_store_update io True True (seq\<lparr>lss_space := (lss_space seq)\<lparr>lsr_start := lsr_end spec\<rparr>\<rparr>) d
      else (- ENOSPC, seq, d))"

section \<open>The metadata server\<close>

definition seq_set_init ::
  "seq_io \<Rightarrow> lu_server_seq \<Rightarrow> seq_disk \<Rightarrow> int \<times> lu_server_seq \<times> seq_disk" where
  "seq_set_init io seq d =
     (let (lo, space) = range_alloc (lss_lowater_set seq) (lss_space seq) (lss_set_width seq);
          (hi, space) = range_alloc (lss_hiwater_set seq) space (lss_set_width seq)
      in seq_store_update io False True
           (seq\<lparr>lss_space := space, lss_lowater_set := lo, lss_hiwater_set := hi\<rparr>) d)"

text \<open>The switch to the high-water set when the low-water one is used up;
  \<open>nclients\<close> is \<open>obd_num_exports\<close>.\<close>

definition range_switch_set ::
  "seq_io \<Rightarrow> int \<Rightarrow> lu_server_seq \<Rightarrow> seq_disk \<Rightarrow> int \<times> lu_server_seq \<times> seq_disk" where
  "range_switch_set io nclients seq d =
     (let set_sz = max (lss_set_width seq) (word_of_int nclients * lss_width seq);
          set_sz = min (lu_seq_range_space (lss_space seq)) set_sz;
          seq = seq\<lparr>lss_lowater_set := lss_hiwater_set seq\<rparr>;
          (hi, space) = range_alloc (lss_hiwater_set seq) (lss_space seq) set_sz
      in seq_store_update io False (lss_need_sync seq \<noteq> 0)
           (seq\<lparr>lss_space := space, lss_hiwater_set := hi\<rparr>) d)"

text \<open>\<open>obd_fail\<close> is the fault injection \<open>OBD_FAIL_SEQ_ALLOC\<close>; the two store updates have
  outcomes of their own. The return code of \<open>__seq_set_init\<close> is dropped, as in the code.\<close>

definition range_alloc_set ::
  "seq_io \<Rightarrow> seq_io \<Rightarrow> bool \<Rightarrow> int \<Rightarrow> lu_seq_range \<Rightarrow> lu_server_seq \<Rightarrow> seq_disk
   \<Rightarrow> (int \<times> lu_seq_range \<times> lu_server_seq \<times> seq_disk) option" where
  "range_alloc_set io1 io2 obd_fail nclients out seq d =
     (let (seq, d) = (if lu_seq_range_is_zero (lss_lowater_set seq) then snd (seq_set_init io1 seq d) else (seq, d));
          lo = lss_lowater_set seq;
          seq = (if obd_fail then seq\<lparr>lss_lowater_set := lo\<lparr>lsr_start := lsr_end lo\<rparr>\<rparr> else seq);
          (rc, seq, d) = (if lu_seq_range_is_exhausted (lss_lowater_set seq)
                          then range_switch_set io2 nclients seq d else (0, seq, d));
          lo = lss_lowater_set seq
      in do {
        LASSERT (\<not> lu_seq_range_is_exhausted lo \<or> lu_seq_range_is_sane lo);
        Some (if rc = 0 then let (out, lo) = range_alloc out lo (lss_width seq)
                             in (0, out, seq\<lparr>lss_lowater_set := lo\<rparr>, d)
              else (rc, out, seq, d)) })"

text \<open>\<open>direct\<close> and \<open>rpc\<close> are the controller's answers, \<open>fld_rc\<close> the result of
  \<open>fld_insert_entry\<close>.\<close>

definition seq_server_check_and_alloc_super ::
  "seq_io \<Rightarrow> int \<times> lu_seq_range \<Rightarrow> seq_rpc \<Rightarrow> int \<Rightarrow> lu_server_seq \<Rightarrow> seq_disk
   \<Rightarrow> (int \<times> lu_server_seq \<times> seq_disk) option" where
  "seq_server_check_and_alloc_super io direct rpc fld_rc seq d = do {
     (early, rc, seq) \<leftarrow>
       (if lu_seq_range_is_exhausted (lss_space seq) then
          (case lss_cli seq of
             None \<Rightarrow> Some (True, - ENODEV, seq)
           | Some cli \<Rightarrow> do {
               (rc, cli) \<leftarrow> seq_client_alloc_super direct rpc cli;
               let seq = seq\<lparr>lss_cli := Some cli\<rparr>;
               if rc \<noteq> 0 then Some (True, rc, seq)
               else do {
                 LASSERT (lu_seq_range_is_sane (lcs_space cli));
                 Some (False, (if lcs_srv cli then 0 else fld_rc), seq\<lparr>lss_space := lcs_space cli\<rparr>) } })
        else Some (False, 0, seq));
     if early then Some (rc, seq, d)
     else let (seq, d) = (if lu_seq_range_is_zero (lss_lowater_set seq) then snd (seq_set_init io seq d) else (seq, d))
          in Some (rc, seq, d) }"

definition seq_server_alloc_meta ::
  "seq_io \<Rightarrow> seq_io \<Rightarrow> seq_io \<Rightarrow> int \<times> lu_seq_range \<Rightarrow> seq_rpc \<Rightarrow> int \<Rightarrow> bool \<Rightarrow> int
   \<Rightarrow> lu_seq_range \<Rightarrow> lu_server_seq \<Rightarrow> seq_disk \<Rightarrow> (int \<times> lu_seq_range \<times> lu_server_seq \<times> seq_disk) option" where
  "seq_server_alloc_meta io0 io1 io2 direct rpc fld_rc obd_fail nclients out seq d = do {
     LASSERT (lu_seq_range_is_sane (lss_space seq));
     (rc, seq, d) \<leftarrow> seq_server_check_and_alloc_super io0 direct rpc fld_rc seq d;
     if rc < 0 then Some (rc, out, seq, d)
     else range_alloc_set io1 io2 obd_fail nclients out seq d }"

text \<open>The request handler; a site may have a server, a controller, or both. The range of the
  reply starts out zero with the index and type of the request.\<close>

record seq_site =
  ss_server_seq :: "(lu_server_seq \<times> seq_disk) option"
  ss_control_seq :: "(lu_server_seq \<times> seq_disk) option"

definition seq_server_handle ::
  "(lu_seq_range \<Rightarrow> lu_server_seq \<Rightarrow> seq_disk \<Rightarrow> (int \<times> lu_seq_range \<times> lu_server_seq \<times> seq_disk) option)
   \<Rightarrow> (lu_seq_range \<Rightarrow> lu_server_seq \<Rightarrow> seq_disk \<Rightarrow> (int \<times> lu_seq_range \<times> lu_server_seq \<times> seq_disk) option)
   \<Rightarrow> bool \<Rightarrow> u32 \<Rightarrow> lu_seq_range \<Rightarrow> seq_site \<Rightarrow> (int \<times> lu_seq_range \<times> seq_site) option" where
  "seq_server_handle alloc_meta alloc_super rdonly opc out site =
     (if opc = SEQ_ALLOC_META then
        (case ss_server_seq site of
           None \<Rightarrow> Some (- EINVAL, out, site)
         | Some (seq, d) \<Rightarrow>
             if rdonly then Some (- EROFS, out, site)
             else do { (rc, out, seq, d) \<leftarrow> alloc_meta out seq d;
                       Some (rc, out, site\<lparr>ss_server_seq := Some (seq, d)\<rparr>) })
      else if opc = SEQ_ALLOC_SUPER then
        (case ss_control_seq site of
           None \<Rightarrow> Some (- EINVAL, out, site)
         | Some (seq, d) \<Rightarrow>
             if rdonly then Some (- EROFS, out, site)
             else do { (rc, out, seq, d) \<leftarrow> alloc_super out seq d;
                       Some (rc, out, site\<lparr>ss_control_seq := Some (seq, d)\<rparr>) })
      else Some (- EINVAL, out, site))"

text \<open>The request handler: \<open>opc\<close> and \<open>tmp\<close> are the operation and the range of the
  request, \<open>out\<close> the range of the reply buffer.\<close>

definition seq_handler ::
  "(lu_seq_range \<Rightarrow> lu_server_seq \<Rightarrow> seq_disk \<Rightarrow> (int \<times> lu_seq_range \<times> lu_server_seq \<times> seq_disk) option)
   \<Rightarrow> (lu_seq_range \<Rightarrow> lu_server_seq \<Rightarrow> seq_disk \<Rightarrow> (int \<times> lu_seq_range \<times> lu_server_seq \<times> seq_disk) option)
   \<Rightarrow> bool \<Rightarrow> u32 option \<Rightarrow> lu_seq_range option \<Rightarrow> lu_seq_range \<Rightarrow> seq_site
   \<Rightarrow> (int \<times> lu_seq_range option \<times> seq_site) option" where
  "seq_handler alloc_meta alloc_super rdonly opc out tmp site =
     (case opc of
        Some opc \<Rightarrow>
          (case out of
             None \<Rightarrow> do { rc \<leftarrow> err_serious (- EPROTO); Some (rc, None, site) }
           | Some out \<Rightarrow> do {
               let out = out\<lparr>lsr_index := lsr_index tmp, lsr_flags := lsr_flags tmp\<rparr>;
               (rc, out, site) \<leftarrow> seq_server_handle alloc_meta alloc_super rdonly opc out site;
               Some (rc, Some out, site) })
      | None \<Rightarrow> do { rc \<leftarrow> err_serious (- EPROTO); Some (rc, out, site) })"

text \<open>\<open>store_rc\<close> is the result of \<open>seq_store_init\<close> and \<open>dbg_rc\<close> that of
  \<open>seq_server_debugfs_init\<close>.\<close>

definition seq_server_init ::
  "seq_io \<Rightarrow> lu_mgr_type \<Rightarrow> u32 \<Rightarrow> int \<Rightarrow> int \<Rightarrow> lu_seq_range \<Rightarrow> int \<Rightarrow> lu_server_seq \<Rightarrow> seq_disk
   \<Rightarrow> (int \<times> lu_server_seq \<times> seq_disk) option" where
  "seq_server_init io type node store_rc rd content dbg_rc seq d =
     (let is_srv = (type = LUSTRE_SEQ_SERVER);
          seq = seq\<lparr>lss_cli := None, lss_type := type, lss_node_id := node,
                    lss_space := lu_seq_range_init, lss_lowater_set := lu_seq_range_init,
                    lss_hiwater_set := lu_seq_range_init, lss_set_width := LUSTRE_SEQ_BATCH_WIDTH,
                    lss_width := (if is_srv then LUSTRE_SEQ_META_WIDTH else LUSTRE_SEQ_SUPER_WIDTH)\<rparr>
      in if store_rc \<noteq> 0 then Some (store_rc, seq, d)
         else let (rc, seq) = seq_store_read rd content seq
         in if rc \<noteq> - ENODATA \<and> rc \<noteq> 0 then Some (rc, seq, d)
            else let (seq, d) =
                   (if rc = - ENODATA then
                      let seq = seq\<lparr>lss_space := (if is_srv then LUSTRE_SEQ_ZERO_RANGE
                                                  else LUSTRE_SEQ_SPACE_RANGE)\<lparr>lsr_index := node\<rparr>\<rparr>
                      in snd (seq_store_update io False False seq d)
                    else (seq, d))
            in do {
              LASSERT (lu_seq_range_is_sane (lss_space seq));
              LASSERT (is_srv \<or> \<not> lu_seq_range_is_zero (lss_space seq));
              Some (dbg_rc, seq, d) })"

section \<open>Facts on the store\<close>

lemma commit_all_eq:
  "commit_all d = (if sd_journal d = [] then d
     else \<lparr>sd_durable = Some (fst (last (sd_journal d))), sd_journal = [],
           sd_cbs = sd_cbs d + length (filter snd (sd_journal d))\<rparr>)"
proof -
  have "(commit_one ^^ length js) \<lparr>sd_durable = du, sd_journal = js, sd_cbs = n\<rparr> =
      \<lparr>sd_durable = (if js = [] then du else Some (fst (last js))), sd_journal = [],
       sd_cbs = n + length (filter snd js)\<rparr>" for js du n
  proof (induction js arbitrary: du n)
    case (Cons j js)
    obtain r cb where j: "j = (r, cb)" by (cases j)
    have "(commit_one ^^ length (j # js)) \<lparr>sd_durable = du, sd_journal = j # js, sd_cbs = n\<rparr> =
      (commit_one ^^ length js) \<lparr>sd_durable = Some r, sd_journal = js, sd_cbs = n + (if cb then 1 else 0)\<rparr>"
      by (simp add: funpow_swap1 commit_one_def j)
    then show ?case using Cons.IH by (simp add: j)
  qed simp
  from this [of "sd_journal d" "sd_durable d" "sd_cbs d"] show ?thesis
    by (cases d) (simp add: commit_all_def)
qed

lemma trans_stop_sync [simp]:
  "trans_stop r cb True d = \<lparr>sd_durable = Some r, sd_journal = [],
     sd_cbs = sd_cbs d + length (filter snd (sd_journal d)) + (if cb then 1 else 0)\<rparr>"
  by (simp add: trans_stop_def commit_all_eq)

lemma trans_stop_async [simp]:
  "trans_stop r cb False d = d\<lparr>sd_journal := sd_journal d @ [(r, cb)]\<rparr>"
  by (simp add: trans_stop_def)

text \<open>The ranges that may be on disk after a power failure, now or after further commits.\<close>

definition seq_files :: "seq_disk \<Rightarrow> lu_seq_range set" where
  "seq_files d = (case sd_durable d of None \<Rightarrow> {} | Some r \<Rightarrow> {r}) \<union> fst ` set (sd_journal d)"

lemma seq_files_simps [simp]:
  "seq_files \<lparr>sd_durable = Some r, sd_journal = [], sd_cbs = n\<rparr> = {r}"
  "seq_files (d\<lparr>sd_journal := sd_journal d @ [(r, cb)]\<rparr>) = insert r (seq_files d)"
  "seq_files (d\<lparr>sd_cbs := n\<rparr>) = seq_files d"
  by (auto simp: seq_files_def)

lemma seq_files_commit_one: "seq_files (commit_one d) \<subseteq> seq_files d"
  by (auto simp: seq_files_def commit_one_def split: list.splits option.splits)

lemma seq_files_crash: "seq_files (disk_crash d) \<subseteq> seq_files d"
  by (auto simp: seq_files_def disk_crash_def)

lemma seq_file_in: "seq_file d = Some r \<Longrightarrow> r \<in> seq_files d"
  by (auto simp: seq_file_def seq_files_def image_iff split: if_splits intro!: bexI [of _ "last (sd_journal d)"])

text \<open>A store update changes at most \<open>lss_need_sync\<close> of the server.\<close>

lemma seq_store_update_frame:
  assumes "seq_store_update io out sync seq d = (rc, seq', d')"
  shows "\<exists>n. seq' = seq\<lparr>lss_need_sync := n\<rparr>" "sync \<Longrightarrow> seq' = seq"
  using assms by (auto simp: seq_store_update_def seq_update_cb_add_def split: if_splits intro: exI [of _ "lss_need_sync seq"])

definition io_ok :: "seq_io \<Rightarrow> bool" where
  "io_ok io \<longleftrightarrow> \<not> io_rdonly io \<and> io_create io = 0 \<and> io_declare io = 0 \<and> io_start io = 0 \<and> io_write io = 0"

lemma seq_store_update_ok:
  assumes "io_ok io"
  shows "seq_store_update io False True seq d = (0, seq, trans_stop (lss_space seq) False True d)"
    and "seq_store_update io False False seq d =
           (if io_cb_alloc io \<and> io_cb_add io = 0
            then (0, seq\<lparr>lss_need_sync := 1\<rparr>, trans_stop (lss_space seq) True False d)
            else (0, if io_cb_alloc io then seq\<lparr>lss_need_sync := 1\<rparr> else seq, trans_stop (lss_space seq) False True d))"
  using assms by (simp_all add: seq_store_update_def seq_update_cb_add_def io_ok_def errno_defs)

section \<open>Requests\<close>

lemma alloc_super_id:
  assumes "seq_server_alloc_super io out seq d = Some (rc, out', seq', d')"
  shows "lsr_index out' = lsr_index out \<and> lsr_flags out' = lsr_flags out"
  using assms by (auto simp: seq_server_alloc_super_def range_alloc_def Let_def split: if_splits prod.splits)

lemma range_alloc_set_id:
  assumes "range_alloc_set io1 io2 obd_fail n out seq d = Some (rc, out', seq', d')"
  shows "lsr_index out' = lsr_index out \<and> lsr_flags out' = lsr_flags out"
  using assms by (auto simp: range_alloc_set_def Let_def range_alloc_def split: if_splits prod.splits)

lemma alloc_meta_id:
  assumes "seq_server_alloc_meta io0 io1 io2 direct rpc fld_rc obd_fail n out seq d = Some (rc, out', seq', d')"
  shows "lsr_index out' = lsr_index out \<and> lsr_flags out' = lsr_flags out"
  using assms by (auto simp: seq_server_alloc_meta_def split: if_splits Option.bind_splits dest: range_alloc_set_id)

lemma server_handle_id:
  assumes "seq_server_handle (seq_server_alloc_meta io0 io1 io2 direct rpc fld_rc obd_fail n) (seq_server_alloc_super io)
             rdonly opc out site = Some (rc, out', site')"
  shows "lsr_index out' = lsr_index out \<and> lsr_flags out' = lsr_flags out"
proof -
  have "out' = out \<or> (\<exists>seq d rc seq' d'. seq_server_alloc_meta io0 io1 io2 direct rpc fld_rc obd_fail n out seq d
      = Some (rc, out', seq', d')) \<or> (\<exists>seq d rc seq' d'. seq_server_alloc_super io out seq d = Some (rc, out', seq', d'))"
    using assms unfolding seq_server_handle_def
    by (auto split: if_splits option.splits Option.bind_splits) blast
  then show ?thesis by (elim disjE exE) (auto dest: alloc_meta_id alloc_super_id)
qed

text \<open>
  C24. Whatever a request of a client is answered with, the range of the reply carries the index and
  the type (metadata or data) of that client.
\<close>

theorem handler_keeps_client_id:
  assumes "seq_handler (seq_server_alloc_meta io0 io1 io2 direct rpc fld_rc obd_fail n) (seq_server_alloc_super io)
             rdonly (Some opc) (Some lu_seq_range_init) (seq_rpc_in cli) site = Some (rc, Some out, site')"
  shows "lsr_index out = lsr_index (lcs_space cli) \<and>
         (if lcs_type cli = LUSTRE_SEQ_METADATA then fld_range_is_mdt out else fld_range_is_ost out)"
proof -
  have "lsr_index out = lsr_index (seq_rpc_in cli) \<and> lsr_flags out = lsr_flags (seq_rpc_in cli)"
    using assms server_handle_id by (fastforce simp: seq_handler_def Let_def split: Option.bind_splits)
  then show ?thesis
    by (auto simp: seq_rpc_in_def Let_def fld_range_is_mdt_def fld_range_is_ost_def fld_range_type_def
        fld_range_set_mdt_def fld_range_set_ost_def fld_range_set_type_def lu_seq_range_init_def const_defs)
qed

end
