(* ===== verification/Seq_Safety.thy ===== *)
theory Seq_Safety
  imports Seq_Server
begin

text \<open>
  Sequences are never handed out twice, across commits that lag behind and power failures. Two
  machines run the operations of the metadata server and of the controller together with their
  disk; the interface \<open>seq_source\<close> says what a stage of the hierarchy promises to the next one
  (every range handed out is sane, does not contain zero and is disjoint from all earlier ones),
  and is used to stack controller, metadata servers and clients.
\<close>


section \<open>The metadata server across power failures\<close>

record srv =
  sv_seq :: lu_server_seq
  sv_disk :: seq_disk
  sv_issued :: "u64 set"

text \<open>What the controller answers: it hands out \<open>r\<close>, or nothing.\<close>

fun srv_answer :: "lu_seq_range option \<Rightarrow> lu_server_seq \<Rightarrow> int \<times> lu_seq_range \<Rightarrow> seq_rpc \<Rightarrow> bool" where
  "srv_answer (Some r) seq direct rpc \<longleftrightarrow>
     lu_seq_range_is_exhausted (lss_space seq) \<and> direct = (0, r) \<and> (\<forall>r'. rpc = Rpc_reply 0 r' \<longrightarrow> r' = r)"
| "srv_answer None seq direct rpc \<longleftrightarrow> fst direct \<noteq> 0 \<and> (\<forall>r'. rpc \<noteq> Rpc_reply 0 r')"

text \<open>A restart: the server structure is zeroed and initialised from what is on disk.\<close>

definition seq_restart :: "seq_io \<Rightarrow> lu_mgr_type \<Rightarrow> u32 \<Rightarrow> lu_server_seq \<Rightarrow> seq_disk \<Rightarrow> (int \<times> lu_server_seq \<times> seq_disk) option" where
  "seq_restart io type node seq d =
     (let d = disk_crash d in
      case seq_file d of
        None \<Rightarrow> seq_server_init io type node 0 0 lu_seq_range_init 0 (seq\<lparr>lss_need_sync := 0\<rparr>) d
      | Some r \<Rightarrow> seq_server_init io type node 0 24 r 0 (seq\<lparr>lss_need_sync := 0\<rparr>) d)"

text \<open>\<open>ok\<close> says which outcomes of its storage operations the server may meet: \<open>io_ok\<close>
  those in which every store succeeds. The next argument is the super-sequence the step receives, the last the
  meta-sequence it hands out.\<close>

inductive srv_step :: "(seq_io \<Rightarrow> bool) \<Rightarrow> lu_seq_range option \<Rightarrow> lu_seq_range option \<Rightarrow> srv \<Rightarrow> srv \<Rightarrow> bool"
  for ok where
  meta:
    "\<lbrakk>ok io0; ok io1; ok io2; srv_answer given (sv_seq s) direct rpc;
      seq_server_alloc_meta io0 io1 io2 direct rpc fld_rc obd_fail nclients out (sv_seq s) (sv_disk s)
        = Some (rc, out', seq', d')\<rbrakk> \<Longrightarrow>
     srv_step ok given (if rc = 0 then Some out' else None) s
       \<lparr>sv_seq = seq', sv_disk = d', sv_issued = sv_issued s \<union> (if rc = 0 then seqs out' else {})\<rparr>"
| commit:
    "srv_step ok None None s (s\<lparr>sv_disk := commit_one (sv_disk s)\<rparr>)"
| callback:
    "0 < sd_cbs (sv_disk s) \<Longrightarrow>
     srv_step ok None None s
       (s\<lparr>sv_seq := seq_update_cb (sv_seq s), sv_disk := (sv_disk s)\<lparr>sd_cbs := sd_cbs (sv_disk s) - 1\<rparr>\<rparr>)"
| set_cli:
    "seq_server_set_cli cli (sv_seq s) = (rc, seq') \<Longrightarrow> srv_step ok None None s (s\<lparr>sv_seq := seq'\<rparr>)"
| restart:
    "\<lbrakk>ok io; seq_restart io LUSTRE_SEQ_SERVER node (sv_seq s) (sv_disk s) = Some (0, seq', d')\<rbrakk> \<Longrightarrow>
     srv_step ok None None s (s\<lparr>sv_seq := seq', sv_disk := d'\<rparr>)"

text \<open>The sequences in memory and on disk stay apart from those handed out, the low-water set is
  never on disk, and the high-water set only while a write is in flight.\<close>

definition srv_mem_inv :: "u64 set \<Rightarrow> lu_server_seq \<Rightarrow> u64 set \<Rightarrow> bool" where
  "srv_mem_inv own seq issued \<longleftrightarrow>
     lu_seq_range_is_sane (lss_space seq) \<and> lu_seq_range_is_sane (lss_lowater_set seq) \<and>
     lu_seq_range_is_sane (lss_hiwater_set seq) \<and>
     0 \<notin> own \<and> issued \<subseteq> own \<and> seqs (lss_space seq) \<subseteq> own \<and> seqs (lss_lowater_set seq) \<subseteq> own \<and>
     seqs (lss_hiwater_set seq) \<subseteq> own \<and>
     seqs (lss_space seq) \<inter> seqs (lss_lowater_set seq) = {} \<and>
     seqs (lss_space seq) \<inter> seqs (lss_hiwater_set seq) = {} \<and>
     seqs (lss_lowater_set seq) \<inter> seqs (lss_hiwater_set seq) = {} \<and>
     issued \<inter> (seqs (lss_space seq) \<union> seqs (lss_lowater_set seq) \<union> seqs (lss_hiwater_set seq)) = {}"

definition srv_disk_inv :: "u64 set \<Rightarrow> lu_server_seq \<Rightarrow> seq_disk \<Rightarrow> u64 set \<Rightarrow> bool" where
  "srv_disk_inv own seq d issued \<longleftrightarrow>
     (\<forall>f\<in>seq_files d. lu_seq_range_is_sane f \<and> seqs f \<subseteq> own \<and>
        seqs f \<inter> (issued \<union> seqs (lss_lowater_set seq)) = {}) \<and>
     (\<forall>f. seq_file d = Some f \<longrightarrow> seqs f \<inter> seqs (lss_hiwater_set seq) = {})"

definition srv_sync_inv :: "lu_server_seq \<Rightarrow> seq_disk \<Rightarrow> bool" where
  "srv_sync_inv seq d \<longleftrightarrow>
     (lss_need_sync seq = 0 \<longrightarrow> sd_journal d = [] \<and> sd_cbs d = 0) \<and> sd_cbs d \<le> 1 \<and>
     (sd_journal d = [] \<or> (\<exists>f. sd_journal d = [(f, True)] \<and> sd_cbs d = 0))"

definition seq_inv :: "u64 set \<Rightarrow> u64 set \<Rightarrow> lu_server_seq \<Rightarrow> seq_disk \<Rightarrow> bool" where
  "seq_inv own issued seq d \<longleftrightarrow>
     srv_mem_inv own seq issued \<and> srv_disk_inv own seq d issued \<and> srv_sync_inv seq d"

definition srv_inv :: "u64 set \<Rightarrow> srv \<Rightarrow> bool" where
  "srv_inv own s \<longleftrightarrow> seq_inv own (sv_issued s) (sv_seq s) (sv_disk s)"

lemma srv_mem_inv_frame [simp]:
  "srv_mem_inv own (seq\<lparr>lss_need_sync := n\<rparr>) issued = srv_mem_inv own seq issued"
  "srv_mem_inv own (seq\<lparr>lss_cli := cl\<rparr>) issued = srv_mem_inv own seq issued"
  "srv_disk_inv own (seq\<lparr>lss_need_sync := n\<rparr>) d issued = srv_disk_inv own seq d issued"
  "srv_disk_inv own (seq\<lparr>lss_cli := cl\<rparr>) d issued = srv_disk_inv own seq d issued"
  "srv_disk_inv own (seq\<lparr>lss_space := sp\<rparr>) d issued = srv_disk_inv own seq d issued"
  "srv_sync_inv (seq\<lparr>lss_cli := cl\<rparr>) d = srv_sync_inv seq d"
  "srv_sync_inv (seq\<lparr>lss_space := sp\<rparr>) d = srv_sync_inv seq d"
  by (simp_all add: srv_mem_inv_def srv_disk_inv_def srv_sync_inv_def)

text \<open>A synchronous store makes the disk agree with memory.\<close>

lemma seq_inv_sync:
  assumes "srv_mem_inv own seq issued" "srv_sync_inv seq0 d" "lss_need_sync seq = lss_need_sync seq0"
  shows "seq_inv own issued seq (trans_stop (lss_space seq) False True d)"
  using assms by (auto simp: seq_inv_def srv_mem_inv_def srv_disk_inv_def srv_sync_inv_def seq_file_def)

lemma seq_set_init_inv:
  assumes inv: "seq_inv own issued seq d" and io: "io_ok io" and r: "seq_set_init io seq d = (rc, seq', d')"
  shows "seq_inv own issued seq' d'"
proof -
  obtain lo sp1 where 1: "range_alloc (lss_lowater_set seq) (lss_space seq) (lss_set_width seq) = (lo, sp1)" by fastforce
  obtain hi sp2 where 2: "range_alloc (lss_hiwater_set seq) sp1 (lss_set_width seq) = (hi, sp2)" by fastforce
  let ?seq = "seq\<lparr>lss_space := sp2, lss_lowater_set := lo, lss_hiwater_set := hi\<rparr>"
  have sane: "lu_seq_range_is_sane (lss_space seq)" using inv by (simp add: seq_inv_def srv_mem_inv_def)
  note a = range_alloc_split [OF sane 1] 
  note b = range_alloc_split [OF a(2) 2]
  have "srv_mem_inv own ?seq issued"
    using inv a(1,2,4) b(1,2,4) unfolding seq_inv_def srv_mem_inv_def a(3) b(3)
    by (simp del: seqs_iff add: Int_Un_distrib Int_Un_distrib2 Int_commute)
  moreover have "seq' = ?seq" "d' = trans_stop (lss_space ?seq) False True d"
    using r seq_store_update_ok(1) [OF io] by (auto simp: seq_set_init_def 1 2)
  ultimately show ?thesis
    using inv seq_inv_sync [of own ?seq issued seq d] by (simp add: seq_inv_def)
qed

lemma range_switch_set_inv:
  assumes inv: "seq_inv own issued seq d" and io: "io_ok io" and r: "range_switch_set io n seq d = (rc, seq', d')"
  shows "seq_inv own issued seq' d'" "rc = 0"
proof -
  let ?sz = "min (lu_seq_range_space (lss_space seq)) (max (lss_set_width seq) (word_of_int n * lss_width seq))"
  obtain hi sp where 1: "range_alloc (lss_hiwater_set seq) (lss_space seq) ?sz = (hi, sp)" by fastforce
  let ?seq = "seq\<lparr>lss_lowater_set := lss_hiwater_set seq, lss_space := sp, lss_hiwater_set := hi\<rparr>"
  have sane: "lu_seq_range_is_sane (lss_space seq)" using inv by (simp add: seq_inv_def srv_mem_inv_def)
  note a = range_alloc_split [OF sane 1] 
  have mem: "srv_mem_inv own ?seq issued"
    using inv a(1,2,4) unfolding seq_inv_def srv_mem_inv_def a(3)
    by (simp del: seqs_iff add: Int_Un_distrib Int_Un_distrib2 Int_commute)
  have up: "seq_store_update io False (lss_need_sync seq \<noteq> 0) ?seq d = (rc, seq', d')"
    using r by (simp add: range_switch_set_def Let_def 1)
  have sync: "seq_inv own issued ?seq (trans_stop (lss_space ?seq) False True d)"
    using mem inv seq_inv_sync [of own ?seq issued seq d] by (simp add: seq_inv_def)
  show "rc = 0" using up seq_store_update_ok [OF io] by (cases "lss_need_sync seq = 0") (auto split: if_splits)
  show "seq_inv own issued seq' d'"
  proof (cases "lss_need_sync seq = 0")
    case False
    then show ?thesis using up sync seq_store_update_ok(1) [OF io] by auto
  next
    case True
    then have j: "sd_journal d = []" "sd_cbs d = 0" "seq_file d = sd_durable d"
      using inv by (auto simp: seq_inv_def srv_sync_inv_def seq_file_def)
    show ?thesis
    proof (cases "io_cb_alloc io \<and> io_cb_add io = 0")
      case False
      have "seq_inv own issued (?seq\<lparr>lss_need_sync := 1\<rparr>) (trans_stop (lss_space ?seq) False True d)"
        using sync j by (simp add: seq_inv_def srv_sync_inv_def)
      then show ?thesis using up True False sync seq_store_update_ok(2) [OF io, of ?seq d]
        by (auto split: if_splits)
    next
      case cb: True
      then have eq: "seq' = ?seq\<lparr>lss_need_sync := 1\<rparr>" "d' = trans_stop sp True False d"
        using up True seq_store_update_ok(2) [OF io, of ?seq d] by auto
      have "\<forall>f\<in>seq_files d. lu_seq_range_is_sane f \<and> seqs f \<subseteq> own \<and> seqs f \<inter> (issued \<union> seqs (lss_hiwater_set seq)) = {}"
        using inv j by (auto simp: seq_inv_def srv_disk_inv_def seq_files_def split: option.splits)
      moreover have "lu_seq_range_is_sane sp \<and> seqs sp \<subseteq> own \<and> seqs sp \<inter> (issued \<union> seqs (lss_hiwater_set seq)) = {}
          \<and> seqs sp \<inter> seqs hi = {}"
        using mem unfolding srv_mem_inv_def by (simp del: seqs_iff add: Int_Un_distrib Int_Un_distrib2 Int_commute)
      ultimately have "srv_disk_inv own ?seq d' issued"
        by (simp add: srv_disk_inv_def eq seq_file_def)
      then show ?thesis using mem j by (simp add: seq_inv_def eq srv_sync_inv_def)
    qed
  qed
qed

text \<open>Handing out from the low-water set, and dropping it (the fault injection).\<close>

lemma seq_inv_take:
  assumes inv: "seq_inv own issued seq d" and r: "range_alloc out (lss_lowater_set seq) w = (out', lo)"
  shows "seq_inv own (issued \<union> seqs out') (seq\<lparr>lss_lowater_set := lo\<rparr>) d"
    and "lu_seq_range_is_sane out'" "seqs out' \<inter> issued = {}" "seqs out' \<subseteq> own"
proof -
  have sane: "lu_seq_range_is_sane (lss_lowater_set seq)" using inv by (simp add: seq_inv_def srv_mem_inv_def)
  note a = range_alloc_split [OF sane r]
  have "srv_mem_inv own (seq\<lparr>lss_lowater_set := lo\<rparr>) (issued \<union> seqs out')"
    using inv a(1,2,4) unfolding seq_inv_def srv_mem_inv_def a(3)
    by (simp del: seqs_iff add: Int_Un_distrib Int_Un_distrib2 Int_commute)
  moreover have "srv_disk_inv own (seq\<lparr>lss_lowater_set := lo\<rparr>) d (issued \<union> seqs out')"
    using inv unfolding seq_inv_def srv_disk_inv_def a(3) by (simp del: seqs_iff add: Un_assoc)
  ultimately show "seq_inv own (issued \<union> seqs out') (seq\<lparr>lss_lowater_set := lo\<rparr>) d"
    using inv by (simp add: seq_inv_def srv_sync_inv_def)
  show "lu_seq_range_is_sane out'" by (rule a(1))
  show "seqs out' \<inter> issued = {}" "seqs out' \<subseteq> own"
    using inv a(3) unfolding seq_inv_def srv_mem_inv_def by blast+
qed

lemma seq_inv_drop:
  "seq_inv own issued seq d \<Longrightarrow>
   seq_inv own issued (seq\<lparr>lss_lowater_set := (lss_lowater_set seq)\<lparr>lsr_start := lsr_end (lss_lowater_set seq)\<rparr>\<rparr>) d"
proof -
  let ?lo = "(lss_lowater_set seq)\<lparr>lsr_start := lsr_end (lss_lowater_set seq)\<rparr>"
  assume inv: "seq_inv own issued seq d"
  have "seqs ?lo = {}" "lu_seq_range_is_sane ?lo" by (auto simp: lu_seq_range_is_sane_def)
  then show ?thesis
    using inv by (simp add: seq_inv_def srv_mem_inv_def srv_disk_inv_def srv_sync_inv_def Int_Un_distrib del: seqs_iff)
qed

lemma range_alloc_set_inv:
  assumes inv: "seq_inv own issued seq d" and io: "io_ok io1" "io_ok io2"
    and r: "range_alloc_set io1 io2 obd_fail n out seq d = Some (rc, out', seq', d')"
  shows "seq_inv own (issued \<union> (if rc = 0 then seqs out' else {})) seq' d' \<and>
    (rc = 0 \<longrightarrow> lu_seq_range_is_sane out' \<and> seqs out' \<inter> issued = {} \<and> seqs out' \<subseteq> own)"
proof -
  obtain rc1 seq1 d1 where i1: "(if lu_seq_range_is_zero (lss_lowater_set seq) then seq_set_init io1 seq d else (rc1, seq, d))
      = (rc1, seq1, d1)"
    by (cases "lu_seq_range_is_zero (lss_lowater_set seq)"; cases "seq_set_init io1 seq d") auto
  have inv1: "seq_inv own issued seq1 d1"
    using i1 inv seq_set_init_inv [OF inv io(1)] by (auto split: if_splits)
  define seq2 where "seq2 = (if obd_fail then seq1\<lparr>lss_lowater_set :=
      (lss_lowater_set seq1)\<lparr>lsr_start := lsr_end (lss_lowater_set seq1)\<rparr>\<rparr> else seq1)"
  have inv2: "seq_inv own issued seq2 d1" using inv1 seq_inv_drop by (simp add: seq2_def)
  obtain rc3 seq3 d3 where i3: "(if lu_seq_range_is_exhausted (lss_lowater_set seq2) then range_switch_set io2 n seq2 d1
      else (0, seq2, d1)) = (rc3, seq3, d3)" by (metis prod_cases3)
  have inv3: "seq_inv own issued seq3 d3" "rc3 = 0"
    using i3 inv2 range_switch_set_inv [OF inv2 io(2)] by (auto split: if_splits)
  have s1: "(if lu_seq_range_is_zero (lss_lowater_set seq) then snd (seq_set_init io1 seq d) else (seq, d)) = (seq1, d1)"
    using i1 by (auto split: if_splits)
  obtain o' lo where ra: "range_alloc out (lss_lowater_set seq3) (lss_width seq3) = (o', lo)" by fastforce
  have "rc = 0 \<and> out' = o' \<and> seq' = seq3\<lparr>lss_lowater_set := lo\<rparr> \<and> d' = d3"
    using r unfolding range_alloc_set_def s1
    by (simp only: Let_def prod.case seq2_def [symmetric] i3) (auto simp: inv3(2) ra Let_def split: if_splits)
  then show ?thesis using seq_inv_take [OF inv3(1) ra] by simp
qed

text \<open>Receiving a super-sequence that nobody has used.\<close>

lemma seq_inv_grow:
  assumes inv: "seq_inv own issued seq d" and r: "ans_ok own (Some r)"
  shows "seq_inv (own \<union> seqs r) issued (seq\<lparr>lss_space := r\<rparr>) d"
    and "seq_inv (own \<union> seqs r) issued seq d"
proof -
  have r': "lu_seq_range_is_sane r" "0 \<notin> seqs r" "seqs r \<inter> own = {}" using r by (simp_all add: ans_ok_def)
  have sub: "seqs (lss_lowater_set seq) \<subseteq> own" "seqs (lss_hiwater_set seq) \<subseteq> own" "issued \<subseteq> own"
    using inv by (simp_all add: seq_inv_def srv_mem_inv_def)
  have dj: "seqs r \<inter> seqs (lss_lowater_set seq) = {}" "seqs r \<inter> seqs (lss_hiwater_set seq) = {}" "seqs r \<inter> issued = {}"
    using r'(3) sub by blast+
  show "seq_inv (own \<union> seqs r) issued (seq\<lparr>lss_space := r\<rparr>) d"
    using inv r' dj unfolding seq_inv_def srv_mem_inv_def srv_disk_inv_def srv_sync_inv_def
    by (simp del: seqs_iff add: Int_Un_distrib Int_Un_distrib2 Int_commute le_supI1)
  show "seq_inv (own \<union> seqs r) issued seq d"
    using inv r' unfolding seq_inv_def srv_mem_inv_def srv_disk_inv_def srv_sync_inv_def
    by (simp del: seqs_iff add: le_supI1)
qed

lemma seq_inv_given:
  "seq_inv own issued seq d \<Longrightarrow> ans_ok own given \<Longrightarrow> seq_inv (own \<union> ans_seqs given) issued seq d"
  by (cases given) (auto intro: seq_inv_grow(2))

lemma seq_inv_cli [simp]: "seq_inv own issued (seq\<lparr>lss_cli := c\<rparr>) d = seq_inv own issued seq d"
  by (simp add: seq_inv_def)

lemma seq_client_alloc_super_ans:
  assumes "seq_client_alloc_super direct rpc cli = Some (0, cli')" "srv_answer given seq direct rpc"
  shows "given = Some (lcs_space cli')"
proof (cases "lcs_srv cli")
  case True
  then have "fst direct = 0" "lcs_space cli' = snd direct"
    using assms(1) by (auto simp: seq_client_alloc_super_def)
  then show ?thesis using assms(2) by (cases given) auto
next
  case False
  then have "seq_client_rpc rpc cli = Some (0, cli')"
    using assms(1) by (simp add: seq_client_alloc_super_def errno_defs split: if_splits)
  from seq_client_rpc_space(2) [OF this refl] obtain r where "rpc = Rpc_reply 0 r" "lcs_space cli' = r" by auto
  then show ?thesis using assms(2) by (cases given) auto
qed

lemma check_and_alloc_super_inv:
  assumes inv: "seq_inv own issued seq d" and io: "io_ok io" and a: "srv_answer given seq direct rpc" "ans_ok own given"
    and r: "seq_server_check_and_alloc_super io direct rpc fld_rc seq d = Some (rc, seq', d')"
  shows "seq_inv (own \<union> ans_seqs given) issued seq' d'"
proof -
  note inv' = seq_inv_given [OF inv a(2)]
  obtain early rc1 seq1 where
    i: "seq_inv (own \<union> ans_seqs given) issued seq1 d"
    and e: "if early then (rc, seq', d') = (rc1, seq1, d)
      else (seq', d') = (if lu_seq_range_is_zero (lss_lowater_set seq1) then snd (seq_set_init io seq1 d) else (seq1, d))"
  proof (cases "lu_seq_range_is_exhausted (lss_space seq)")
    case False
    then show ?thesis using r inv' by (intro that [of seq False rc]) (auto simp: seq_server_check_and_alloc_super_def)
  next
    case ex: True
    show ?thesis
    proof (cases "lss_cli seq")
      case None
      then show ?thesis using r inv' ex by (intro that [of seq True rc]) (auto simp: seq_server_check_and_alloc_super_def)
    next
      case (Some cli)
      then obtain rc2 cli2 where c: "seq_client_alloc_super direct rpc cli = Some (rc2, cli2)"
        using r ex by (auto simp: seq_server_check_and_alloc_super_def split: Option.bind_splits)
      show ?thesis
      proof (cases "rc2 = 0")
        case False
        then show ?thesis using r inv' ex Some c
          by (intro that [of "seq\<lparr>lss_cli := Some cli2\<rparr>" True rc]) (auto simp: seq_server_check_and_alloc_super_def)
      next
        case True
        then have g: "given = Some (lcs_space cli2)" using c a(1) seq_client_alloc_super_ans by blast
        have "seq_inv (own \<union> ans_seqs given) issued (seq\<lparr>lss_cli := Some cli2, lss_space := lcs_space cli2\<rparr>) d"
          using seq_inv_grow(1) [of own issued "seq\<lparr>lss_cli := Some cli2\<rparr>" d "lcs_space cli2"] inv a(2)
          by (simp add: g)
        then show ?thesis using r ex Some c True
          by (intro that [of "seq\<lparr>lss_cli := Some cli2, lss_space := lcs_space cli2\<rparr>" False])
            (auto simp: seq_server_check_and_alloc_super_def Let_def split: if_splits prod.splits)
      qed
    qed
  qed
  show ?thesis
    using e i seq_set_init_inv [OF i io] by (cases "seq_set_init io seq1 d") (auto split: if_splits)
qed

lemma alloc_meta_inv:
  assumes inv: "seq_inv own issued seq d" and io: "io_ok io0" "io_ok io1" "io_ok io2"
    and a: "srv_answer given seq direct rpc" "ans_ok own given"
    and r: "seq_server_alloc_meta io0 io1 io2 direct rpc fld_rc obd_fail n out seq d = Some (rc, out', seq', d')"
  shows "seq_inv (own \<union> ans_seqs given) (issued \<union> (if rc = 0 then seqs out' else {})) seq' d' \<and>
    (rc = 0 \<longrightarrow> lu_seq_range_is_sane out' \<and> seqs out' \<inter> issued = {} \<and> seqs out' \<subseteq> own \<union> ans_seqs given)"
proof -
  obtain rc1 seq1 d1 where c: "seq_server_check_and_alloc_super io0 direct rpc fld_rc seq d = Some (rc1, seq1, d1)"
    using r by (auto simp: seq_server_alloc_meta_def bind_LASSERT_eq_Some split: Option.bind_splits)
  note inv1 = check_and_alloc_super_inv [OF inv io(1) a c]
  show ?thesis
  proof (cases "rc1 < 0")
    case True
    then have "rc \<noteq> 0" "seq' = seq1" "d' = d1" using r c by (auto simp: seq_server_alloc_meta_def split: if_splits)
    then show ?thesis using inv1 by simp
  next
    case False
    then have "range_alloc_set io1 io2 obd_fail n out seq1 d1 = Some (rc, out', seq', d')"
      using r c by (auto simp: seq_server_alloc_meta_def split: if_splits)
    from range_alloc_set_inv [OF inv1 io(2,3) this] show ?thesis .
  qed
qed

text \<open>A restarted server has what the disk has, and empty sets.\<close>

lemma seq_restart_server:
  assumes io: "io_ok io" and r: "seq_restart io LUSTRE_SEQ_SERVER node seq d = Some (0, seq', d')"
  shows "lss_lowater_set seq' = lu_seq_range_init" "lss_hiwater_set seq' = lu_seq_range_init"
    and "(sd_durable d = Some (lss_space seq') \<and> lss_need_sync seq' = 0 \<and> d' = disk_crash d) \<or>
         (sd_durable d = None \<and> seqs (lss_space seq') = {} \<and> lu_seq_range_is_sane (lss_space seq') \<and>
          (lss_need_sync seq' = 1 \<and> d' = \<lparr>sd_durable = None, sd_journal = [(lss_space seq', True)], sd_cbs = 0\<rparr> \<or>
           d' = \<lparr>sd_durable = Some (lss_space seq'), sd_journal = [], sd_cbs = 0\<rparr>))"
proof -
  let ?z = "LUSTRE_SEQ_ZERO_RANGE\<lparr>lsr_index := node\<rparr>"
  define seq0 where "seq0 = seq\<lparr>lss_need_sync := 0, lss_cli := None, lss_type := LUSTRE_SEQ_SERVER, lss_node_id := node,
                    lss_space := lu_seq_range_init, lss_lowater_set := lu_seq_range_init,
                    lss_hiwater_set := lu_seq_range_init, lss_set_width := LUSTRE_SEQ_BATCH_WIDTH,
                    lss_width := LUSTRE_SEQ_META_WIDTH\<rparr>"
  have z: "seqs ?z = {}" "lu_seq_range_is_sane ?z"
    by (auto simp: LUSTRE_SEQ_ZERO_RANGE_def lu_seq_range_is_sane_def)
  have "(\<exists>f. sd_durable d = Some f \<and> seq' = seq0\<lparr>lss_space := f\<rparr> \<and> d' = disk_crash d) \<or>
    (sd_durable d = None \<and> (0::int, seq', d') = (0, snd (seq_store_update io False False (seq0\<lparr>lss_space := ?z\<rparr>) (disk_crash d))))"
  proof (cases "sd_durable d")
    case None
    then show ?thesis using r
      by (auto simp: seq_restart_def seq_server_init_def seq_store_read_def disk_crash_def seq_file_def errno_defs
          seq0_def Let_def split: if_splits prod.splits)
  next
    case (Some f)
    then show ?thesis using r
      by (auto simp: seq_restart_def seq_server_init_def seq_store_read_def disk_crash_def seq_file_def errno_defs
          seq0_def Let_def split: if_splits)
  qed
  then have "(\<exists>f. sd_durable d = Some f \<and> seq' = seq0\<lparr>lss_space := f\<rparr> \<and> d' = disk_crash d) \<or>
    (sd_durable d = None \<and>
       (seq' = seq0\<lparr>lss_space := ?z, lss_need_sync := 1\<rparr> \<and>
          d' = \<lparr>sd_durable = None, sd_journal = [(?z, True)], sd_cbs = 0\<rparr> \<or>
        (seq' = seq0\<lparr>lss_space := ?z, lss_need_sync := 1\<rparr> \<or> seq' = seq0\<lparr>lss_space := ?z\<rparr>) \<and>
          d' = \<lparr>sd_durable = Some ?z, sd_journal = [], sd_cbs = 0\<rparr>))"
    unfolding seq_store_update_ok(2) [OF io] by (auto simp: disk_crash_def split: if_splits)
  then show "lss_lowater_set seq' = lu_seq_range_init" "lss_hiwater_set seq' = lu_seq_range_init"
    "(sd_durable d = Some (lss_space seq') \<and> lss_need_sync seq' = 0 \<and> d' = disk_crash d) \<or>
         (sd_durable d = None \<and> seqs (lss_space seq') = {} \<and> lu_seq_range_is_sane (lss_space seq') \<and>
          (lss_need_sync seq' = 1 \<and> d' = \<lparr>sd_durable = None, sd_journal = [(lss_space seq', True)], sd_cbs = 0\<rparr> \<or>
           d' = \<lparr>sd_durable = Some (lss_space seq'), sd_journal = [], sd_cbs = 0\<rparr>))"
    using z by (auto simp: seq0_def simp del: seqs_iff)
qed

lemma restart_inv:
  assumes inv: "seq_inv own issued seq d" and io: "io_ok io"
    and r: "seq_restart io LUSTRE_SEQ_SERVER node seq d = Some (0, seq', d')"
  shows "seq_inv own issued seq' d'"
proof -
  note R = seq_restart_server [OF io r]
  have o: "0 \<notin> own" "issued \<subseteq> own" using inv by (simp_all add: seq_inv_def srv_mem_inv_def)
  have files: "\<forall>f\<in>seq_files d. lu_seq_range_is_sane f \<and> seqs f \<subseteq> own \<and> issued \<inter> seqs f = {}"
    using inv by (auto simp: seq_inv_def srv_disk_inv_def simp del: seqs_iff)
  from R(3) have sp: "lu_seq_range_is_sane (lss_space seq') \<and> seqs (lss_space seq') \<subseteq> own \<and> issued \<inter> seqs (lss_space seq') = {}"
  proof (elim disjE conjE)
    assume "sd_durable d = Some (lss_space seq')"
    then have "lss_space seq' \<in> seq_files d" by (simp add: seq_files_def)
    then show ?thesis using files by blast
  qed simp_all
  then have "srv_mem_inv own seq' issued" using R(1,2) o by (simp add: srv_mem_inv_def del: seqs_iff)
  moreover have "srv_disk_inv own seq' d' issued \<and> srv_sync_inv seq' d'"
    using R(3) sp
    by (elim disjE conjE) (simp_all add: srv_disk_inv_def srv_sync_inv_def seq_files_def seq_file_def disk_crash_def
        R(1,2) Int_commute del: seqs_iff)
  ultimately show ?thesis by (simp add: seq_inv_def)
qed

lemma commit_inv: "seq_inv own issued seq d \<Longrightarrow> seq_inv own issued seq (commit_one d)"
  by (auto simp: seq_inv_def srv_disk_inv_def srv_sync_inv_def commit_one_def seq_file_def seq_files_def
      simp del: seqs_iff split: list.splits option.splits)

lemma callback_inv:
  "seq_inv own issued seq d \<Longrightarrow> 0 < sd_cbs d \<Longrightarrow>
   seq_inv own issued (seq_update_cb seq) (d\<lparr>sd_cbs := sd_cbs d - Suc 0\<rparr>)"
  by (auto simp: seq_inv_def srv_disk_inv_def srv_sync_inv_def seq_update_cb_def seq_file_def seq_files_def
      simp del: seqs_iff)

lemma srv_inv_step:
  assumes "srv_step io_ok given g s s'" "srv_inv own s" "ans_ok own given"
  shows "srv_inv (own \<union> ans_seqs given) s'" "sv_issued s' = sv_issued s \<union> ans_seqs g"
    and "\<And>r. g = Some r \<Longrightarrow> lu_seq_range_is_sane r \<and> seqs r \<inter> sv_issued s = {} \<and> seqs r \<subseteq> own \<union> ans_seqs given"
proof -
  have "srv_inv (own \<union> ans_seqs given) s' \<and> sv_issued s' = sv_issued s \<union> ans_seqs g \<and>
    (\<forall>r. g = Some r \<longrightarrow> lu_seq_range_is_sane r \<and> seqs r \<inter> sv_issued s = {} \<and> seqs r \<subseteq> own \<union> ans_seqs given)"
    using assms
  proof (cases rule: srv_step.cases)
    case (meta io0 io1 io2 direct rpc fld_rc obd_fail n out rc out' seq' d')
    from alloc_meta_inv [OF _ meta(3-6) assms(3) meta(7)] assms(2)
    have i: "seq_inv (own \<union> ans_seqs given) (sv_issued s \<union> (if rc = 0 then seqs out' else {})) seq' d' \<and>
      (rc = 0 \<longrightarrow> lu_seq_range_is_sane out' \<and> seqs out' \<inter> sv_issued s = {} \<and> seqs out' \<subseteq> own \<union> ans_seqs given)"
      by (simp add: srv_inv_def del: seqs_iff)
    then show ?thesis using meta(1,2) by (simp add: srv_inv_def del: seqs_iff)
  next
    case (restart io node seq' d')
    then show ?thesis using assms(2) restart_inv by (auto simp: srv_inv_def)
  next
    case (set_cli cli rc seq')
    then show ?thesis using assms(2)
      by (auto simp: srv_inv_def seq_server_set_cli_def split: option.splits if_splits)
  qed (use assms(2) in \<open>auto simp: srv_inv_def intro: commit_inv callback_inv\<close>)
  then show "srv_inv (own \<union> ans_seqs given) s'" "sv_issued s' = sv_issued s \<union> ans_seqs g"
    "\<And>r. g = Some r \<Longrightarrow> lu_seq_range_is_sane r \<and> seqs r \<inter> sv_issued s = {} \<and> seqs r \<subseteq> own \<union> ans_seqs given"
    by blast+
qed

section \<open>The controller across power failures\<close>

inductive ctl_step :: "lu_seq_range option \<Rightarrow> srv \<Rightarrow> srv \<Rightarrow> bool" where
  super:
    "\<lbrakk>\<not> io_rdonly io; seq_server_alloc_super io out (sv_seq s) (sv_disk s) = Some (rc, out', seq', d')\<rbrakk> \<Longrightarrow>
     ctl_step (if rc = 0 then Some out' else None) s
       \<lparr>sv_seq = seq', sv_disk = d', sv_issued = sv_issued s \<union> (if rc = 0 then seqs out' else {})\<rparr>"
| spec:
    "\<lbrakk>\<not> io_rdonly io; seq_server_alloc_spec io spec (sv_seq s) (sv_disk s) = (rc, seq', d')\<rbrakk> \<Longrightarrow>
     ctl_step (if rc = 0 then Some spec else None) s
       \<lparr>sv_seq = seq', sv_disk = d', sv_issued = sv_issued s \<union> (if rc = 0 then seqs spec else {})\<rparr>"
| commit:
    "ctl_step None s (s\<lparr>sv_disk := commit_one (sv_disk s)\<rparr>)"
| callback:
    "0 < sd_cbs (sv_disk s) \<Longrightarrow>
     ctl_step None s
       (s\<lparr>sv_seq := seq_update_cb (sv_seq s), sv_disk := (sv_disk s)\<lparr>sd_cbs := sd_cbs (sv_disk s) - 1\<rparr>\<rparr>)"
| restart:
    "seq_restart io LUSTRE_SEQ_CONTROLLER node (sv_seq s) (sv_disk s) = Some (rc, seq', d') \<Longrightarrow>
     ctl_step None s (s\<lparr>sv_seq := seq', sv_disk := d'\<rparr>)"

text \<open>Everything handed out lies below the start of the free space, in memory and on disk.\<close>

definition above :: "u64 set \<Rightarrow> lu_seq_range \<Rightarrow> bool" where
  "above issued f \<longleftrightarrow> FID_SEQ_NORMAL \<le> lsr_start f \<and> (\<forall>x\<in>issued. x < lsr_start f)"

definition ctl_inv :: "srv \<Rightarrow> bool" where
  "ctl_inv s \<longleftrightarrow> above (sv_issued s) (lss_space (sv_seq s)) \<and>
     (\<forall>f\<in>seq_files (sv_disk s). above (sv_issued s) f) \<and>
     (sv_issued s \<noteq> {} \<longrightarrow> sd_durable (sv_disk s) \<noteq> None)"

lemma trans_stop_files:
  "seq_files (trans_stop r cb sync d) \<subseteq> insert r (seq_files d)"
  "sd_durable d \<noteq> None \<Longrightarrow> sd_durable (trans_stop r cb sync d) \<noteq> None"
  by (cases sync; simp)+

lemma store_update_files:
  assumes "seq_store_update io out sync seq d = (rc, seq', d')"
  shows "seq_files d' \<subseteq> insert (lss_space seq) (seq_files d)" "sd_durable d \<noteq> None \<Longrightarrow> sd_durable d' \<noteq> None"
proof -
  have "d' = d \<or> (\<exists>cb sy. d' = trans_stop (lss_space seq) cb sy d)"
    using assms unfolding seq_store_update_def seq_update_cb_add_def
    by (auto simp del: trans_stop_sync trans_stop_async split: if_splits)
  then show "seq_files d' \<subseteq> insert (lss_space seq) (seq_files d)" "sd_durable d \<noteq> None \<Longrightarrow> sd_durable d' \<noteq> None"
    using trans_stop_files by blast+
qed

lemma store_update_sync_done:
  assumes "seq_store_update io out True seq d = (0, seq', d')" "\<not> io_rdonly io"
  shows "seq_files d' = {lss_space seq}" "sd_durable d' \<noteq> None"
  using assms by (auto simp: seq_store_update_def split: if_splits)

text \<open>The common part of the two allocations of the controller: the free space moves up to
  \<open>sp\<close>, and \<open>r\<close> below it is handed out if the store succeeds.\<close>

lemma ctl_inv_alloc:
  assumes inv: "ctl_inv s" and io: "\<not> io_rdonly io"
    and up: "seq_store_update io True True ((sv_seq s)\<lparr>lss_space := sp\<rparr>) (sv_disk s) = (rc, seq', d')"
    and sp: "lsr_start (lss_space (sv_seq s)) \<le> lsr_start sp" "lsr_end r \<le> lsr_start sp"
  shows "ctl_inv \<lparr>sv_seq = seq', sv_disk = d', sv_issued = sv_issued s \<union> (if rc = 0 then seqs r else {})\<rparr>"
proof -
  have seq': "seq' = (sv_seq s)\<lparr>lss_space := sp\<rparr>" using seq_store_update_frame(2) [OF up] by simp
  have a: "above (sv_issued s) sp" using inv sp(1) unfolding ctl_inv_def above_def by (meson order.trans less_le_trans)
  have r: "above (sv_issued s \<union> seqs r) sp" using a sp(2) by (auto simp: above_def)
  show ?thesis
  proof (cases "rc = 0")
    case True
    then show ?thesis using store_update_sync_done [OF up [unfolded True] io] r by (simp add: ctl_inv_def seq' del: seqs_iff)
  next
    case False
    then show ?thesis using inv a store_update_files [OF up] by (auto simp: ctl_inv_def seq')
  qed
qed

lemma ctl_alloc_fresh:
  assumes "ctl_inv s" "lsr_start (lss_space (sv_seq s)) \<le> lsr_start r"
  shows "0 \<notin> seqs r" "seqs r \<inter> sv_issued s = {}"
  using assms by (auto simp: ctl_inv_def above_def const_defs word_less_nat_alt word_le_nat_alt)

lemma ctl_restart_inv:
  assumes inv: "\<forall>f\<in>seq_files (sv_disk s). above (sv_issued s) f" "sv_issued s \<noteq> {} \<longrightarrow> sd_durable (sv_disk s) \<noteq> None"
    and r: "seq_restart io LUSTRE_SEQ_CONTROLLER node (sv_seq s) (sv_disk s) = Some (rc, seq', d')"
  shows "ctl_inv (s\<lparr>sv_seq := seq', sv_disk := d'\<rparr>)"
proof (cases "sd_durable (sv_disk s)")
  case None
  define seq0 where "seq0 = (sv_seq s)\<lparr>lss_need_sync := 0, lss_cli := None, lss_type := LUSTRE_SEQ_CONTROLLER, lss_node_id := node,
                    lss_lowater_set := lu_seq_range_init,
                    lss_hiwater_set := lu_seq_range_init, lss_set_width := LUSTRE_SEQ_BATCH_WIDTH,
                    lss_width := LUSTRE_SEQ_SUPER_WIDTH, lss_space := LUSTRE_SEQ_SPACE_RANGE\<lparr>lsr_index := node\<rparr>\<rparr>"
  obtain rc1 where up: "seq_store_update io False False seq0 (disk_crash (sv_disk s)) = (rc1, seq', d')"
    using r None
    by (cases "seq_store_update io False False seq0 (disk_crash (sv_disk s))")
     (auto simp: seq_restart_def seq_server_init_def seq_store_read_def disk_crash_def seq_file_def errno_defs
          seq0_def Let_def split: if_splits)
  have "lss_space seq' = lss_space seq0" using seq_store_update_frame(1) [OF up] by auto
  moreover have "sv_issued s = {}" using inv None by (auto simp: ctl_inv_def)
  moreover have "seq_files (disk_crash (sv_disk s)) = {}" using None by (simp add: seq_files_def disk_crash_def)
  moreover have "above {} (lss_space seq0)" by (simp add: above_def seq0_def LUSTRE_SEQ_SPACE_RANGE_def)
  ultimately show ?thesis using store_update_files(1) [OF up] by (auto simp: ctl_inv_def)
next
  case (Some f)
  then have "seq' = (sv_seq s)\<lparr>lss_need_sync := 0, lss_cli := None, lss_type := LUSTRE_SEQ_CONTROLLER, lss_node_id := node,
                    lss_space := f, lss_lowater_set := lu_seq_range_init,
                    lss_hiwater_set := lu_seq_range_init, lss_set_width := LUSTRE_SEQ_BATCH_WIDTH,
                    lss_width := LUSTRE_SEQ_SUPER_WIDTH\<rparr>" "d' = disk_crash (sv_disk s)"
    using r by (auto simp: seq_restart_def seq_server_init_def seq_store_read_def disk_crash_def seq_file_def errno_defs
          Let_def split: if_splits)
  then show ?thesis using inv Some by (auto simp: ctl_inv_def seq_files_def disk_crash_def)
qed

lemma ctl_inv_step:
  assumes "ctl_step g s s'" "ctl_inv s"
  shows "ctl_inv s' \<and> sv_issued s' = sv_issued s \<union> ans_seqs g \<and>
    (\<forall>r. g = Some r \<longrightarrow> lu_seq_range_is_sane r \<and> 0 \<notin> seqs r \<and> seqs r \<inter> sv_issued s = {})"
  using assms
proof (cases rule: ctl_step.cases)
  case (super io out rc out' seq' d')
  show ?thesis
  proof (cases "lu_seq_range_is_exhausted (lss_space (sv_seq s))")
    case True
    then show ?thesis using super assms(2)
      by (auto simp: seq_server_alloc_super_def bind_LASSERT_eq_Some errno_defs ctl_inv_def split: if_splits)
  next
    case False
    obtain o1 sp where ra: "range_alloc out (lss_space (sv_seq s)) (lss_width (sv_seq s)) = (o1, sp)" by fastforce
    have sane: "lu_seq_range_is_sane (lss_space (sv_seq s))" and o1: "out' = o1"
      and up: "seq_store_update io True True ((sv_seq s)\<lparr>lss_space := sp\<rparr>) (sv_disk s) = (rc, seq', d')"
      using super(4) False by (auto simp: seq_server_alloc_super_def ra split: if_splits prod.splits)
    have b: "lsr_start o1 = lsr_start (lss_space (sv_seq s))" "lsr_end o1 = lsr_start sp"
      "lsr_start (lss_space (sv_seq s)) \<le> lsr_start sp"
      using ra range_cut_bounds [OF sane, of "lss_width (sv_seq s)"] by (auto simp: range_alloc_def Let_def)
    show ?thesis
      using ctl_inv_alloc [OF assms(2) super(3) up b(3), of o1] ctl_alloc_fresh [OF assms(2), of o1] b
        range_alloc_split(1) [OF sane ra] super(1,2) by (cases "rc = 0") (simp_all add: o1 del: seqs_iff)
  qed
next
  case (spec io r rc seq' d')
  show ?thesis
  proof (cases "lsr_start r < lsr_end r \<and> lsr_start (lss_space (sv_seq s)) \<le> lsr_start r \<and>
      (lsr_flags r = LU_SEQ_RANGE_MDT \<or> lsr_flags r = LU_SEQ_RANGE_OST)")
    case False
    then have "rc \<noteq> 0" "seq' = sv_seq s" "d' = sv_disk s"
      using spec(4) by (auto simp: seq_server_alloc_spec_def errno_defs not_le split: if_splits)
    then show ?thesis using spec(1,2) assms(2) by (simp add: ctl_inv_def)
  next
    case True
    then have up: "seq_store_update io True True
        ((sv_seq s)\<lparr>lss_space := (lss_space (sv_seq s))\<lparr>lsr_start := lsr_end r\<rparr>\<rparr>) (sv_disk s) = (rc, seq', d')"
      using spec(4) by (auto simp: seq_server_alloc_spec_def not_le split: if_splits)
    have "lsr_start (lss_space (sv_seq s)) \<le> lsr_end r" "lsr_start r \<le> lsr_end r" using True by auto
    then show ?thesis
      using ctl_inv_alloc [OF assms(2) spec(3) up, of r] ctl_alloc_fresh [OF assms(2), of r] True spec(1,2)
      by (cases "rc = 0") (simp_all add: lu_seq_range_is_sane_def del: seqs_iff)
  qed
next
  case commit
  then show ?thesis using assms(2) seq_files_commit_one [of "sv_disk s"]
    by (auto simp: ctl_inv_def commit_one_def split: list.splits)
next
  case callback
  then show ?thesis using assms(2) by (auto simp: ctl_inv_def seq_update_cb_def)
next
  case (restart io node rc seq' d')
  have "\<forall>f\<in>seq_files (sv_disk s). above (sv_issued s) f" "sv_issued s \<noteq> {} \<longrightarrow> sd_durable (sv_disk s) \<noteq> None"
    using assms(2) unfolding ctl_inv_def by blast+
  from ctl_restart_inv [OF this restart(3)] restart(1,2) show ?thesis by simp
qed

section \<open>The interface between the stages\<close>

locale seq_source =
  fixes good :: "'s \<Rightarrow> bool"
    and used :: "'s \<Rightarrow> u64 set"
    and step :: "lu_seq_range option \<Rightarrow> 's \<Rightarrow> 's \<Rightarrow> bool"
  assumes step_inv: "step g s s' \<Longrightarrow> good s \<Longrightarrow> good s'"
    and step_used: "step g s s' \<Longrightarrow> good s \<Longrightarrow> used s' = used s \<union> ans_seqs g"
    and step_fresh: "step g s s' \<Longrightarrow> good s \<Longrightarrow> ans_ok (used s) g"

interpretation ctl: seq_source ctl_inv sv_issued ctl_step
proof (unfold_locales, goal_cases)
  case (1 g s s')
  then show ?case using ctl_inv_step by blast
next
  case (2 g s s')
  then show ?case using ctl_inv_step by blast
next
  case (3 g s s')
  then show ?case using ctl_inv_step [OF 3] by (simp add: ans_ok_def del: seqs_iff)
qed

text \<open>Runs of a source, with the list of ranges it hands out.\<close>

inductive seq_run :: "(lu_seq_range option \<Rightarrow> 's \<Rightarrow> 's \<Rightarrow> bool) \<Rightarrow> lu_seq_range list \<Rightarrow> 's \<Rightarrow> 's \<Rightarrow> bool"
  for step where
  run_nil: "seq_run step [] s s"
| run_step: "seq_run step rs s s' \<Longrightarrow> step g s' s'' \<Longrightarrow> seq_run step (rs @ (case g of None \<Rightarrow> [] | Some r \<Rightarrow> [r])) s s''"

text \<open>Metadata servers that draw super-sequences from a source. An answer of the source may get
  lost on the way.\<close>

record 's mds_sys =
  ms_src :: 's
  ms_srv :: "nat \<Rightarrow> srv"
  ms_own :: "nat \<Rightarrow> u64 set"

inductive mds_step :: "(seq_io \<Rightarrow> bool) \<Rightarrow> (lu_seq_range option \<Rightarrow> 's \<Rightarrow> 's \<Rightarrow> bool) \<Rightarrow> lu_seq_range option \<Rightarrow> 's mds_sys \<Rightarrow> 's mds_sys \<Rightarrow> bool"
  for ok step where
  src: "step g (ms_src m) s' \<Longrightarrow> mds_step ok step None m (m\<lparr>ms_src := s'\<rparr>)"
| srv: "srv_step ok None g (ms_srv m i) v \<Longrightarrow> mds_step ok step g m (m\<lparr>ms_srv := (ms_srv m)(i := v)\<rparr>)"
| srv_super: "\<lbrakk>step (Some r) (ms_src m) s'; srv_step ok (Some r) g (ms_srv m i) v\<rbrakk> \<Longrightarrow>
    mds_step ok step g m (m\<lparr>ms_src := s', ms_srv := (ms_srv m)(i := v),
                         ms_own := (ms_own m)(i := ms_own m i \<union> seqs r)\<rparr>)"

definition mds_inv :: "('s \<Rightarrow> bool) \<Rightarrow> ('s \<Rightarrow> u64 set) \<Rightarrow> 's mds_sys \<Rightarrow> bool" where
  "mds_inv good used m \<longleftrightarrow> good (ms_src m) \<and> (\<forall>i. srv_inv (ms_own m i) (ms_srv m i)) \<and>
     (\<forall>i. ms_own m i \<subseteq> used (ms_src m)) \<and> (\<forall>i j. i \<noteq> j \<longrightarrow> ms_own m i \<inter> ms_own m j = {})"

definition mds_used :: "'s mds_sys \<Rightarrow> u64 set" where
  "mds_used m = (\<Union>i. sv_issued (ms_srv m i))"

lemma mds_used_upd:
  assumes "sv_issued v = sv_issued (ms_srv m i) \<union> A"
  shows "mds_used (m\<lparr>ms_srv := (ms_srv m)(i := v)\<rparr>) = mds_used m \<union> A"
proof -
  have "(\<Union>j. sv_issued (((ms_srv m)(i := v)) j)) = (\<Union>j. sv_issued (ms_srv m j)) \<union> A"
  proof (intro equalityI subsetI)
    fix x assume "x \<in> (\<Union>j. sv_issued (((ms_srv m)(i := v)) j))"
    then obtain j where "x \<in> sv_issued (((ms_srv m)(i := v)) j)" by blast
    then show "x \<in> (\<Union>j. sv_issued (ms_srv m j)) \<union> A" using assms by (cases "j = i") auto
  next
    fix x assume "x \<in> (\<Union>j. sv_issued (ms_srv m j)) \<union> A"
    then consider j where "x \<in> sv_issued (ms_srv m j)" | "x \<in> A" by blast
    then show "x \<in> (\<Union>j. sv_issued (((ms_srv m)(i := v)) j))"
    proof cases
      case (1 j)
      then have "x \<in> sv_issued (((ms_srv m)(i := v)) j)" using assms by auto
      then show ?thesis by blast
    next
      case 2
      then have "x \<in> sv_issued (((ms_srv m)(i := v)) i)" using assms by simp
      then show ?thesis by blast
    qed
  qed
  then show ?thesis by (simp add: mds_used_def)
qed

text \<open>Clients that draw ranges from a source, and the FIDs they return.\<close>

record 's fid_sys =
  fs_src :: 's
  fs_cli :: "nat \<Rightarrow> cli"
  fs_own :: "nat \<Rightarrow> u64 set"

inductive fid_step :: "(lu_seq_range option \<Rightarrow> 's \<Rightarrow> 's \<Rightarrow> bool) \<Rightarrow> 's fid_sys \<Rightarrow> 's fid_sys \<Rightarrow> bool"
  for step where
  src: "step g (fs_src m) s' \<Longrightarrow> fid_step step m (m\<lparr>fs_src := s'\<rparr>)"
| cli: "cli_step None (fs_cli m i) c \<Longrightarrow> fid_step step m (m\<lparr>fs_cli := (fs_cli m)(i := c)\<rparr>)"
| cli_meta: "\<lbrakk>step (Some r) (fs_src m) s'; cli_step (Some r) (fs_cli m i) c\<rbrakk> \<Longrightarrow>
    fid_step step m (m\<lparr>fs_src := s', fs_cli := (fs_cli m)(i := c),
                       fs_own := (fs_own m)(i := fs_own m i \<union> seqs r)\<rparr>)"

definition fid_inv :: "('s \<Rightarrow> bool) \<Rightarrow> ('s \<Rightarrow> u64 set) \<Rightarrow> 's fid_sys \<Rightarrow> bool" where
  "fid_inv good used m \<longleftrightarrow> good (fs_src m) \<and> (\<forall>i. cli_inv (fs_own m i) (fs_cli m i)) \<and>
     (\<forall>i. fs_own m i \<subseteq> used (fs_src m)) \<and> (\<forall>i j. i \<noteq> j \<longrightarrow> fs_own m i \<inter> fs_own m j = {})"

inductive fid_reach :: "(lu_seq_range option \<Rightarrow> 's \<Rightarrow> 's \<Rightarrow> bool) \<Rightarrow> 's fid_sys \<Rightarrow> 's fid_sys \<Rightarrow> bool"
  for step m0 where
  fid_reach_init: "fid_reach step m0 m0"
| fid_reach_step: "fid_reach step m0 m \<Longrightarrow> fid_step step m m' \<Longrightarrow> fid_reach step m0 m'"

context seq_source
begin

lemma run_inv: "seq_run step rs s0 s \<Longrightarrow> good s0 \<Longrightarrow> good s"
  by (induction rule: seq_run.induct) (auto intro: step_inv)

lemma run_used: "seq_run step rs s0 s \<Longrightarrow> good s0 \<Longrightarrow> used s = used s0 \<union> (\<Union>r\<in>set rs. seqs r)"
proof (induction rule: seq_run.induct)
  case (run_step rs s s' g s'')
  then show ?case using step_used [OF run_step(2) run_inv [OF run_step(1,4)]] by (cases g) auto
qed simp

lemma run_disjoint:
  "seq_run step rs s0 s \<Longrightarrow> good s0 \<Longrightarrow>
   sorted_wrt (\<lambda>a b. seqs a \<inter> seqs b = {}) rs \<and> list_all (\<lambda>r. lu_seq_range_is_sane r \<and> 0 \<notin> seqs r) rs"
proof (induction rule: seq_run.induct)
  case (run_step rs s s' g s'')
  have f: "ans_ok (used s') g" using step_fresh run_step run_inv by blast
  have u: "\<forall>r\<in>set rs. seqs r \<subseteq> used s'" using run_used [OF run_step(1,4)] by blast
  show ?case
  proof (cases g)
    case (Some r)
    then have "\<forall>a\<in>set rs. seqs a \<inter> seqs r = {}" using f u unfolding ans_ok_def by blast
    then show ?thesis using run_step f Some by (simp add: sorted_wrt_append ans_ok_def del: seqs_iff)
  qed (use run_step in simp)
qed simp

lemma own_grow:
  assumes "good s" "step (Some r) s s'" "\<forall>i. own i \<subseteq> used s" "\<forall>i j. i \<noteq> j \<longrightarrow> own i \<inter> own j = {}"
  shows "ans_ok (own k) (Some r)" "\<forall>i. (own(k := own k \<union> seqs r)) i \<subseteq> used s'"
    "\<forall>i j. i \<noteq> j \<longrightarrow> (own(k := own k \<union> seqs r)) i \<inter> (own(k := own k \<union> seqs r)) j = {}"
proof -
  have f: "ans_ok (used s) (Some r)" and u: "used s' = used s \<union> seqs r"
    using assms(1,2) step_fresh step_used by fastforce+
  have d: "seqs r \<inter> own i = {}" for i using f assms(3) unfolding ans_ok_def by blast
  then show "ans_ok (own k) (Some r)" using f by (simp add: ans_ok_def del: seqs_iff)
  show "\<forall>i. (own(k := own k \<union> seqs r)) i \<subseteq> used s'" using assms(3) u by auto
  show "\<forall>i j. i \<noteq> j \<longrightarrow> (own(k := own k \<union> seqs r)) i \<inter> (own(k := own k \<union> seqs r)) j = {}"
    using assms(4) d by (simp add: Int_Un_distrib Int_Un_distrib2 Int_commute del: seqs_iff)
qed

lemma own_src: "good s \<Longrightarrow> step g s s' \<Longrightarrow> \<forall>i. own i \<subseteq> used s \<Longrightarrow> \<forall>i. own i \<subseteq> used s'"
  using step_used by blast

lemma mds_inv_server:
  assumes st: "srv_step io_ok given g (ms_srv m i) v" and ok: "ans_ok (ms_own m i) given"
    and dj: "\<And>j. j \<noteq> i \<Longrightarrow> (ms_own m i \<union> ans_seqs given) \<inter> ms_own m j = {}"
    and inv: "\<And>i. srv_inv (ms_own m i) (ms_srv m i)"
  shows "mds_used (m\<lparr>ms_srv := (ms_srv m)(i := v)\<rparr>) = mds_used m \<union> ans_seqs g"
    and "ans_ok (mds_used m) g" "srv_inv (ms_own m i \<union> ans_seqs given) v"
proof -
  note I = srv_inv_step [OF st inv [of i] ok]
  have iss: "sv_issued (ms_srv m i) \<subseteq> ms_own m i" for i
    using inv [of i] by (simp add: srv_inv_def seq_inv_def srv_mem_inv_def del: seqs_iff)
  have z: "0 \<notin> ms_own m i \<union> ans_seqs given"
    using I(1) unfolding srv_inv_def seq_inv_def srv_mem_inv_def by (elim conjE)
  have "ans_ok (mds_used m) (Some r)" if g: "g = Some r" for r
  proof -
    note J = I(3) [OF g]
    have "seqs r \<inter> sv_issued (ms_srv m j) = {}" for j
    proof (cases "j = i")
      case True
      then show ?thesis using J by (simp del: seqs_iff)
    next
      case False
      then show ?thesis using J dj [OF False] iss [of j] by (meson disjoint_iff subsetD)
    qed
    then have "seqs r \<inter> mds_used m = {}" unfolding mds_used_def by (simp add: Int_UN_distrib del: seqs_iff)
    moreover have "0 \<notin> seqs r" using J z by (meson subsetD)
    ultimately show ?thesis using J by (simp add: ans_ok_def del: seqs_iff)
  qed
  then show "ans_ok (mds_used m) g" by (cases g) (simp_all add: ans_ok_def del: seqs_iff)
  show "mds_used (m\<lparr>ms_srv := (ms_srv m)(i := v)\<rparr>) = mds_used m \<union> ans_seqs g"
    by (rule mds_used_upd) (rule I(2))
  show "srv_inv (ms_own m i \<union> ans_seqs given) v" by (rule I(1))
qed

lemma mds_inv_step:
  assumes "mds_step io_ok step g m m'" "mds_inv good used m"
  shows "mds_inv good used m' \<and> mds_used m' = mds_used m \<union> ans_seqs g \<and> ans_ok (mds_used m) g"
proof -
  have own: "good (ms_src m)" "\<forall>i. ms_own m i \<subseteq> used (ms_src m)" "\<forall>i j. i \<noteq> j \<longrightarrow> ms_own m i \<inter> ms_own m j = {}"
    and inv: "\<And>i. srv_inv (ms_own m i) (ms_srv m i)"
    using assms(2) unfolding mds_inv_def by blast+
  show ?thesis
    using assms(1)
  proof (cases rule: mds_step.cases)
    case (src g' s')
    then show ?thesis using own inv step_inv [OF src(3) own(1)] own_src [OF own(1) src(3) own(2)]
      by (simp add: mds_inv_def mds_used_def ans_ok_def del: seqs_iff)
  next
    case (srv i v)
    have dj: "(ms_own m i \<union> ans_seqs None) \<inter> ms_own m j = {}" if "j \<noteq> i" for j using own(3) that by simp
    have "ans_ok (ms_own m i) None" by (simp add: ans_ok_def)
    from mds_inv_server [OF srv(2) this dj inv]
    show ?thesis using own inv by (simp add: mds_inv_def srv(1) del: seqs_iff)
  next
    case (srv_super r s' i v)
    note G = own_grow [OF own(1) srv_super(2) own(2,3), of i]
    have dj: "(ms_own m i \<union> ans_seqs (Some r)) \<inter> ms_own m j = {}" if "j \<noteq> i" for j
      using G(3) [rule_format, of i j] that by (simp del: seqs_iff)
    note M = mds_inv_server [OF srv_super(3) G(1) dj inv]
    have "mds_used m' = mds_used m \<union> ans_seqs g" using M(1) by (simp add: srv_super(1) mds_used_def)
    moreover have "srv_inv (ms_own m' j) (ms_srv m' j)" for j
      using M(3) inv [of j] by (cases "j = i") (simp_all add: srv_super(1))
    moreover have "good (ms_src m')" "ms_own m' = (ms_own m)(i := ms_own m i \<union> seqs r)" "ms_src m' = s'"
      using step_inv [OF srv_super(2) own(1)] by (simp_all add: srv_super(1))
    ultimately show ?thesis using G(2,3) M(2) unfolding mds_inv_def by metis
  qed
qed

lemma mds_source: "seq_source (mds_inv good used) mds_used (mds_step io_ok step)"
  by unfold_locales (use mds_inv_step in blast)+

lemma fid_inv_step:
  assumes "fid_step step m m'" "fid_inv good used m"
  shows "fid_inv good used m'"
proof -
  have own: "good (fs_src m)" "\<forall>i. fs_own m i \<subseteq> used (fs_src m)" "\<forall>i j. i \<noteq> j \<longrightarrow> fs_own m i \<inter> fs_own m j = {}"
    and cli: "\<forall>i. cli_inv (fs_own m i) (fs_cli m i)"
    using assms(2) unfolding fid_inv_def by blast+
  show ?thesis
    using assms(1)
  proof (cases rule: fid_step.cases)
    case (src g s')
    then show ?thesis using own cli step_inv [OF src(2) own(1)] own_src [OF own(1) src(2) own(2)]
      by (simp add: fid_inv_def del: seqs_iff)
  next
    case (cli i c)
    have "cli_inv (fs_own m i) c"
      using cli_inv_step [OF cli(2), of "fs_own m i"] \<open>\<forall>i. cli_inv (fs_own m i) (fs_cli m i)\<close> by (simp add: ans_ok_def)
    then show ?thesis using own \<open>\<forall>i. cli_inv (fs_own m i) (fs_cli m i)\<close> by (simp add: fid_inv_def cli(1))
  next
    case (cli_meta r s' i c)
    note G = own_grow [OF own(1) cli_meta(2) own(2,3), of i]
    have "cli_inv (fs_own m i \<union> seqs r) c"
      using cli_inv_step [OF cli_meta(3), of "fs_own m i"] cli G(1) by (simp del: seqs_iff)
    then show ?thesis using G(2,3) step_inv [OF cli_meta(2) own(1)] cli
      by (simp add: fid_inv_def cli_meta(1) del: seqs_iff)
  qed
qed

lemma fid_reach_inv: "fid_reach step m0 m \<Longrightarrow> fid_inv good used m0 \<Longrightarrow> fid_inv good used m"
  by (induction rule: fid_reach.induct) (auto intro: fid_inv_step)

lemma fid_inv_unique:
  assumes "fid_inv good used m"
  shows "distinct (cl_fids (fs_cli m i))"
    and "i \<noteq> j \<Longrightarrow> set (cl_fids (fs_cli m i)) \<inter> set (cl_fids (fs_cli m j)) = {}"
    and "f \<in> set (cl_fids (fs_cli m i)) \<Longrightarrow> f_seq f \<notin> set (cl_whole (fs_cli m j))"
    and "distinct (cl_whole (fs_cli m i))"
    and "i \<noteq> j \<Longrightarrow> set (cl_whole (fs_cli m i)) \<inter> set (cl_whole (fs_cli m j)) = {}"
proof -
  have c: "cli_inv (fs_own m i) (fs_cli m i)" for i using assms by (simp add: fid_inv_def)
  have d: "i \<noteq> j \<Longrightarrow> fs_own m i \<inter> fs_own m j = {}" for i j using assms by (simp add: fid_inv_def)
  have sub: "f_seq ` set (cl_fids (fs_cli m i)) \<subseteq> fs_own m i" "set (cl_whole (fs_cli m i)) \<subseteq> fs_own m i" for i
    using c [of i] unfolding cli_inv_def cli_fid_inv_def cli_seq_inv_def Let_def by blast+
  show "distinct (cl_fids (fs_cli m i))" "distinct (cl_whole (fs_cli m i))"
    using c [of i] by (simp_all add: cli_inv_def cli_fid_inv_def Let_def)
  show "i \<noteq> j \<Longrightarrow> set (cl_fids (fs_cli m i)) \<inter> set (cl_fids (fs_cli m j)) = {}" using sub(1) [of i] sub(1) [of j] d [of i j] by blast
  show "i \<noteq> j \<Longrightarrow> set (cl_whole (fs_cli m i)) \<inter> set (cl_whole (fs_cli m j)) = {}" using sub(2) [of i] sub(2) [of j] d [of i j] by blast
  show "f \<in> set (cl_fids (fs_cli m i)) \<Longrightarrow> f_seq f \<notin> set (cl_whole (fs_cli m j))"
  proof (cases "i = j")
    case True
    then show "f \<in> set (cl_fids (fs_cli m i)) \<Longrightarrow> f_seq f \<notin> set (cl_whole (fs_cli m j))"
      using c [of i] unfolding cli_inv_def cli_fid_inv_def Let_def by blast
  next
    case False
    then show "f \<in> set (cl_fids (fs_cli m i)) \<Longrightarrow> f_seq f \<notin> set (cl_whole (fs_cli m j))"
      using sub(1) [of i] sub(2) [of j] d [of i j] by blast
  qed
qed

end

interpretation mds: seq_source "mds_inv ctl_inv sv_issued" mds_used "mds_step io_ok ctl_step"
  by (rule ctl.mds_source)

section \<open>Fresh systems\<close>

definition disk_empty :: seq_disk where
  "disk_empty = \<lparr>sd_durable = None, sd_journal = [], sd_cbs = 0\<rparr>"

definition ctl_boot :: "srv \<Rightarrow> bool" where
  "ctl_boot s \<longleftrightarrow> sv_issued s = {} \<and>
     (\<exists>io node seq. seq_restart io LUSTRE_SEQ_CONTROLLER node seq disk_empty = Some (0, sv_seq s, sv_disk s))"

definition srv_boot :: "srv \<Rightarrow> bool" where
  "srv_boot s \<longleftrightarrow> sv_issued s = {} \<and>
     (\<exists>io node seq. io_ok io \<and> seq_restart io LUSTRE_SEQ_SERVER node seq disk_empty = Some (0, sv_seq s, sv_disk s))"

definition cli_boot :: "cli \<Rightarrow> bool" where
  "cli_boot c \<longleftrightarrow> cl_fids c = [] \<and> cl_whole c = [] \<and> cl_taken c = {} \<and> (\<forall>t. cl_pc c t = Idle) \<and>
     (\<exists>exp type srv seq. seq_client_init exp type srv 0 seq = Some (0, cl_seq c))"

definition mds_boot :: "srv mds_sys \<Rightarrow> bool" where
  "mds_boot m \<longleftrightarrow> ctl_boot (ms_src m) \<and> (\<forall>i. srv_boot (ms_srv m i) \<and> ms_own m i = {})"

definition fid_boot :: "srv mds_sys fid_sys \<Rightarrow> bool" where
  "fid_boot m \<longleftrightarrow> mds_boot (fs_src m) \<and> (\<forall>i. cli_boot (fs_cli m i) \<and> fs_own m i = {})"

lemma ctl_boot_inv: "ctl_boot s \<Longrightarrow> ctl_inv s"
proof -
  assume b: "ctl_boot s"
  then obtain io node seq where r: "seq_restart io LUSTRE_SEQ_CONTROLLER node seq disk_empty = Some (0, sv_seq s, sv_disk s)"
    by (auto simp: ctl_boot_def)
  let ?s = "\<lparr>sv_seq = seq, sv_disk = disk_empty, sv_issued = {}\<rparr>"
  have "ctl_inv (?s\<lparr>sv_seq := sv_seq s, sv_disk := sv_disk s\<rparr>)"
    using r by (intro ctl_restart_inv) (auto simp: seq_files_def disk_empty_def)
  moreover have "?s\<lparr>sv_seq := sv_seq s, sv_disk := sv_disk s\<rparr> = s" using b by (simp add: ctl_boot_def)
  ultimately show ?thesis by simp
qed

lemma srv_boot_inv: "srv_boot s \<Longrightarrow> srv_inv {} s"
proof -
  assume b: "srv_boot s"
  then obtain io node seq where io: "io_ok io"
    and r: "seq_restart io LUSTRE_SEQ_SERVER node seq disk_empty = Some (0, sv_seq s, sv_disk s)"
    by (auto simp: srv_boot_def)
  have r': "seq_restart io LUSTRE_SEQ_SERVER node seq disk_empty =
    seq_restart io LUSTRE_SEQ_SERVER node (seq\<lparr>lss_space := lu_seq_range_init, lss_lowater_set := lu_seq_range_init,
      lss_hiwater_set := lu_seq_range_init, lss_need_sync := 0\<rparr>) disk_empty"
    by (simp add: seq_restart_def seq_server_init_def Let_def disk_empty_def disk_crash_def seq_file_def)
  have "seq_inv {} {} (seq\<lparr>lss_space := lu_seq_range_init, lss_lowater_set := lu_seq_range_init,
      lss_hiwater_set := lu_seq_range_init, lss_need_sync := 0\<rparr>) disk_empty"
    by (simp add: seq_inv_def srv_mem_inv_def srv_disk_inv_def srv_sync_inv_def disk_empty_def seq_files_def seq_file_def)
  from restart_inv [OF this io r [unfolded r']] show ?thesis using b by (simp add: srv_inv_def srv_boot_def)
qed

lemma cli_boot_inv: "cli_boot c \<Longrightarrow> cli_inv {} c"
proof -
  assume b: "cli_boot c"
  then obtain exp type srv seq where i: "seq_client_init exp type srv 0 seq = Some (0, cl_seq c)"
    by (auto simp: cli_boot_def)
  have "lcs_update s = 0 \<and> lcs_fid s = fid_zero \<and> lcs_space s = lu_seq_range_init \<and> cli_type_inv s"
    if "seq_client_init exp type srv 0 seq = Some (0, s)" for s
    using that by (auto simp: seq_client_init_def seq_client_flush_def Let_def cli_type_inv_def split: if_splits)
  from this [OF i] show ?thesis using b
    by (simp add: cli_boot_def cli_inv_def cli_lock_inv_def cli_seq_inv_def cli_fid_inv_def cli_got_inv_def Let_def
        bump_None fid_is_zero_def fid_zero_def)
qed

lemma mds_boot_inv: "mds_boot m \<Longrightarrow> mds_inv ctl_inv sv_issued m"
  by (simp add: mds_boot_def mds_inv_def ctl_boot_inv srv_boot_inv)

lemma fid_boot_inv: "fid_boot m \<Longrightarrow> fid_inv (mds_inv ctl_inv sv_issued) mds_used m"
  by (simp add: fid_boot_def fid_inv_def mds_boot_inv cli_boot_inv)

lemma distinct_concat_family:
  "(\<And>i. distinct (f i)) \<Longrightarrow> (\<And>i j. i \<noteq> j \<Longrightarrow> set (f i) \<inter> set (f j) = {}) \<Longrightarrow>
   distinct (concat (map f [0..<n]))"
proof (induction n)
  case (Suc n)
  have "set (f n) \<inter> set (f a) = {}" if "a < n" for a using that Suc.prems(2) by simp
  then have "set (concat (map f [0..<n])) \<inter> set (f n) = {}" by (auto simp: disjoint_iff)
  then show ?case using Suc by simp
qed simp

text \<open>
  C1. FIDs are unique. In every state that controller, metadata servers and clients reach from a
  fresh system - with commits that lag behind, commit callbacks that run late, lost replies, power
  failures and restarts of the servers, client flushes, and any interleaving of the threads of each
  client - all FIDs the clients returned are pairwise distinct, and none of them lies in a sequence
  that was handed out as a whole. The stores of the metadata servers are assumed to succeed; those
  of the controller may fail.
\<close>

theorem fid_unique:
  assumes "fid_boot m0" "fid_reach (mds_step io_ok ctl_step) m0 m"
  shows "distinct (concat (map (\<lambda>i. cl_fids (fs_cli m i)) [0..<n])) \<and>
         f_seq ` set (concat (map (\<lambda>i. cl_fids (fs_cli m i)) [0..<n])) \<inter>
         set (concat (map (\<lambda>i. cl_whole (fs_cli m i)) [0..<n])) = {}"
proof
  have inv: "fid_inv (mds_inv ctl_inv sv_issued) mds_used m"
    using mds.fid_reach_inv [OF assms(2) fid_boot_inv [OF assms(1)]] .
  show "distinct (concat (map (\<lambda>i. cl_fids (fs_cli m i)) [0..<n]))"
    using mds.fid_inv_unique(1,2) [OF inv] by (rule distinct_concat_family)
  show "f_seq ` set (concat (map (\<lambda>i. cl_fids (fs_cli m i)) [0..<n])) \<inter>
         set (concat (map (\<lambda>i. cl_whole (fs_cli m i)) [0..<n])) = {}"
    using mds.fid_inv_unique(3) [OF inv] by auto
qed

section \<open>The low-water set after a restart\<close>

lemma seq_restart_durable:
  assumes "sd_durable d = Some r" "lu_seq_range_is_sane r"
  shows "seq_restart io LUSTRE_SEQ_SERVER node seq d =
    Some (0, seq\<lparr>lss_cli := None, lss_type := LUSTRE_SEQ_SERVER, lss_node_id := node, lss_space := r,
                 lss_lowater_set := lu_seq_range_init, lss_hiwater_set := lu_seq_range_init,
                 lss_set_width := LUSTRE_SEQ_BATCH_WIDTH, lss_width := LUSTRE_SEQ_META_WIDTH, lss_need_sync := 0\<rparr>,
          disk_crash d)"
  using assms by (simp add: seq_restart_def disk_crash_def seq_file_def seq_server_init_def seq_store_read_def errno_defs Let_def)

lemma range_space_pos: "\<not> lu_seq_range_is_exhausted r \<Longrightarrow> 1 \<le> lu_seq_range_space r"
  unfolding lu_seq_range_is_exhausted_def by (simp add: word_le_nat_alt word_neq_0_conv unat_gt_0 Suc_leI)

lemma min_batch_pos: "1 \<le> (s::u64) \<Longrightarrow> 1 \<le> min s LUSTRE_SEQ_BATCH_WIDTH"
  by (simp add: const_defs word_le_nat_alt min_def)

lemma range_space_cut: "lu_seq_range_space (r\<lparr>lsr_start := a, lsr_end := a + w\<rparr>) = w"
  by (simp add: lu_seq_range_space_def)

lemma seq_set_init_sets:
  assumes "seq_set_init io seq d = (rc, seq1, d1)"
  shows "seq1 = (let (lo, space) = range_alloc (lss_lowater_set seq) (lss_space seq) (lss_set_width seq);
                     (hi, space) = range_alloc (lss_hiwater_set seq) space (lss_set_width seq)
                 in seq\<lparr>lss_space := space, lss_lowater_set := lo, lss_hiwater_set := hi\<rparr>)"
  using assms seq_store_update_frame(2) [where sync = True and io = io and out = False]
  by (auto simp: seq_set_init_def Let_def split: prod.splits)

lemma alloc_meta_first:
  assumes sp: "lu_seq_range_is_sane (lss_space seq)" "\<not> lu_seq_range_is_exhausted (lss_space seq)"
    and lo: "lu_seq_range_is_zero (lss_lowater_set seq)" and w: "lss_width seq = LUSTRE_SEQ_META_WIDTH"
    and b: "lss_set_width seq = LUSTRE_SEQ_BATCH_WIDTH" and i: "seq_set_init io0 seq d = (rc, seq1, d1)"
  shows "seq_server_alloc_meta io0 io1 io2 direct rpc fld_rc False n out seq d =
    Some (0, out\<lparr>lsr_start := lsr_start (lss_space seq), lsr_end := lsr_start (lss_space seq) + 1\<rparr>,
          seq1\<lparr>lss_lowater_set := (lss_lowater_set seq1)\<lparr>lsr_start := lsr_start (lss_space seq) + 1\<rparr>\<rparr>, d1)"
proof -
  let ?s = "lsr_start (lss_space seq)" and ?w = "min (lu_seq_range_space (lss_space seq)) LUSTRE_SEQ_BATCH_WIDTH"
  have w1: "1 \<le> ?w" using min_batch_pos [OF range_space_pos [OF sp(2)]] .
  then have w0: "?w \<noteq> 0" by (metis word_not_simps(1) word_le_0_iff one_neq_zero)
  have eq: "lss_lowater_set seq1 = (lss_lowater_set seq)\<lparr>lsr_start := ?s, lsr_end := ?s + ?w\<rparr>" "lss_width seq1 = LUSTRE_SEQ_META_WIDTH"
    using seq_set_init_sets [OF i] b w by (simp_all add: range_alloc_def Let_def)
  have "\<not> lu_seq_range_is_zero (lss_lowater_set seq1)" "\<not> lu_seq_range_is_exhausted (lss_lowater_set seq1)"
    using w0 by (auto simp: eq lu_seq_range_is_zero_def exhausted_iff)
  moreover have "min ?w LUSTRE_SEQ_META_WIDTH = 1" using w1 by (simp add: const_defs min_def)
  ultimately show ?thesis
    using sp lo by (simp add: seq_server_alloc_meta_def seq_server_check_and_alloc_super_def i range_alloc_set_def
        range_alloc_def eq range_space_cut Let_def)
qed

text \<open>\<open>n\<close> allocations in a row.\<close>

fun meta_allocs :: "(lu_server_seq \<Rightarrow> seq_disk \<Rightarrow> (int \<times> lu_seq_range \<times> lu_server_seq \<times> seq_disk) option) \<Rightarrow> nat \<Rightarrow>
    lu_server_seq \<Rightarrow> seq_disk \<Rightarrow> ((int \<times> lu_seq_range) list \<times> lu_server_seq \<times> seq_disk) option" where
  "meta_allocs alloc 0 seq d = Some ([], seq, d)"
| "meta_allocs alloc (Suc n) seq d = do {
     (rc, out, seq, d) \<leftarrow> alloc seq d;
     (rs, seq, d) \<leftarrow> meta_allocs alloc n seq d;
     Some ((rc, out) # rs, seq, d) }"

text \<open>A server with a local controller, sequences from \<open>a\<close> to \<open>e\<close> in the low-water set and none in the
  high-water set.\<close>

definition lo_only :: "u64 \<Rightarrow> u64 \<Rightarrow> lu_server_seq \<Rightarrow> bool" where
  "lo_only a e seq \<longleftrightarrow> lsr_start (lss_lowater_set seq) = a \<and> lsr_end (lss_lowater_set seq) = e \<and>
     lu_seq_range_is_exhausted (lss_hiwater_set seq) \<and> lu_seq_range_is_sane (lss_space seq) \<and>
     lss_width seq = LUSTRE_SEQ_META_WIDTH \<and> (\<exists>cli. lss_cli seq = Some cli \<and> lcs_srv cli)"

lemma lo_only_super:
  assumes "lo_only a e seq" "e \<noteq> 0" "lu_seq_range_is_sane R"
  shows "\<exists>seq'. seq_server_check_and_alloc_super io0 (0, R) rpc fld_rc seq d = Some (0, seq', d) \<and> lo_only a e seq'"
  using assms by (auto simp: lo_only_def seq_server_check_and_alloc_super_def seq_client_alloc_super_def lu_seq_range_is_zero_def)

lemma lo_only_take:
  assumes lo: "lo_only a e seq" and a: "a < e" and R: "lu_seq_range_is_sane R"
  shows "\<exists>seq'. seq_server_alloc_meta io0 io1 io2 (0, R) rpc fld_rc False n out seq d =
    Some (0, out\<lparr>lsr_start := a, lsr_end := a + 1\<rparr>, seq', d) \<and> lo_only (a + 1) e seq'"
proof -
  have e: "e \<noteq> 0" "a \<noteq> e" using a by auto
  have "1 \<le> e - a" using range_space_pos [of "lu_seq_range_init\<lparr>lsr_start := a, lsr_end := e\<rparr>"] e
    by (simp add: lu_seq_range_is_exhausted_def lu_seq_range_space_def)
  then have w: "min (e - a) LUSTRE_SEQ_META_WIDTH = 1" by (simp add: const_defs min_def)
  obtain s where s: "seq_server_check_and_alloc_super io0 (0, R) rpc fld_rc seq d = Some (0, s, d)" "lo_only a e s"
    using lo_only_super [OF lo e(1) R] by blast
  show ?thesis using lo s e w
    by (auto simp: seq_server_alloc_meta_def range_alloc_set_def range_alloc_def lo_only_def lu_seq_range_is_zero_def
        exhausted_iff lu_seq_range_space_def Let_def)
qed

lemma lo_only_empty:
  assumes lo: "lo_only e e seq" and e: "e \<noteq> 0" and R: "lu_seq_range_is_sane R" and io: "io_ok io2"
  shows "\<exists>out' seq' d'. seq_server_alloc_meta io0 io1 io2 (0, R) rpc fld_rc False n out seq d = Some (0, out', seq', d') \<and>
    lu_seq_range_is_exhausted out'"
proof -
  obtain s where s: "seq_server_check_and_alloc_super io0 (0, R) rpc fld_rc seq d = Some (0, s, d)" "lo_only e e s"
    using lo_only_super [OF lo e R] by blast
  obtain rc s' d' where sw: "range_switch_set io2 n s d = (rc, s', d')" by (metis prod_cases3)
  have "rc = 0 \<and> lss_lowater_set s' = lss_hiwater_set s \<and> lss_width s' = lss_width s"
    using sw seq_store_update_ok [OF io]
    by (cases "lss_need_sync s = 0") (auto simp: range_switch_set_def Let_def split: prod.splits if_splits)
  moreover have "min 0 (lss_width s) = 0" by (simp add: min_def)
  ultimately show ?thesis using lo s e sw
    by (auto simp: seq_server_alloc_meta_def range_alloc_set_def range_alloc_def lo_only_def lu_seq_range_is_zero_def
        exhausted_iff lu_seq_range_space_def lu_seq_range_is_sane_def Let_def)
qed

text \<open>The answers that hand out the \<open>k\<close> sequences from \<open>a\<close> on, one each.\<close>

definition one_each :: "lu_seq_range \<Rightarrow> u64 \<Rightarrow> nat \<Rightarrow> (int \<times> lu_seq_range) list" where
  "one_each out a k = map (\<lambda>i. (0, out\<lparr>lsr_start := a + of_nat i, lsr_end := a + of_nat i + 1\<rparr>)) [0..<k]"

lemma one_each_Suc: "one_each out a (Suc k) = (0, out\<lparr>lsr_start := a, lsr_end := a + 1\<rparr>) # one_each out (a + 1) k"
  by (simp add: one_each_def map_upt_Suc add.assoc del: upt_Suc)

lemma lo_only_run:
  assumes "lo_only a e seq" "unat a + k = unat e" "e \<noteq> 0" "lu_seq_range_is_sane R" "io_ok io2"
  shows "\<exists>er seq' d'. meta_allocs (seq_server_alloc_meta io0 io1 io2 (0, R) rpc fld_rc False n out) (Suc k) seq d =
    Some (one_each out a k @ [(0, er)], seq', d') \<and> lu_seq_range_is_exhausted er"
  using assms(1,2)
proof (induction k arbitrary: a seq d)
  case 0
  then have "a = e" by (simp add: word_unat_eq_iff)
  then have "lo_only e e seq" using 0 by simp
  from lo_only_empty [OF this assms(3-5), of io0 io1 rpc fld_rc n out d] show ?case by (auto simp: one_each_def)
next
  case (Suc k)
  have a: "a < e" using Suc.prems(2) by (simp add: word_less_nat_alt)
  have "unat (a + 1) = unat a + 1"
    using Suc.prems(2) unat_lt_bound [of e] unat_plus_no_wrap [of a 1] by simp
  then have k: "unat (a + 1) + k = unat e" using Suc.prems(2) by simp
  obtain seq1 where 1: "seq_server_alloc_meta io0 io1 io2 (0, R) rpc fld_rc False n out seq d =
      Some (0, out\<lparr>lsr_start := a, lsr_end := a + 1\<rparr>, seq1, d)" "lo_only (a + 1) e seq1"
    using lo_only_take [OF Suc.prems(1) a assms(4)] by blast
  obtain er seq' d' where 2: "meta_allocs (seq_server_alloc_meta io0 io1 io2 (0, R) rpc fld_rc False n out) (Suc k) seq1 d =
      Some (one_each out (a + 1) k @ [(0, er)], seq', d')" "lu_seq_range_is_exhausted er"
    using Suc.IH [OF 1(2) k, of d] by blast
  have "meta_allocs (seq_server_alloc_meta io0 io1 io2 (0, R) rpc fld_rc False n out) (Suc (Suc k)) seq d =
      Some (one_each out a (Suc k) @ [(0, er)], seq', d')"
    by (subst meta_allocs.simps(2)) (simp add: 1(1) 2(1) one_each_Suc del: meta_allocs.simps)
  then show ?case using 2(2) by blast
qed

section \<open>Concrete runs\<close>

definition io_good :: seq_io where
  "io_good = \<lparr>io_rdonly = False, io_create = 0, io_declare = 0, io_fld_declare = 0, io_start = 0, io_write = 0,
     io_fld_create = 0, io_cb_alloc = True, io_cb_add = 0\<rparr>"

definition io_eio :: seq_io where
  "io_eio = io_good\<lparr>io_write := - EIO\<rparr>"

definition seq_zero :: lu_server_seq where
  "seq_zero = \<lparr>lss_space = lu_seq_range_init, lss_lowater_set = lu_seq_range_init,
     lss_hiwater_set = lu_seq_range_init, lss_type = LUSTRE_SEQ_SERVER, lss_cli = None, lss_width = 0,
     lss_set_width = 0, lss_need_sync = 0, lss_node_id = 0\<rparr>"

definition local_cli :: lu_client_seq where
  "local_cli = \<lparr>lcs_exp = False, lcs_space = lu_seq_range_init, lcs_fid = fid_zero,
     lcs_type = LUSTRE_SEQ_METADATA, lcs_width = LUSTRE_METADATA_SEQ_MAX_WIDTH, lcs_srv = True, lcs_update = 0\<rparr>"

definition ex_range :: "u64 \<Rightarrow> u64 \<Rightarrow> lu_seq_range" where
  "ex_range a b = \<lparr>lsr_start = a, lsr_end = b, lsr_index = 0, lsr_flags = 0\<rparr>"

lemmas ex_defs = io_good_def io_eio_def seq_zero_def local_cli_def ex_range_def disk_empty_def disk_crash_def seq_file_def
  seq_restart_def seq_server_init_def seq_store_read_def seq_store_update_def seq_update_cb_add_def
  seq_server_set_cli_def seq_server_alloc_super_def seq_server_alloc_meta_def seq_server_check_and_alloc_super_def
  seq_client_alloc_super_def range_alloc_set_def range_switch_set_def seq_set_init_def range_alloc_def
  lu_seq_range_is_zero_def lu_seq_range_is_exhausted_def lu_seq_range_is_sane_def lu_seq_range_space_def
  lu_seq_range_init_def LUSTRE_SEQ_SPACE_RANGE_def LUSTRE_SEQ_ZERO_RANGE_def const_defs errno_defs

definition ex_ctl :: "nat \<Rightarrow> srv" where
  "ex_ctl n = (let seq = seq_zero\<lparr>lss_type := LUSTRE_SEQ_CONTROLLER, lss_set_width := LUSTRE_SEQ_BATCH_WIDTH,
                            lss_width := LUSTRE_SEQ_SUPER_WIDTH, lss_need_sync := 1\<rparr>
     in if n = 0 then \<lparr>sv_seq = seq\<lparr>lss_space := LUSTRE_SEQ_SPACE_RANGE\<rparr>,
               sv_disk = \<lparr>sd_durable = None, sd_journal = [(LUSTRE_SEQ_SPACE_RANGE, True)], sd_cbs = 0\<rparr>, sv_issued = {}\<rparr>
        else \<lparr>sv_seq = seq\<lparr>lss_space := ex_range 0x240000400 0xFFFFFFFFFFFFFFFF\<rparr>,
               sv_disk = \<lparr>sd_durable = Some (ex_range 0x240000400 0xFFFFFFFFFFFFFFFF), sd_journal = [], sd_cbs = 1\<rparr>,
               sv_issued = seqs (ex_range 0x200000400 0x240000400)\<rparr>)"

lemma ex_ctl_boot: "ctl_boot (ex_ctl 0)"
  unfolding ctl_boot_def
proof (intro conjI exI)
  show "seq_restart io_good LUSTRE_SEQ_CONTROLLER 0 seq_zero disk_empty = Some (0, sv_seq (ex_ctl 0), sv_disk (ex_ctl 0))"
    by (simp add: ex_ctl_def ex_defs)
qed (simp add: ex_ctl_def)

lemma ex_ctl_step: "ctl_step (Some (ex_range 0x200000400 0x240000400)) (ex_ctl 0) (ex_ctl 1)"
proof -
  have "seq_server_alloc_super io_good lu_seq_range_init (sv_seq (ex_ctl 0)) (sv_disk (ex_ctl 0)) =
      Some (0, ex_range 0x200000400 0x240000400, sv_seq (ex_ctl 1), sv_disk (ex_ctl 1))"
    by (simp add: ex_ctl_def ex_defs)
  from ctl_step.super [OF _ this] show ?thesis by (simp add: ex_ctl_def io_good_def)
qed

definition ex_srv :: "nat \<Rightarrow> srv" where
  "ex_srv n = (let seq = seq_zero\<lparr>lss_set_width := LUSTRE_SEQ_BATCH_WIDTH, lss_width := LUSTRE_SEQ_META_WIDTH,
                                  lss_need_sync := 1\<rparr>;
                   d = \<lparr>sd_durable = None, sd_journal = [(LUSTRE_SEQ_ZERO_RANGE, True)], sd_cbs = 0\<rparr>
     in if n = 0 then \<lparr>sv_seq = seq, sv_disk = d, sv_issued = {}\<rparr>
        else if n = 1 then \<lparr>sv_seq = seq\<lparr>lss_cli := Some local_cli\<rparr>, sv_disk = d, sv_issued = {}\<rparr>
        else \<lparr>sv_seq = seq\<lparr>lss_cli := Some (local_cli\<lparr>lcs_space := ex_range 0x200000400 0x240000400\<rparr>),
                 lss_space := ex_range 0x200000bd0 0x240000400,
                 lss_lowater_set := ex_range 0x200000401 0x2000007e8,
                 lss_hiwater_set := ex_range 0x2000007e8 0x200000bd0\<rparr>,
               sv_disk = \<lparr>sd_durable = Some (ex_range 0x200000bd0 0x240000400), sd_journal = [], sd_cbs = 1\<rparr>,
               sv_issued = seqs (ex_range 0x200000400 0x200000401)\<rparr>)"

lemma ex_srv_boot: "srv_boot (ex_srv 0)"
  unfolding srv_boot_def
proof (intro conjI exI)
  show "seq_restart io_good LUSTRE_SEQ_SERVER 0 seq_zero disk_empty = Some (0, sv_seq (ex_srv 0), sv_disk (ex_srv 0))"
    by (simp add: ex_srv_def ex_defs)
qed (simp_all add: ex_srv_def io_ok_def io_good_def)

lemma ex_srv_step1: "srv_step io_ok None None (ex_srv 0) (ex_srv 1)"
  using srv_step.set_cli [of "Some local_cli" "ex_srv 0"] by (simp add: ex_srv_def ex_defs)

lemma ex_srv_step2:
  "srv_step io_ok (Some (ex_range 0x200000400 0x240000400)) (Some (ex_range 0x200000400 0x200000401)) (ex_srv 1) (ex_srv 2)"
proof -
  have "seq_server_alloc_meta io_good io_good io_good (0, ex_range 0x200000400 0x240000400) Rpc_nomem 0 False 0
      lu_seq_range_init (sv_seq (ex_srv 1)) (sv_disk (ex_srv 1)) =
      Some (0, ex_range 0x200000400 0x200000401, sv_seq (ex_srv 2), sv_disk (ex_srv 2))"
    by (simp add: ex_srv_def ex_defs)
  from srv_step.meta [OF _ _ _ _ this] show ?thesis
    by (simp add: ex_srv_def io_ok_def io_good_def seq_zero_def lu_seq_range_init_def exhausted_iff)
qed

definition ex_cli :: "nat \<Rightarrow> cli" where
  "ex_cli n =
     (let c = \<lparr>cl_seq = local_cli, cl_pc = (\<lambda>_. Idle), cl_fids = [], cl_whole = [], cl_taken = {}\<rparr>;
          sp = ex_range 0x200000401 0x200000401;
          fid = (\<lambda>o'. \<lparr>f_seq = 0x200000400, f_oid = o', f_ver = 0\<rparr>)
      in if n = 0 then c
         else if n = 1 then c\<lparr>cl_seq := local_cli\<lparr>lcs_update := 1\<rparr>, cl_pc := (\<lambda>_. Idle)(0 := Getting False)\<rparr>
         else if n = 2 then c\<lparr>cl_seq := local_cli\<lparr>lcs_update := 1, lcs_space := sp\<rparr>,
                   cl_pc := (\<lambda>_. Idle)(0 := Got False 0 0x200000400), cl_taken := {0x200000400}\<rparr>
         else if n = 3 then c\<lparr>cl_seq := local_cli\<lparr>lcs_space := sp, lcs_fid := fid 1\<rparr>,
                   cl_pc := (\<lambda>_. Idle)(0 := Idle), cl_fids := [fid 1], cl_taken := {0x200000400}\<rparr>
         else c\<lparr>cl_seq := local_cli\<lparr>lcs_space := sp, lcs_fid := fid 2\<rparr>,
                   cl_pc := (\<lambda>_. Idle)(0 := Idle), cl_fids := [fid 2, fid 1], cl_taken := {0x200000400}\<rparr>)"

lemma ex_cli_boot: "cli_boot (ex_cli 0)"
  unfolding cli_boot_def
proof (intro conjI exI)
  show "seq_client_init False LUSTRE_SEQ_METADATA True 0 local_cli = Some (0, cl_seq (ex_cli 0))"
    by (simp add: ex_cli_def seq_client_init_def seq_client_flush_def local_cli_def Let_def)
qed (simp_all add: ex_cli_def)

lemma ex_cli_step1: "cli_step None (ex_cli 0) (ex_cli 1)"
proof -
  have "seq_client_bump (seq_client_exhaust False (cl_seq (ex_cli 0))) = None"
    "seq_fid_alloc_prep (seq_client_exhaust False (cl_seq (ex_cli 0))) = (0, cl_seq (ex_cli 1))"
    by (simp_all add: ex_cli_def seq_client_defs local_cli_def fid_zero_def fid_is_zero_def)
  from cli_step.fid_prep [OF _ this, of 0] show ?thesis by (simp add: ex_cli_def)
qed

lemma ex_cli_step2: "cli_step (Some (ex_range 0x200000400 0x200000401)) (ex_cli 1) (ex_cli 2)"
proof -
  have "seq_client_alloc_seq (0, ex_range 0x200000400 0x200000401) [] (cl_seq (ex_cli 1)) =
      Some (0, 0x200000400, cl_seq (ex_cli 2))"
    by (simp add: ex_cli_def seq_client_defs local_cli_def ex_range_def lu_seq_range_init_def lu_seq_range_is_sane_def
        exhausted_iff Let_def)
  moreover have "cli_answer (Some (ex_range 0x200000400 0x200000401)) (cl_seq (ex_cli 1)) (0, ex_range 0x200000400 0x200000401) []"
    by (simp add: ex_cli_def local_cli_def exhausted_iff lu_seq_range_init_def)
  moreover have "cl_pc (ex_cli 1) 0 = Getting False" by (simp add: ex_cli_def)
  ultimately show ?thesis
    using cli_step.alloc [of "ex_cli 1" 0 False] by (fastforce simp: ex_cli_def)
qed

lemma ex_cli_step3: "cli_step None (ex_cli 2) (ex_cli 3)"
proof -
  have "seq_fid_alloc_fini (if (0::int) \<noteq> 0 then 0 else 0x200000400) False (cl_seq (ex_cli 2)) = Some (cl_seq (ex_cli 3))"
    by (simp add: ex_cli_def seq_client_defs local_cli_def Let_def const_defs)
  from cli_step.fini [OF _ this, of 0] show ?thesis by (simp add: ex_cli_def)
qed

lemma ex_cli_step4: "cli_step None (ex_cli 3) (ex_cli 4)"
proof -
  have "seq_client_bump (seq_client_exhaust False (cl_seq (ex_cli 3))) = Some (cl_seq (ex_cli 4))"
    by (simp add: ex_cli_def seq_client_defs local_cli_def fid_is_zero_def const_defs)
  from cli_step.fid_bump [OF _ this, of 0] show ?thesis by (simp add: ex_cli_def)
qed

text \<open>The system: server 0 attaches to the controller; client 0 takes the sequence
  \<open>0x200000400\<close> through both stages and returns two FIDs.\<close>

definition ex_sys :: "nat \<Rightarrow> nat \<Rightarrow> nat \<Rightarrow> srv mds_sys fid_sys" where
  "ex_sys a b c = \<lparr>fs_src = \<lparr>ms_src = ex_ctl a, ms_srv = (\<lambda>_. ex_srv 0)(0 := ex_srv b),
                            ms_own = (\<lambda>_. {})(0 := if a = 0 then {} else seqs (ex_range 0x200000400 0x240000400))\<rparr>,
                  fs_cli = (\<lambda>_. ex_cli 0)(0 := ex_cli c),
                  fs_own = (\<lambda>_. {})(0 := if a = 0 then {} else seqs (ex_range 0x200000400 0x200000401))\<rparr>"

lemma ex_fid_boot: "fid_boot (ex_sys 0 0 0)"
  by (simp add: fid_boot_def mds_boot_def ex_sys_def ex_ctl_boot ex_srv_boot ex_cli_boot)

lemma ex_mds_step1: "mds_step io_ok ctl_step None (fs_src (ex_sys 0 0 0)) (fs_src (ex_sys 0 1 0))"
  using mds_step.srv [of io_ok None "fs_src (ex_sys 0 0 0)" 0 "ex_srv 1" ctl_step] ex_srv_step1 by (simp add: ex_sys_def)

lemma ex_mds_step2:
  "mds_step io_ok ctl_step (Some (ex_range 0x200000400 0x200000401)) (fs_src (ex_sys 0 1 0)) (fs_src (ex_sys 1 2 0))"
  using mds_step.srv_super [where step = ctl_step and m = "fs_src (ex_sys 0 1 0)" and s' = "ex_ctl 1" and i = 0
      and v = "ex_srv 2" and ok = io_ok] ex_ctl_step ex_srv_step2 by (fastforce simp: ex_sys_def)

lemma ex_sys_src: "fs_src (ex_sys a b c) = fs_src (ex_sys a b 0)"
  by (simp add: ex_sys_def)

lemma ex_fid_reach: "fid_reach (mds_step io_ok ctl_step) (ex_sys 0 0 0) (ex_sys 1 2 4)"
proof -
  have 1: "fid_step (mds_step io_ok ctl_step) (ex_sys 0 0 0) (ex_sys 0 1 0)"
    using fid_step.src [where step = "mds_step io_ok ctl_step" and m = "ex_sys 0 0 0", OF ex_mds_step1] by (simp add: ex_sys_def)
  have 2: "fid_step (mds_step io_ok ctl_step) (ex_sys 0 1 0) (ex_sys 0 1 1)"
    using fid_step.cli [of "ex_sys 0 1 0" 0 "ex_cli 1"] ex_cli_step1 by (simp add: ex_sys_def)
  have "mds_step io_ok ctl_step (Some (ex_range 0x200000400 0x200000401)) (fs_src (ex_sys 0 1 1)) (fs_src (ex_sys 1 2 2))"
    using ex_mds_step2 ex_sys_src [of 0 1 1] ex_sys_src [of 1 2 2] by simp
  from fid_step.cli_meta [where step = "mds_step io_ok ctl_step" and m = "ex_sys 0 1 1" and i = 0 and c = "ex_cli 2", OF this]
  have 3: "fid_step (mds_step io_ok ctl_step) (ex_sys 0 1 1) (ex_sys 1 2 2)"
    using ex_cli_step2 by (simp add: ex_sys_def)
  have 4: "fid_step (mds_step io_ok ctl_step) (ex_sys 1 2 2) (ex_sys 1 2 3)"
    using fid_step.cli [of "ex_sys 1 2 2" 0 "ex_cli 3"] ex_cli_step3 by (simp add: ex_sys_def)
  have 5: "fid_step (mds_step io_ok ctl_step) (ex_sys 1 2 3) (ex_sys 1 2 4)"
    using fid_step.cli [of "ex_sys 1 2 3" 0 "ex_cli 4"] ex_cli_step4 by (simp add: ex_sys_def)
  show ?thesis by (intro fid_reach_step [OF _ 5] fid_reach_step [OF _ 4] fid_reach_step [OF _ 3]
        fid_reach_step [OF _ 2] fid_reach_step [OF _ 1] fid_reach_init)
qed

theorem fid_unique_witness:
  "fid_boot (ex_sys 0 0 0) \<and> fid_reach (mds_step io_ok ctl_step) (ex_sys 0 0 0) (ex_sys 1 2 4) \<and>
   concat (map (\<lambda>i. cl_fids (fs_cli (ex_sys 1 2 4) i)) [0..<2]) =
     [\<lparr>f_seq = 0x200000400, f_oid = 2, f_ver = 0\<rparr>, \<lparr>f_seq = 0x200000400, f_oid = 1, f_ver = 0\<rparr>] \<and>
   distinct (concat (map (\<lambda>i. cl_fids (fs_cli (ex_sys 1 2 4) i)) [0..<2]))"
  using fid_unique [OF ex_fid_boot ex_fid_reach, of 2] ex_fid_boot ex_fid_reach
  by (simp add: upt_rec [of 0 2] upt_rec [of 1 2] ex_sys_def ex_cli_def)

text \<open>
  C2. The super-sequences a controller hands out are pairwise disjoint, sane and without sequence
  zero, whatever storage errors, late commits and power failures happen in between, manual
  allocations included.
\<close>

theorem super_ranges_disjoint:
  assumes "ctl_boot s0" "seq_run ctl_step rs s0 s"
  shows "sorted_wrt (\<lambda>a b. seqs a \<inter> seqs b = {}) rs \<and> list_all (\<lambda>r. lu_seq_range_is_sane r \<and> 0 \<notin> seqs r) rs"
  using ctl.run_disjoint [OF assms(2) ctl_boot_inv [OF assms(1)]] .

theorem super_ranges_disjoint_witness:
  "seq_run ctl_step [ex_range 0x200000400 0x240000400] (ex_ctl 0) (ex_ctl 1) \<and>
   list_all (\<lambda>r. lu_seq_range_is_sane r \<and> 0 \<notin> seqs r) [ex_range 0x200000400 0x240000400]"
proof -
  have r: "seq_run ctl_step [ex_range 0x200000400 0x240000400] (ex_ctl 0) (ex_ctl 1)"
    using run_step [where step = ctl_step, OF run_nil ex_ctl_step] by simp
  from super_ranges_disjoint [OF ex_ctl_boot this] r show ?thesis by blast
qed

text \<open>
  C3. The meta-sequences that all metadata servers of a controller hand out are pairwise disjoint,
  across servers and across their restarts, as long as every store of a metadata server succeeds (\<open>io_ok\<close>);
  the controller may meet storage errors. What one failing store of a server does is shown below.
\<close>

theorem meta_ranges_disjoint:
  assumes "mds_boot m0" "seq_run (mds_step io_ok ctl_step) rs m0 m"
  shows "sorted_wrt (\<lambda>a b. seqs a \<inter> seqs b = {}) rs \<and> list_all (\<lambda>r. lu_seq_range_is_sane r \<and> 0 \<notin> seqs r) rs"
  using mds.run_disjoint [OF assms(2) mds_boot_inv [OF assms(1)]] .

theorem meta_ranges_disjoint_witness:
  "seq_run (mds_step io_ok ctl_step) [ex_range 0x200000400 0x200000401] (fs_src (ex_sys 0 0 0)) (fs_src (ex_sys 1 2 0)) \<and>
   list_all (\<lambda>r. lu_seq_range_is_sane r \<and> 0 \<notin> seqs r) [ex_range 0x200000400 0x200000401]"
proof -
  have r: "seq_run (mds_step io_ok ctl_step) [ex_range 0x200000400 0x200000401] (fs_src (ex_sys 0 0 0)) (fs_src (ex_sys 1 2 0))"
    using run_step [where step = "mds_step io_ok ctl_step", OF run_step [where step = "mds_step io_ok ctl_step", OF run_nil ex_mds_step1]
        ex_mds_step2] by simp
  have b: "mds_boot (fs_src (ex_sys 0 0 0))" using ex_fid_boot by (simp add: fid_boot_def)
  from meta_ranges_disjoint [OF b r] r show ?thesis by blast
qed

text \<open>
  C34. The metadata server ignores a failing store in \<open>__seq_set_init\<close>: whatever range is left on disk, if that store
  fails in any way the first allocation after a start still reports success and hands out the first sequence of the range, and the
  disk keeps the whole range, so that after the next restart the server hands out the same sequence again.
\<close>

theorem meta_reuse_after_store_error:
  assumes "sd_durable d = Some r" "lu_seq_range_is_sane r" "\<not> lu_seq_range_is_exhausted r"
    and "\<not> io_rdonly bad" "io_create bad \<noteq> 0 \<or> io_declare bad \<noteq> 0 \<or> io_start bad \<noteq> 0 \<or> io_write bad \<noteq> 0"
  shows "\<exists>seq1 d1 r1 seq2 d2 seq3 d3 r2 seq4 d4.
    seq_restart io LUSTRE_SEQ_SERVER node seq d = Some (0, seq1, d1) \<and>
    seq_server_alloc_meta bad io1 io2 direct rpc fld_rc False n out seq1 d1 = Some (0, r1, seq2, d2) \<and>
    seq_restart io' LUSTRE_SEQ_SERVER node' seq2 d2 = Some (0, seq3, d3) \<and>
    seq_server_alloc_meta io0 io1' io2' direct' rpc' fld_rc' False n' out' seq3 d3 = Some (0, r2, seq4, d4) \<and>
    seqs r1 = {lsr_start r} \<and> seqs r2 = {lsr_start r}"
proof -
  have one: "seqs (x\<lparr>lsr_start := lsr_start r, lsr_end := lsr_start r + 1\<rparr>) = {lsr_start r}" for x
  proof -
    have "lsr_start r < lsr_end r" using assms(2,3) by (auto simp: lu_seq_range_is_sane_def exhausted_iff order.not_eq_order_implies_strict)
    then have "unat (lsr_start r + 1) = unat (lsr_start r) + 1"
      using unat_lt_bound [of "lsr_end r"] unat_plus_no_wrap [of "lsr_start r" 1] by (simp add: word_less_nat_alt)
    then show ?thesis by (auto simp: word_less_nat_alt word_le_nat_alt word_unat_eq_iff)
  qed
  obtain seq1 where s1: "seq_restart io LUSTRE_SEQ_SERVER node seq d = Some (0, seq1, disk_crash d)" and
    e1: "lss_space seq1 = r" "lu_seq_range_is_zero (lss_lowater_set seq1)" "lss_width seq1 = LUSTRE_SEQ_META_WIDTH"
      "lss_set_width seq1 = LUSTRE_SEQ_BATCH_WIDTH"
    using seq_restart_durable [OF assms(1,2)] by (auto simp: lu_seq_range_is_zero_def lu_seq_range_init_def)
  have up: "\<exists>rc. seq_store_update bad False True s x = (rc, s, x)" for s x
    using assms(4,5) by (auto simp: seq_store_update_def)
  obtain rc seq1' where i1: "seq_set_init bad seq1 (disk_crash d) = (rc, seq1', disk_crash d)"
    unfolding seq_set_init_def Let_def case_prod_beta using up by blast
  from alloc_meta_first [OF _ _ e1(2-4) i1, unfolded e1(1), OF assms(2,3)] obtain seq2 where
    a1: "seq_server_alloc_meta bad io1 io2 direct rpc fld_rc False n out seq1 (disk_crash d) =
      Some (0, out\<lparr>lsr_start := lsr_start r, lsr_end := lsr_start r + 1\<rparr>, seq2, disk_crash d)" by blast
  have "sd_durable (disk_crash d) = Some r" using assms(1) by (simp add: disk_crash_def)
  from seq_restart_durable [OF this assms(2)] obtain seq3 d3 where
    s2: "seq_restart io' LUSTRE_SEQ_SERVER node' seq2 (disk_crash d) = Some (0, seq3, d3)" and
    e2: "lss_space seq3 = r" "lu_seq_range_is_zero (lss_lowater_set seq3)" "lss_width seq3 = LUSTRE_SEQ_META_WIDTH"
      "lss_set_width seq3 = LUSTRE_SEQ_BATCH_WIDTH"
    by (auto simp: lu_seq_range_is_zero_def lu_seq_range_init_def)
  obtain rc seq3' d3' where "seq_set_init io0 seq3 d3 = (rc, seq3', d3')" by (metis prod_cases3)
  from alloc_meta_first [OF _ _ e2(2-4) this, unfolded e2(1), OF assms(2,3)] s1 a1 s2 one show ?thesis by blast
qed

theorem meta_reuse_after_store_error_witness:
  "\<exists>seq1 d1 r1 seq2 d2 seq3 d3 r2 seq4 d4.
    seq_restart io_good LUSTRE_SEQ_SERVER 0 seq_zero
      (disk_empty\<lparr>sd_durable := Some (ex_range 0x200000400 0x240000400)\<rparr>) = Some (0, seq1, d1) \<and>
    seq_server_alloc_meta io_eio io_good io_good (- EIO, lu_seq_range_init) Rpc_nomem 0 False 0 lu_seq_range_init seq1 d1
      = Some (0, r1, seq2, d2) \<and>
    seq_restart io_good LUSTRE_SEQ_SERVER 0 seq2 d2 = Some (0, seq3, d3) \<and>
    seq_server_alloc_meta io_good io_good io_good (- EIO, lu_seq_range_init) Rpc_nomem 0 False 0 lu_seq_range_init seq3 d3
      = Some (0, r2, seq4, d4) \<and>
    seqs r1 = {0x200000400} \<and> seqs r2 = {0x200000400}"
  using meta_reuse_after_store_error [of "disk_empty\<lparr>sd_durable := Some (ex_range 0x200000400 0x240000400)\<rparr>"
      "ex_range 0x200000400 0x240000400" io_eio]
  by (simp add: ex_range_def lu_seq_range_is_sane_def exhausted_iff io_eio_def io_good_def errno_defs)

text \<open>
  C35. A metadata server that restarts with at most one batch of sequences left on disk puts all of them into the low-water set
  and leaves the high-water set empty. It hands them out one by one, and the allocation after the last one, although the
  controller gives it a new super-sequence, switches to the empty set and answers with success and an
  empty range; a local client then fails its assertion in \<open>seq_client_alloc_seq\<close> (no result), and a remote one gets
  \<open>-EINVAL\<close>.
\<close>

theorem meta_empty_range_after_restart:
  assumes "sd_durable d = Some r" "lu_seq_range_is_sane r" "\<not> lu_seq_range_is_exhausted r"
    and "lu_seq_range_space r \<le> LUSTRE_SEQ_BATCH_WIDTH" "lcs_srv cli" "lu_seq_range_is_sane super" "io_ok io2"
  shows "\<exists>seq1 d1 empty seq2 d2. seq_restart io LUSTRE_SEQ_SERVER node seq d = Some (0, seq1, d1) \<and>
    meta_allocs (seq_server_alloc_meta io0 io1 io2 (0, super) rpc fld_rc False n out) (unat (lu_seq_range_space r) + 1)
        (snd (seq_server_set_cli (Some cli) seq1)) d1 =
      Some (one_each out (lsr_start r) (unat (lu_seq_range_space r)) @ [(0, empty)], seq2, d2) \<and>
    lu_seq_range_is_exhausted empty \<and>
    (\<forall>cl rpcs. lu_seq_range_is_exhausted (lcs_space cl) \<longrightarrow>
       (lcs_srv cl \<longrightarrow> seq_client_alloc_seq (0, empty) rpcs cl = None) \<and>
       (\<not> lcs_srv cl \<and> lcs_exp cl \<longrightarrow>
          map_option fst (seq_client_alloc_seq (0, empty) (Rpc_reply 0 empty # rpcs) cl) = Some (- EINVAL)))"
proof -
  let ?e = "lsr_end r" and ?s = "lsr_start r" and ?k = "unat (lu_seq_range_space r)"
  let ?alloc = "seq_server_alloc_meta io0 io1 io2 (0, super) rpc fld_rc False n out"
  have se: "?s < ?e" using assms(2,3) by (auto simp: lu_seq_range_is_sane_def exhausted_iff order.not_eq_order_implies_strict)
  then have e0: "?e \<noteq> 0" by auto
  obtain seq1 where s1: "seq_restart io LUSTRE_SEQ_SERVER node seq d = Some (0, seq1, disk_crash d)" and
    e1: "lss_space seq1 = r" "lu_seq_range_is_zero (lss_lowater_set seq1)" "lss_width seq1 = LUSTRE_SEQ_META_WIDTH"
      "lss_set_width seq1 = LUSTRE_SEQ_BATCH_WIDTH" "lss_cli seq1 = None"
    using seq_restart_durable [OF assms(1,2)] by (auto simp: lu_seq_range_is_zero_def lu_seq_range_init_def)
  obtain cl where c: "snd (seq_server_set_cli (Some cli) seq1) = seq1\<lparr>lss_cli := Some cl\<rparr>" "lcs_srv cl"
    using e1(5) assms(5) by (simp add: seq_server_set_cli_def)
  let ?s1 = "seq1\<lparr>lss_cli := Some cl\<rparr>"
  obtain rc s2 d2 where i: "seq_set_init io0 ?s1 (disk_crash d) = (rc, s2, d2)" by (metis prod_cases3)
  have w: "min (lu_seq_range_space r) LUSTRE_SEQ_BATCH_WIDTH = lu_seq_range_space r" using assms(4) by (simp add: min_def)
  have lo: "lo_only (?s + 1) ?e (s2\<lparr>lss_lowater_set := (lss_lowater_set s2)\<lparr>lsr_start := ?s + 1\<rparr>\<rparr>)"
    using seq_set_init_sets [OF i] e1 c(2) w
    by (simp add: range_alloc_def Let_def lo_only_def lu_seq_range_space_def exhausted_iff lu_seq_range_is_sane_def)
  have a: "?alloc ?s1 (disk_crash d) = Some (0, out\<lparr>lsr_start := ?s, lsr_end := ?s + 1\<rparr>,
      s2\<lparr>lss_lowater_set := (lss_lowater_set s2)\<lparr>lsr_start := ?s + 1\<rparr>\<rparr>, d2)"
    using alloc_meta_first [of ?s1, OF _ _ _ _ _ i] e1 assms(2,3) by simp
  have "unat (?s + 1) = unat ?s + 1"
    using se unat_lt_bound [of ?e] unat_plus_no_wrap [of ?s 1] by (simp add: word_less_nat_alt)
  moreover have "?k = unat ?e - unat ?s" using se by (simp add: lu_seq_range_space_def unat_minus_le)
  ultimately have k: "unat (?s + 1) + (?k - 1) = unat ?e" "?k = Suc (?k - 1)" using se by (auto simp: word_less_nat_alt)
  obtain er seq' d' where run: "meta_allocs ?alloc ?k (s2\<lparr>lss_lowater_set := (lss_lowater_set s2)\<lparr>lsr_start := ?s + 1\<rparr>\<rparr>) d2 =
      Some (one_each out (?s + 1) (?k - 1) @ [(0, er)], seq', d')" "lu_seq_range_is_exhausted er"
    using lo_only_run [OF lo k(1) e0 assms(6,7)] k(2) by metis
  have "meta_allocs ?alloc (?k + 1) ?s1 (disk_crash d) = Some (one_each out ?s ?k @ [(0, er)], seq', d')"
    using a run(1) one_each_Suc [of out ?s "?k - 1"] k(2) by simp
  moreover have "\<forall>cl rpcs. lu_seq_range_is_exhausted (lcs_space cl) \<longrightarrow>
       (lcs_srv cl \<longrightarrow> seq_client_alloc_seq (0, er) rpcs cl = None) \<and>
       (\<not> lcs_srv cl \<and> lcs_exp cl \<longrightarrow> map_option fst (seq_client_alloc_seq (0, er) (Rpc_reply 0 er # rpcs) cl) = Some (- EINVAL))"
    using run(2) by (auto simp: seq_client_defs exhausted_iff lu_seq_range_is_sane_def errno_defs)
  ultimately show ?thesis using s1 c(1) run(2) by auto
qed

theorem meta_empty_range_after_restart_witness:
  "\<exists>seq1 d1 empty seq2 d2.
    seq_restart io_good LUSTRE_SEQ_SERVER 0 seq_zero
      (disk_empty\<lparr>sd_durable := Some (ex_range 0x200000400 0x200000402)\<rparr>) = Some (0, seq1, d1) \<and>
    meta_allocs (seq_server_alloc_meta io_good io_good io_good (0, ex_range 0x240000400 0x280000400) Rpc_nomem 0 False 0
        lu_seq_range_init) 3 (snd (seq_server_set_cli (Some local_cli) seq1)) d1 =
      Some ([(0, ex_range 0x200000400 0x200000401), (0, ex_range 0x200000401 0x200000402), (0, empty)], seq2, d2) \<and>
    lu_seq_range_is_exhausted empty"
proof -
  let ?r = "ex_range 0x200000400 0x200000402"
  have r: "lu_seq_range_is_sane ?r" "\<not> lu_seq_range_is_exhausted ?r" "lu_seq_range_space ?r \<le> LUSTRE_SEQ_BATCH_WIDTH"
    "lcs_srv local_cli" "lu_seq_range_is_sane (ex_range 0x240000400 0x280000400)" "io_ok io_good"
    by (simp_all add: ex_range_def lu_seq_range_is_sane_def exhausted_iff lu_seq_range_space_def local_cli_def io_ok_def
        io_good_def const_defs)
  have k: "unat (lu_seq_range_space ?r) = 2" by (simp add: lu_seq_range_space_def ex_range_def)
  have o: "one_each lu_seq_range_init (lsr_start ?r) 2 =
      [(0, ex_range 0x200000400 0x200000401), (0, ex_range 0x200000401 0x200000402)]"
    by (simp add: one_each_def upt_rec ex_range_def lu_seq_range_init_def)
  have "sd_durable (disk_empty\<lparr>sd_durable := Some ?r\<rparr>) = Some ?r" by simp
  from meta_empty_range_after_restart [OF this r, of io_good 0 seq_zero io_good io_good Rpc_nomem 0 0 lu_seq_range_init]
  show ?thesis unfolding k o by simp blast
qed

text \<open>
  C36. \<open>seq_server_alloc_spec\<close> does not compare the end of the requested range with the end
  of the free space. A request that reaches beyond it succeeds and is stored, and leaves a free space
  that is not sane: the next allocation and the next start of the controller fail their assertions.
\<close>

theorem alloc_spec_past_end:
  assumes "lsr_start (lss_space seq) \<le> lsr_start spec" "lsr_start spec < lsr_end spec"
    and "lsr_flags spec = LU_SEQ_RANGE_MDT" "lsr_end (lss_space seq) < lsr_end spec"
  shows "\<exists>seq' d'. seq_server_alloc_spec io_good spec seq d = (0, seq', d') \<and>
           seq_server_alloc_super io out seq' d' = None \<and>
           seq_restart io' LUSTRE_SEQ_CONTROLLER node seq' d' = None"
proof -
  let ?sp = "(lss_space seq)\<lparr>lsr_start := lsr_end spec\<rparr>"
  have bad: "\<not> lu_seq_range_is_sane ?sp" using assms(4) by (simp add: lu_seq_range_is_sane_def not_le)
  have "\<not> lsr_end spec \<le> lsr_start spec" using assms(2) by simp
  then have 1: "seq_server_alloc_spec io_good spec seq d = (0, seq\<lparr>lss_space := ?sp\<rparr>, trans_stop ?sp False True d)"
    using assms(1,3) by (simp add: seq_server_alloc_spec_def seq_store_update_def io_good_def)
  have "seq_server_alloc_super io out (seq\<lparr>lss_space := ?sp\<rparr>) (trans_stop ?sp False True d) = None"
    using bad by (simp add: seq_server_alloc_super_def)
  moreover have "seq_restart io' LUSTRE_SEQ_CONTROLLER node (seq\<lparr>lss_space := ?sp\<rparr>) (trans_stop ?sp False True d) = None"
    using bad by (simp add: seq_restart_def disk_crash_def seq_file_def seq_server_init_def seq_store_read_def
        errno_defs Let_def)
  ultimately show ?thesis using 1 by blast
qed

theorem alloc_spec_past_end_witness:
  "\<exists>seq' d'. seq_server_alloc_spec io_good (ex_range 0x200000800 0x200001400)
       (seq_zero\<lparr>lss_space := ex_range 0x200000400 0x200001000\<rparr>) disk_empty = (0, seq', d') \<and>
     seq_server_alloc_super io_good lu_seq_range_init seq' d' = None \<and>
     seq_restart io_good LUSTRE_SEQ_CONTROLLER 0 seq' d' = None"
  by (rule alloc_spec_past_end) (simp_all add: seq_zero_def ex_range_def const_defs)

text \<open>
  C37. A range received from the server that is not sane is refused with \<open>-EINVAL\<close> but stays
  in \<open>lcs_space\<close>: every later request for a sequence fails the assertion at its start.
\<close>

theorem client_keeps_bad_range:
  assumes "lcs_exp seq" "\<not> lcs_srv seq" "lu_seq_range_is_sane (lcs_space seq)"
    and "lu_seq_range_is_exhausted (lcs_space seq)" "\<not> lu_seq_range_is_sane r"
  shows "\<exists>seq'. seq_client_alloc_seq direct [Rpc_reply 0 r] seq = Some (- EINVAL, 0, seq') \<and>
           (\<forall>direct rpcs. seq_client_alloc_seq direct rpcs seq' = None)"
  using assms by (simp add: seq_client_defs Let_def errno_defs)

theorem client_keeps_bad_range_witness:
  "\<exists>seq'. seq_client_alloc_seq (0, lu_seq_range_init) [Rpc_reply 0 (ex_range 2 1)]
       (local_cli\<lparr>lcs_srv := False, lcs_exp := True\<rparr>) = Some (- EINVAL, 0, seq') \<and>
     (\<forall>direct rpcs. seq_client_alloc_seq direct rpcs seq' = None)"
  by (rule client_keeps_bad_range)
    (simp_all add: local_cli_def lu_seq_range_init_def ex_range_def lu_seq_range_is_sane_def exhausted_iff word_le_nat_alt)

text \<open>
  C23. A client that no other thread updates gets a FID: inside the current sequence the next object
  id with result 0, and otherwise object id 1 of the first sequence it has or is given, with
  result 1.
\<close>

theorem alloc_fid_result:
  assumes "cli_type_inv seq" "lcs_update seq = 0" "lu_seq_range_is_sane (lcs_space seq)"
    and "r = (if lu_seq_range_is_exhausted (lcs_space seq) then given else lcs_space seq)"
    and "lu_seq_range_is_sane given" "\<not> lu_seq_range_is_exhausted given" "lsr_start r \<noteq> 0"
    and "lcs_srv seq \<or> lcs_exp seq" "list_all rpc_waits pre"
  shows "\<exists>seq'. seq_client_alloc_fid False (0, given) (pre @ Rpc_reply 0 given # post) seq =
           (if \<not> fid_is_zero (lcs_fid seq) \<and> ucast (f_oid (lcs_fid seq)) < lcs_width seq
            then Some (0, Some ((lcs_fid seq)\<lparr>f_oid := f_oid (lcs_fid seq) + 1\<rparr>), seq')
            else Some (1, Some \<lparr>f_seq = lsr_start r, f_oid = LUSTRE_FID_INIT_OID, f_ver = 0\<rparr>, seq'))"
proof (cases "lcs_srv seq")
  case True
  then show ?thesis using assms
    by (auto simp: seq_client_alloc_fid_def seq_client_defs Let_def split: if_splits)
next
  case False
  have "seq_client_meta_loop (pre @ Rpc_reply 0 given # post) (seq\<lparr>lcs_update := 1\<rparr>) =
      seq_client_rpc (Rpc_reply 0 given) (seq\<lparr>lcs_update := 1\<rparr>)"
    using False assms(8,9) by (intro seq_client_meta_loop_eq) (auto simp: errno_defs)
  then show ?thesis using False assms
    by (auto simp: seq_client_alloc_fid_def seq_client_defs Let_def split: if_splits)
qed

theorem alloc_fid_result_witness:
  "\<exists>seq'. seq_client_alloc_fid False (0, ex_range 0x200000400 0x200000401)
       ([Rpc_reply (- EINPROGRESS) lu_seq_range_init] @ Rpc_reply 0 (ex_range 0x200000400 0x200000401) # [])
       (local_cli\<lparr>lcs_srv := False, lcs_exp := True\<rparr>) =
     Some (1, Some \<lparr>f_seq = 0x200000400, f_oid = 1, f_ver = 0\<rparr>, seq')"
  using alloc_fid_result [of "local_cli\<lparr>lcs_srv := False, lcs_exp := True\<rparr>" "ex_range 0x200000400 0x200000401"
      "ex_range 0x200000400 0x200000401" "[Rpc_reply (- EINPROGRESS) lu_seq_range_init]" "[]"]
  by (simp add: local_cli_def lu_seq_range_init_def ex_range_def lu_seq_range_is_sane_def exhausted_iff cli_type_inv_def
      fid_zero_def fid_is_zero_def const_defs)

theorem handler_keeps_client_id_witness:
  "\<exists>rc out site'. seq_handler
       (seq_server_alloc_meta io_good io_good io_good (0, lu_seq_range_init) Rpc_nomem 0 False 0) (seq_server_alloc_super io_good)
       False (Some SEQ_ALLOC_SUPER) (Some lu_seq_range_init)
       (seq_rpc_in (local_cli\<lparr>lcs_space := lu_seq_range_init\<lparr>lsr_index := 3\<rparr>, lcs_type := LUSTRE_SEQ_DATA\<rparr>))
       \<lparr>ss_server_seq = None, ss_control_seq = Some (sv_seq (ex_ctl 0), sv_disk (ex_ctl 0))\<rparr> = Some (rc, Some out, site')
     \<and> lsr_index out = 3 \<and> fld_range_is_ost out"
proof -
  let ?cli = "local_cli\<lparr>lcs_space := lu_seq_range_init\<lparr>lsr_index := 3\<rparr>, lcs_type := LUSTRE_SEQ_DATA\<rparr>"
  let ?site = "\<lparr>ss_server_seq = None, ss_control_seq = Some (sv_seq (ex_ctl 0), sv_disk (ex_ctl 0))\<rparr>"
  let ?h = "seq_handler (seq_server_alloc_meta io_good io_good io_good (0, lu_seq_range_init) Rpc_nomem 0 False 0)
    (seq_server_alloc_super io_good) False (Some SEQ_ALLOC_SUPER) (Some lu_seq_range_init) (seq_rpc_in ?cli) ?site"
  have "?h \<noteq> None" by (simp add: seq_handler_def seq_server_handle_def ex_ctl_def ex_defs seq_rpc_in_def)
  moreover have "snd x \<noteq> (None, s)" if "?h = Some x" for x s
    using that by (auto simp: seq_handler_def Let_def split: Option.bind_splits)
  ultimately obtain rc out site' where h: "?h = Some (rc, Some out, site')" by (metis not_None_eq prod.exhaust_sel snd_conv)
  from handler_keeps_client_id [OF h] h show ?thesis by (auto simp: local_cli_def)
qed

end
