(* ===== verification/Lov_Offset.thy ===== *)
theory Lov_Offset
  imports Lustre_Prelude
begin

text \<open>
  Striping arithmetic of the logical object volume (\<open>lustre/lov/lov_offset.c\<close>) and the merge
  of the object attributes into those of the file (\<open>lustre/lov/lov_merge.c\<close>), on 64-bit words
  as on a 64-bit kernel. A function returns \<open>None\<close> when the code would read past
  \<open>lsm_entries\<close>, fail an assertion or divide by zero. The second half gives the striping as
  plain arithmetic on natural numbers and shows that the code computes it while the offsets stay
  below \<open>2^63\<close>.
\<close>

record lu_extent =
  e_start :: u64
  e_end :: u64

record ost_lvb =
  lvb_size :: u64
  lvb_mtime :: "64 word"
  lvb_atime :: "64 word"
  lvb_ctime :: "64 word"
  lvb_blocks :: u64

record lov_oinfo =
  loi_kms :: u64
  loi_lvb :: ost_lvb

record lov_stripe_md_entry =
  lsme_extent :: lu_extent
  lsme_pattern :: u32
  lsme_stripe_size :: u32
  lsme_stripe_count :: u16
  lsme_oinfo :: "lov_oinfo list"

record lov_stripe_md =
  lsm_entry_count :: u16
  lsm_entries :: "lov_stripe_md_entry list"

definition LOV_PATTERN_MDT :: u32 where [const_defs]: "LOV_PATTERN_MDT = 0x100"
definition LOV_PATTERN_F_MASK :: u32 where [const_defs]: "LOV_PATTERN_F_MASK = 0xffff0000"
definition OBD_OBJECT_EOF :: u64 where [const_defs]: "OBD_OBJECT_EOF = 0xffffffffffffffff"
definition PAGE_SHIFT :: nat where [const_defs]: "PAGE_SHIFT = 12"
definition OST_LVB_ERR_INIT :: u64 where [const_defs]: "OST_LVB_ERR_INIT = 0xffbadbad80000000"
definition OST_LVB_ERR_MASK :: u64 where [const_defs]: "OST_LVB_ERR_MASK = 0xffbadbad00000000"

definition lov_pattern :: "u32 \<Rightarrow> u32" where
  "lov_pattern pattern = pattern AND (NOT LOV_PATTERN_F_MASK)"

definition lsme_is_dom :: "lov_stripe_md_entry \<Rightarrow> bool" where
  "lsme_is_dom lsme \<longleftrightarrow> lov_pattern (lsme_pattern lsme) = LOV_PATTERN_MDT"

definition lu_extent_is_overlapped :: "lu_extent \<Rightarrow> lu_extent \<Rightarrow> bool" where
  "lu_extent_is_overlapped e1 e2 \<longleftrightarrow> e_start e1 < e_end e2 \<and> e_start e2 < e_end e1"

definition OST_LVB_IS_ERR :: "u64 \<Rightarrow> bool" where
  "OST_LVB_IS_ERR blocks \<longleftrightarrow> blocks AND OST_LVB_ERR_MASK = OST_LVB_ERR_MASK"

definition OST_LVB_SET_ERR :: "int \<Rightarrow> u64" where
  "OST_LVB_SET_ERR rc = OST_LVB_ERR_INIT + word_of_int rc"

definition OST_LVB_GET_ERR :: "u64 \<Rightarrow> int" where
  "OST_LVB_GET_ERR blocks = sint (ucast (blocks - OST_LVB_ERR_INIT) :: 32 word)"

text \<open>\<open>lov_do_div64(n, base)\<close>: the remainder and the new \<open>n\<close>.\<close>

definition lov_do_div64 :: "u64 \<Rightarrow> u64 \<Rightarrow> (u64 \<times> u64) option" where
  "lov_do_div64 n base = (if base = 0 then None else Some (n mod base, n div base))"

definition lsm_entry :: "lov_stripe_md \<Rightarrow> nat \<Rightarrow> lov_stripe_md_entry option" where
  "lsm_entry lsm index = (if index < length (lsm_entries lsm) then Some (lsm_entries lsm ! index) else None)"

definition stripe_width :: "lov_stripe_md \<Rightarrow> nat \<Rightarrow> u64 option" where
  "stripe_width lsm index = do {
     entry \<leftarrow> lsm_entry lsm index;
     LASSERT (index < unat (lsm_entry_count lsm));
     Some (if lsme_is_dom entry then ucast (lsme_stripe_size entry)
           else ucast (lsme_stripe_size entry) * ucast (lsme_stripe_count entry)) }"

definition lov_stripe_size :: "lov_stripe_md \<Rightarrow> nat \<Rightarrow> u64 \<Rightarrow> int \<Rightarrow> u64 option" where
  "lov_stripe_size lsm index ost_size stripeno = do {
     entry \<leftarrow> lsm_entry lsm index;
     let ssize = ucast (lsme_stripe_size entry);
     if ost_size = 0 then Some 0
     else do {
       swidth \<leftarrow> stripe_width lsm index;
       (stripe_size, ost_size) \<leftarrow> lov_do_div64 ost_size ssize;
       Some (if stripe_size \<noteq> 0 then ost_size * swidth + word_of_int stripeno * ssize + stripe_size
             else (ost_size - 1) * swidth + word_of_int (stripeno + 1) * ssize) } }"

definition lov_stripe_pgoff :: "lov_stripe_md \<Rightarrow> nat \<Rightarrow> u64 \<Rightarrow> int \<Rightarrow> u64 option" where
  "lov_stripe_pgoff lsm index stripe_index stripe = do {
     offset \<leftarrow> lov_stripe_size lsm index (push_bit PAGE_SHIFT stripe_index + 1) stripe;
     Some (signed_drop_bit PAGE_SHIFT offset) }"

text \<open>The offset into the object and the side: -1 before, 0 inside, 1 behind. The comparison with
  the start of the stripe is one of signed numbers, that with the stripe size is unsigned.\<close>

definition lov_stripe_offset :: "lov_stripe_md \<Rightarrow> nat \<Rightarrow> u64 \<Rightarrow> int \<Rightarrow> (int \<times> u64) option" where
  "lov_stripe_offset lsm index lov_off stripeno = do {
     entry \<leftarrow> lsm_entry lsm index;
     let ssize = ucast (lsme_stripe_size entry);
     if lov_off = OBD_OBJECT_EOF then Some (0, OBD_OBJECT_EOF)
     else do {
       swidth \<leftarrow> stripe_width lsm index;
       (stripe_off, lov_off) \<leftarrow> lov_do_div64 lov_off swidth;
       let this_stripe = word_of_int stripeno * ssize;
       let (ret, stripe_off) =
         (if sint stripe_off < sint this_stripe then (-1, 0)
          else let stripe_off = stripe_off - this_stripe
               in if stripe_off \<ge> ssize then (1, ssize) else (0, stripe_off));
       Some (ret, lov_off * ssize + stripe_off) } }"

definition lov_size_to_stripe :: "lov_stripe_md \<Rightarrow> nat \<Rightarrow> u64 \<Rightarrow> int \<Rightarrow> u64 option" where
  "lov_size_to_stripe lsm index file_size stripeno = do {
     entry \<leftarrow> lsm_entry lsm index;
     let ssize = ucast (lsme_stripe_size entry);
     if file_size = OBD_OBJECT_EOF then Some OBD_OBJECT_EOF
     else do {
       swidth \<leftarrow> stripe_width lsm index;
       (stripe_off, file_size) \<leftarrow> lov_do_div64 file_size swidth;
       let this_stripe = word_of_int stripeno * ssize;
       let (file_size, stripe_off) =
         (if sint stripe_off < sint this_stripe
          then (if file_size > 0 then (file_size - 1, ssize) else (file_size, 0))
          else let stripe_off = stripe_off - this_stripe
               in (file_size, if stripe_off \<ge> ssize then ssize else stripe_off));
       Some (file_size * ssize + stripe_off) } }"

text \<open>The result, with \<open>obd_start\<close> and \<open>obd_end\<close> when the stripe intersects.\<close>

definition lov_stripe_intersects ::
  "lov_stripe_md \<Rightarrow> nat \<Rightarrow> int \<Rightarrow> lu_extent \<Rightarrow> (u64 \<times> u64) option option" where
  "lov_stripe_intersects lsm index stripeno ext = do {
     entry \<leftarrow> lsm_entry lsm index;
     if \<not> lu_extent_is_overlapped ext (lsme_extent entry) then Some None
     else do {
       let start = max (e_start ext) (e_start (lsme_extent entry));
       let end = min (e_end ext) (e_end (lsme_extent entry));
       let end = (if end \<noteq> OBD_OBJECT_EOF then end - 1 else end);
       (start_side, obd_start) \<leftarrow> lov_stripe_offset lsm index start stripeno;
       (end_side, obd_end) \<leftarrow> lov_stripe_offset lsm index end stripeno;
       Some (if start_side \<noteq> 0 \<and> end_side \<noteq> 0 \<and> obd_start = obd_end then None
             else Some (obd_start, if end_side \<noteq> 0 then obd_end - 1 else obd_end)) } }"

definition lov_stripe_number :: "lov_stripe_md \<Rightarrow> nat \<Rightarrow> u64 \<Rightarrow> int option" where
  "lov_stripe_number lsm index lov_off = do {
     entry \<leftarrow> lsm_entry lsm index;
     let ssize = ucast (lsme_stripe_size entry);
     swidth \<leftarrow> stripe_width lsm index;
     (stripe_off, lov_off) \<leftarrow> lov_do_div64 lov_off swidth;
     (rem, stripe_off) \<leftarrow> lov_do_div64 stripe_off ssize;
     Some (sint (ucast stripe_off :: 32 word)) }"

section \<open>Merging the object attributes\<close>

record lov_merge =
  mg_size :: u64
  mg_kms :: u64
  mg_blocks :: u64
  mg_mtime :: "64 word"
  mg_atime :: "64 word"
  mg_ctime :: "64 word"
  mg_rc :: int

definition max_time :: "64 word \<Rightarrow> 64 word \<Rightarrow> 64 word" where
  "max_time a b = (if sint b > sint a then b else a)"

text \<open>The loop over the stripes; \<open>i\<close> is the number of the first one of the list.\<close>

fun lov_merge_loop ::
  "lov_stripe_md \<Rightarrow> nat \<Rightarrow> int \<Rightarrow> lov_oinfo list \<Rightarrow> lov_merge \<Rightarrow> lov_merge option" where
  "lov_merge_loop lsm index i [] m = Some m"
| "lov_merge_loop lsm index i (loi # lois) m =
     (if OST_LVB_IS_ERR (lvb_blocks (loi_lvb loi))
      then lov_merge_loop lsm index (i + 1) lois (m\<lparr>mg_rc := OST_LVB_GET_ERR (lvb_blocks (loi_lvb loi))\<rparr>)
      else do {
        let tmpsize = loi_kms loi;
        lov_size \<leftarrow> lov_stripe_size lsm index tmpsize i;
        let kms = (if lov_size > mg_kms m then lov_size else mg_kms m);
        let tmpsize = (if lvb_size (loi_lvb loi) > tmpsize then lvb_size (loi_lvb loi) else tmpsize);
        lov_size \<leftarrow> lov_stripe_size lsm index tmpsize i;
        let size = (if lov_size > mg_size m then lov_size else mg_size m);
        lov_merge_loop lsm index (i + 1) lois
          (m\<lparr>mg_size := size, mg_kms := kms, mg_blocks := mg_blocks m + lvb_blocks (loi_lvb loi),
             mg_mtime := max_time (mg_mtime m) (lvb_mtime (loi_lvb loi)),
             mg_atime := max_time (mg_atime m) (lvb_atime (loi_lvb loi)),
             mg_ctime := max_time (mg_ctime m) (lvb_ctime (loi_lvb loi))\<rparr>) })"

definition lov_merge_lvb_kms :: "lov_stripe_md \<Rightarrow> nat \<Rightarrow> ost_lvb \<Rightarrow> (int \<times> ost_lvb \<times> u64) option" where
  "lov_merge_lvb_kms lsm index lvb = do {
     lse \<leftarrow> lsm_entry lsm index;
     let n = unat (lsme_stripe_count lse);
     if length (lsme_oinfo lse) < n then None
     else do {
       m \<leftarrow> lov_merge_loop lsm index 0 (take n (lsme_oinfo lse))
              \<lparr>mg_size = 0, mg_kms = 0, mg_blocks = 0, mg_mtime = lvb_mtime lvb, mg_atime = lvb_atime lvb,
               mg_ctime = lvb_ctime lvb, mg_rc = 0\<rparr>;
       Some (mg_rc m, lvb\<lparr>lvb_size := mg_size m, lvb_blocks := mg_blocks m, lvb_mtime := mg_mtime m,
                          lvb_atime := mg_atime m, lvb_ctime := mg_ctime m\<rparr>, mg_kms m) } }"

section \<open>Striping as arithmetic\<close>

text \<open>Byte \<open>x\<close> of object \<open>st\<close> is byte \<open>raid0_off\<close> of the file; conversely a byte of the
  file lies in object \<open>raid0_stripe\<close> at \<open>raid0_obj\<close>. \<open>raid0_clip\<close> counts the bytes of an
  object below a file offset.\<close>

definition raid0_off :: "nat \<Rightarrow> nat \<Rightarrow> nat \<Rightarrow> nat \<Rightarrow> nat" where
  "raid0_off ss sc st x = x div ss * (ss * sc) + st * ss + x mod ss"

definition raid0_stripe :: "nat \<Rightarrow> nat \<Rightarrow> nat \<Rightarrow> nat" where
  "raid0_stripe ss sc off = off mod (ss * sc) div ss"

definition raid0_obj :: "nat \<Rightarrow> nat \<Rightarrow> nat \<Rightarrow> nat" where
  "raid0_obj ss sc off = off div (ss * sc) * ss + off mod ss"

definition raid0_clip :: "nat \<Rightarrow> nat \<Rightarrow> nat \<Rightarrow> nat \<Rightarrow> nat" where
  "raid0_clip ss sc st off = off div (ss * sc) * ss + min ss (off mod (ss * sc) - st * ss)"

lemma stripe_bound: "st < sc \<Longrightarrow> m < ss \<Longrightarrow> st * ss + m < ss * (sc :: nat)"
proof -
  assume "st < sc" "m < ss"
  then have "Suc st * ss \<le> sc * ss" by (intro mult_le_mono1) simp
  then show ?thesis using \<open>m < ss\<close> by (simp add: mult.commute)
qed

lemma raid0_clip_iff:
  assumes "0 < ss" "st < sc"
  shows "x < raid0_clip ss sc st off \<longleftrightarrow> raid0_off ss sc st x < off"
proof -
  define q r p m where d: "q = off div (ss * sc)" "r = off mod (ss * sc)" "p = x div ss" "m = x mod ss"
  have W: "0 < ss * sc" using assms by simp
  have eq: "off = q * (ss * sc) + r" "x = p * ss + m" unfolding d by (simp_all only: div_mult_mod_eq)
  have b: "r < ss * sc" "m < ss" using W assms(1) by (simp_all add: d)
  have "raid0_off ss sc st x = p * (ss * sc) + (st * ss + m)" by (simp add: raid0_off_def d)
  then have "raid0_off ss sc st x < off \<longleftrightarrow> p < q \<or> p = q \<and> st * ss + m < r"
    using lex_less [OF stripe_bound [OF assms(2) b(2)] b(1)] eq(1) by simp
  moreover have "x < raid0_clip ss sc st off \<longleftrightarrow> p < q \<or> p = q \<and> m < r - st * ss"
  proof (cases "r - st * ss < ss")
    case True
    then have "raid0_clip ss sc st off = q * ss + (r - st * ss)" by (simp add: raid0_clip_def d)
    then show ?thesis using lex_less [OF b(2) True] eq(2) by simp
  next
    case False
    then have "raid0_clip ss sc st off = Suc q * ss + 0" by (simp add: raid0_clip_def d)
    then have "x < raid0_clip ss sc st off \<longleftrightarrow> p < Suc q \<or> p = Suc q \<and> m < 0"
      using lex_less [OF b(2) assms(1)] eq(2) by metis
    then show ?thesis using False b(2) by auto
  qed
  ultimately show ?thesis by auto
qed

lemma raid0_off_inv:
  assumes "0 < ss" "st < sc"
  shows "raid0_stripe ss sc (raid0_off ss sc st x) = st" "raid0_obj ss sc (raid0_off ss sc st x) = x"
proof -
  let ?y = "st * ss + x mod ss"
  have y: "?y < ss * sc" using stripe_bound [OF assms(2)] assms(1) by simp
  have e: "raid0_off ss sc st x = ?y + x div ss * (ss * sc)" by (simp add: raid0_off_def)
  have m: "raid0_off ss sc st x mod (ss * sc) = ?y" unfolding e mod_mult_self1 using y by (rule mod_less)
  have "ss * sc \<noteq> 0" using assms by simp
  then have dv: "raid0_off ss sc st x div (ss * sc) = x div ss"
    unfolding e using y by (subst div_mult_self1) simp_all
  show "raid0_stripe ss sc (raid0_off ss sc st x) = st" using assms(1) by (simp add: raid0_stripe_def m)
  have "raid0_off ss sc st x = x mod ss + (x div ss * sc + st) * ss" by (simp add: raid0_off_def algebra_simps)
  then have "raid0_off ss sc st x mod ss = x mod ss" by (simp only: mod_mult_self1 mod_mod_trivial)
  then show "raid0_obj ss sc (raid0_off ss sc st x) = x" by (simp add: raid0_obj_def dv)
qed

lemma raid0_obj_inv:
  assumes "0 < ss" "0 < sc"
  shows "raid0_off ss sc (raid0_stripe ss sc off) (raid0_obj ss sc off) = off" "raid0_stripe ss sc off < sc"
proof -
  let ?r = "off mod (ss * sc)"
  have m: "off mod ss = ?r mod ss" by (simp add: mod_mod_cancel)
  have "raid0_obj ss sc off div ss = off div (ss * sc)" "raid0_obj ss sc off mod ss = ?r mod ss"
    using assms(1) by (simp_all add: raid0_obj_def m)
  then have "raid0_off ss sc (raid0_stripe ss sc off) (raid0_obj ss sc off) =
      off div (ss * sc) * (ss * sc) + (?r div ss * ss + ?r mod ss)"
    by (simp only: raid0_off_def raid0_stripe_def add.assoc)
  then show "raid0_off ss sc (raid0_stripe ss sc off) (raid0_obj ss sc off) = off"
    by (simp only: div_mult_mod_eq)
  show "raid0_stripe ss sc off < sc"
    using assms by (simp add: raid0_stripe_def less_mult_imp_div_less mult.commute)
qed

section \<open>The code computes the striping\<close>

definition lsme_ss :: "lov_stripe_md_entry \<Rightarrow> nat" where
  "lsme_ss e = unat (lsme_stripe_size e)"

definition lsme_sc :: "lov_stripe_md_entry \<Rightarrow> nat" where
  "lsme_sc e = (if lsme_is_dom e then 1 else unat (lsme_stripe_count e))"

definition layout_ok :: "lov_stripe_md \<Rightarrow> nat \<Rightarrow> lov_stripe_md_entry \<Rightarrow> bool" where
  "layout_ok lsm index e \<longleftrightarrow> lsm_entry lsm index = Some e \<and> index < unat (lsm_entry_count lsm) \<and>
     0 < lsme_ss e \<and> 0 < lsme_sc e"

lemma lsme_bounds: "lsme_ss e < 2 ^ 32" "lsme_sc e < 2 ^ 16" "lsme_ss e * lsme_sc e < 2 ^ 48"
proof -
  show 1: "lsme_ss e < 2 ^ 32" using unat_lt_bound [of "lsme_stripe_size e"] by (simp add: lsme_ss_def)
  show 2: "lsme_sc e < 2 ^ 16" using unat_lt_bound [of "lsme_stripe_count e"] by (simp add: lsme_sc_def)
  have "lsme_ss e * lsme_sc e < 2 ^ 32 * 2 ^ 16" using 1 2 by (intro mult_strict_mono) simp_all
  then show "lsme_ss e * lsme_sc e < 2 ^ 48" by simp
qed

lemma stripe_width_ok:
  assumes "layout_ok lsm index e"
  obtains w where "stripe_width lsm index = Some w" "unat w = lsme_ss e * lsme_sc e" "w \<noteq> 0"
proof -
  have pos: "0 < lsme_ss e * lsme_sc e" using assms by (simp add: layout_ok_def)
  have nz: "w \<noteq> 0" if "unat w = lsme_ss e * lsme_sc e" for w :: u64 using that pos by auto
  have b: "lsme_ss e * lsme_sc e < 2 ^ 64" using lsme_bounds(3) [of e] by simp
  have c: "unat (ucast (lsme_stripe_size e) :: u64) = lsme_ss e" "unat (ucast (lsme_stripe_count e) :: u64) = unat (lsme_stripe_count e)"
    by (simp_all add: lsme_ss_def unat_ucast_up)
  show thesis
  proof (cases "lsme_is_dom e")
    case True
    then show thesis
      using assms c nz by (intro that [of "ucast (lsme_stripe_size e)"]) (simp_all add: stripe_width_def layout_ok_def lsme_sc_def)
  next
    case False
    have "unat (ucast (lsme_stripe_size e) * ucast (lsme_stripe_count e) :: u64) = lsme_ss e * lsme_sc e"
      using b False by (subst unat_mult_no_wrap) (simp_all add: c lsme_sc_def lsme_ss_def)
    then show thesis
      using assms False nz by (intro that [of "ucast (lsme_stripe_size e) * ucast (lsme_stripe_count e)"])
        (simp_all add: stripe_width_def layout_ok_def)
  qed
qed

lemma unat_ssize: "unat (ucast (lsme_stripe_size e) :: u64) = lsme_ss e"
  by (simp add: lsme_ss_def unat_ucast_up)

lemma sint_small: "unat (a :: u64) < 2 ^ 63 \<Longrightarrow> sint a = int (unat a)"
  by (rule sint_eq_unat) simp

lemma ssize_nz: "layout_ok lsm index e \<Longrightarrow> (ucast (lsme_stripe_size e) :: u64) \<noteq> 0"
  using unat_ssize [of e] by (auto simp: layout_ok_def simp del: unat_ucast_32_64)

lemma this_stripe_ok:
  assumes "layout_ok lsm index e" "st < lsme_sc e"
  shows "unat (word_of_int (int st) * ucast (lsme_stripe_size e) :: u64) = st * lsme_ss e" "st * lsme_ss e < 2 ^ 48"
proof -
  have "st * lsme_ss e \<le> lsme_sc e * lsme_ss e" using assms(2) by (intro mult_le_mono1) simp
  also have "\<dots> < 2 ^ 48" using lsme_bounds(3) [of e] by (simp add: mult.commute)
  finally show b: "st * lsme_ss e < 2 ^ 48" .
  have "st < 2 ^ 64" using assms(2) lsme_bounds(2) [of e] by simp
  then have "unat (word_of_int (int st) :: u64) = st" by (intro unat_word_of_int_nat) simp
  then show "unat (word_of_int (int st) * ucast (lsme_stripe_size e) :: u64) = st * lsme_ss e"
    using b by (subst unat_mult_no_wrap) (simp_all add: lsme_ss_def)
qed

lemma clip_bound:
  assumes "0 < ss" "0 < sc"
  shows "raid0_clip ss sc st off \<le> off + ss"
proof -
  have "off div (ss * sc) * ss \<le> off div (ss * sc) * (ss * sc)" using assms by simp
  also have "\<dots> \<le> off" by (rule div_times_less_eq_dividend)
  finally show ?thesis by (simp add: raid0_clip_def)
qed

text \<open>Before, inside or behind the stripe.\<close>

definition raid0_side :: "nat \<Rightarrow> nat \<Rightarrow> nat \<Rightarrow> nat \<Rightarrow> int" where
  "raid0_side ss sc st off =
     (let r = off mod (ss * sc) in if r < st * ss then -1 else if st * ss + ss \<le> r then 1 else 0)"

lemma raid0_side_0: "0 < ss \<Longrightarrow> raid0_side ss sc st off = 0 \<longleftrightarrow> raid0_stripe ss sc off = st"
proof -
  assume "0 < ss"
  have "r div ss = st \<longleftrightarrow> \<not> r < st * ss \<and> \<not> st * ss + ss \<le> r" for r
  proof
    assume "r div ss = st"
    then have "r = st * ss + r mod ss" using div_mult_mod_eq [of r ss] by simp
    moreover have "r mod ss < ss" using \<open>0 < ss\<close> by simp
    ultimately show "\<not> r < st * ss \<and> \<not> st * ss + ss \<le> r" by linarith
  next
    assume "\<not> r < st * ss \<and> \<not> st * ss + ss \<le> r"
    then have "st * ss \<le> r" "r < Suc st * ss" by simp_all
    then show "r div ss = st" by (intro div_nat_eqI) (simp_all add: mult.commute)
  qed
  then show ?thesis by (simp add: raid0_side_def raid0_stripe_def Let_def)
qed

lemma unat_scale:
  fixes q c s :: u64
  assumes "unat q * unat s + unat c < 2 ^ 64"
  shows "unat (q * s + c) = unat q * unat s + unat c"
proof -
  have "unat (q * s) = unat q * unat s" using assms by (intro unat_mult_no_wrap) simp
  then show ?thesis using assms by (subst unat_plus_no_wrap) simp_all
qed

lemma stripe_offset_ok:
  assumes ok: "layout_ok lsm index e" and st: "st < lsme_sc e" and off: "unat off < 2 ^ 63"
  obtains w where
    "lov_stripe_offset lsm index off (int st) = Some (raid0_side (lsme_ss e) (lsme_sc e) st (unat off), w)"
    "unat w = raid0_clip (lsme_ss e) (lsme_sc e) st (unat off)"
    "lov_size_to_stripe lsm index off (int st) = Some w"
proof -
  let ?ss = "lsme_ss e" and ?sc = "lsme_sc e"
  let ?s = "ucast (lsme_stripe_size e) :: u64"
  let ?t = "word_of_int (int st) * ?s :: u64"
  obtain w where w: "stripe_width lsm index = Some w" "unat w = ?ss * ?sc" "w \<noteq> 0" using stripe_width_ok [OF ok] .
  have pos: "0 < ?ss" "0 < ?sc" and en: "lsm_entry lsm index = Some e" using ok by (simp_all add: layout_ok_def)
  define q r where "q = off div w" and "r = off mod w"
  have qr: "unat q = unat off div (?ss * ?sc)" "unat r = unat off mod (?ss * ?sc)"
    by (simp_all add: q_def r_def unat_div unat_mod w(2))
  have t: "unat ?t = st * ?ss" "st * ?ss < 2 ^ 48" using this_stripe_ok [OF ok st] by simp_all
  have rb: "unat r < 2 ^ 48" using lsme_bounds(3) [of e] pos by (simp add: qr) (meson mod_less_divisor nat_0_less_mult_iff order_less_trans)
  have ss: "unat ?s = ?ss" by (rule unat_ssize)
  have signed: "sint r < sint ?t \<longleftrightarrow> unat r < st * ?ss"
  proof -
    have "unat r < 2 ^ 63" "unat ?t < 2 ^ 63" using rb t by simp_all
    then show ?thesis by (simp only: sint_small t(1) of_nat_less_iff)
  qed
  have eof: "off \<noteq> OBD_OBJECT_EOF" using off by (auto simp: const_defs)
  have clip: "raid0_clip ?ss ?sc st (unat off) = unat q * ?ss + min ?ss (unat r - st * ?ss)"
    by (simp add: raid0_clip_def qr)
  have bound: "unat q * ?ss + min ?ss (unat r - st * ?ss) < 2 ^ 64"
    using clip_bound [OF pos, of st "unat off"] off lsme_bounds(1) [of e] unfolding clip by simp
  have val: "unat (q * ?s + c) = unat q * ?ss + unat c" if "unat c = min ?ss (unat r - st * ?ss)" for c
    using unat_scale [of q ?s c] bound by (simp only: that ss)
  consider (before) "unat r < st * ?ss" | (inside) "st * ?ss \<le> unat r" "unat r - st * ?ss < ?ss"
    | (behind) "st * ?ss \<le> unat r" "?ss \<le> unat r - st * ?ss" by linarith
  then show thesis
  proof cases
    case before
    have q1: "unat (q - 1) = unat q - 1" if "0 < q" using that by (simp add: unat_minus_one)
    have z: "(if 0 < q then (q - 1) * ?s + ?s else q * ?s) = q * ?s"
      by (auto simp: algebra_simps)
    show thesis
      using before signed eof w en val [of 0] z
      by (intro that [of "q * ?s"]) (auto simp: lov_stripe_offset_def lov_size_to_stripe_def lov_do_div64_def
          q_def [symmetric] r_def [symmetric] raid0_side_def qr Let_def clip split: if_splits)
  next
    case inside
    then have sub: "unat (r - ?t) = unat r - st * ?ss" using t by (subst unat_minus_le) (simp_all add: word_le_nat_alt)
    then have lt: "\<not> ?s \<le> r - ?t" using inside ss by (simp add: word_le_nat_alt)
    show thesis
      using inside signed eof w en val [of "r - ?t"] sub lt
      by (intro that [of "q * ?s + (r - ?t)"]) (simp_all add: lov_stripe_offset_def lov_size_to_stripe_def lov_do_div64_def
          q_def [symmetric] r_def [symmetric] raid0_side_def qr [symmetric] Let_def clip)
  next
    case behind
    then have sub: "unat (r - ?t) = unat r - st * ?ss" using t by (subst unat_minus_le) (simp_all add: word_le_nat_alt)
    then have le: "?s \<le> r - ?t" using behind ss by (simp add: word_le_nat_alt)
    show thesis
      using behind signed eof w en val [of ?s] sub le ss
      by (intro that [of "q * ?s + ?s"]) (simp_all add: lov_stripe_offset_def lov_size_to_stripe_def lov_do_div64_def
          q_def [symmetric] r_def [symmetric] raid0_side_def qr [symmetric] Let_def clip)
  qed
qed

lemma stripe_number_ok:
  assumes ok: "layout_ok lsm index e"
  shows "lov_stripe_number lsm index off = Some (int (raid0_stripe (lsme_ss e) (lsme_sc e) (unat off)))"
proof -
  let ?ss = "lsme_ss e" and ?sc = "lsme_sc e" and ?s = "ucast (lsme_stripe_size e) :: u64"
  obtain w where w: "stripe_width lsm index = Some w" "unat w = ?ss * ?sc" "w \<noteq> 0" using stripe_width_ok [OF ok] .
  have pos: "0 < ?ss" "0 < ?sc" and en: "lsm_entry lsm index = Some e" using ok by (simp_all add: layout_ok_def)
  have s0: "?s \<noteq> 0" using ssize_nz [OF ok] .
  have n: "unat (off mod w div ?s) = raid0_stripe ?ss ?sc (unat off)"
    by (simp only: unat_div unat_mod w(2) unat_ssize raid0_stripe_def)
  have lt: "raid0_stripe ?ss ?sc (unat off) < 2 ^ 16"
    using raid0_obj_inv(2) [OF pos, of "unat off"] lsme_bounds(2) [of e] by simp
  have "unat (ucast (off mod w div ?s) :: u32) = raid0_stripe ?ss ?sc (unat off)"
    using n lt by (simp add: unsigned_ucast_eq take_bit_nat_eq_self)
  then have "sint (ucast (off mod w div ?s) :: u32) = int (raid0_stripe ?ss ?sc (unat off))"
    using lt sint_eq_unat [of "ucast (off mod w div ?s) :: u32"] by simp
  then show ?thesis using w en s0 by (simp add: lov_stripe_number_def lov_do_div64_def Let_def)
qed

text \<open>Adding one to the offset of a byte gives the size of the smallest file that has it.\<close>

lemma stripe_size_ok:
  assumes ok: "layout_ok lsm index e" and st: "st < lsme_sc e" and n: "0 < unat n"
    and lim: "raid0_off (lsme_ss e) (lsme_sc e) st (unat n - 1) < 2 ^ 63"
  obtains w where "lov_stripe_size lsm index n (int st) = Some w"
    "unat w = raid0_off (lsme_ss e) (lsme_sc e) st (unat n - 1) + 1"
proof -
  let ?ss = "lsme_ss e" and ?sc = "lsme_sc e" and ?s = "ucast (lsme_stripe_size e) :: u64"
  obtain W where w: "stripe_width lsm index = Some W" "unat W = ?ss * ?sc" "W \<noteq> 0" using stripe_width_ok [OF ok] .
  have pos: "0 < ?ss" "0 < ?sc" and en: "lsm_entry lsm index = Some e" using ok by (simp_all add: layout_ok_def)
  have ss: "unat ?s = ?ss" by (rule unat_ssize)
  have s0: "?s \<noteq> 0" using ssize_nz [OF ok] .
  have n0: "n \<noteq> 0" using n by auto
  define q r where "q = n div ?s" and "r = n mod ?s"
  have qr: "unat q = unat n div ?ss" "unat r = unat n mod ?ss" by (simp_all only: q_def r_def unat_div unat_mod ss)
  have e1: "unat n = unat q * ?ss + unat r" by (simp only: qr div_mult_mod_eq)
  show thesis
  proof (cases "r = 0")
    case False
    then have r0: "0 < unat r" by (simp add: unat_gt_0)
    then have "unat n - 1 = unat q * ?ss + (unat r - 1)" using e1 by simp
    moreover have rs: "unat r - 1 < ?ss" using qr(2) pos by (metis less_imp_diff_less mod_less_divisor)
    ultimately have dm: "(unat n - 1) div ?ss = unat q" "(unat n - 1) mod ?ss = unat r - 1" by (blast intro: divmod_eqI)+
    have ro: "raid0_off ?ss ?sc st (unat n - 1) + 1 = unat q * (?ss * ?sc) + (st * ?ss + unat r)"
      unfolding raid0_off_def dm using r0 by simp
    have b: "unat q * (?ss * ?sc) + (st * ?ss + unat r) < 2 ^ 64" using ro lim by simp
    have c: "unat (word_of_int (int st) * ?s + r) = st * ?ss + unat r"
      using b this_stripe_ok(1) [OF ok st] by (subst unat_plus_no_wrap) simp_all
    have "unat (q * W + (word_of_int (int st) * ?s + r)) = unat q * (?ss * ?sc) + (st * ?ss + unat r)"
      using unat_scale [of q W "word_of_int (int st) * ?s + r"] b by (simp only: w(2) c)
    then show thesis using w en s0 n0 False ro
      by (intro that [of "q * W + word_of_int (int st) * ?s + r"])
        (simp_all add: lov_stripe_size_def lov_do_div64_def Let_def q_def [symmetric] r_def [symmetric] add.assoc)
  next
    case True
    then have e2: "unat n = unat q * ?ss" using e1 by simp
    then have q0: "0 < unat q" using n by (metis mult_is_0 neq0_conv)
    then obtain k where k: "unat q = Suc k" by (metis gr0_implies_Suc)
    have "unat n - 1 = (unat q - 1) * ?ss + (?ss - 1)" unfolding e2 k using pos by simp
    moreover have "?ss - 1 < ?ss" using pos by simp
    ultimately have dm: "(unat n - 1) div ?ss = unat q - 1" "(unat n - 1) mod ?ss = ?ss - 1" by (blast intro: divmod_eqI)+
    have ro: "raid0_off ?ss ?sc st (unat n - 1) + 1 = (unat q - 1) * (?ss * ?sc) + (Suc st) * ?ss"
      unfolding raid0_off_def dm using pos by simp
    have "(1 :: u64) \<le> q" using q0 by (simp add: word_le_nat_alt)
    then have q1: "unat (q - 1) = unat q - 1" using unat_minus_le [of 1 q] by simp
    have b: "(unat q - 1) * (?ss * ?sc) + Suc st * ?ss < 2 ^ 64" using ro lim by simp
    have "Suc st < 2 ^ 64" using st lsme_bounds(2) [of e] by simp
    then have "unat (word_of_int (int (Suc st)) :: u64) = Suc st" by (intro unat_word_of_int_nat) simp
    moreover have "int (Suc st) = int st + 1" by simp
    ultimately have u1: "unat (word_of_int (int st + 1) :: u64) = Suc st" by metis
    have "unat (word_of_int (int st + 1) * ?s) = unat (word_of_int (int st + 1) :: u64) * unat ?s"
      by (rule unat_mult_no_wrap) (unfold u1 ss, use b in simp)
    then have c: "unat (word_of_int (int st + 1) * ?s) = Suc st * ?ss" by (simp only: u1 ss)
    have "unat ((q - 1) * W + word_of_int (int st + 1) * ?s) = (unat q - 1) * (?ss * ?sc) + Suc st * ?ss"
      using unat_scale [of "q - 1" W "word_of_int (int st + 1) * ?s"] b by (simp only: w(2) c q1)
    then show thesis using w en s0 n0 True ro
      by (intro that [of "(q - 1) * W + word_of_int (int st + 1) * ?s"])
        (simp_all add: lov_stripe_size_def lov_do_div64_def Let_def q_def [symmetric] r_def [symmetric])
  qed
qed

lemma raid0_off_less:
  assumes "0 < ss" "st < sc"
  shows "raid0_off ss sc st x < raid0_off ss sc st y \<longleftrightarrow> x < y"
proof -
  have b: "x mod ss < ss" "y mod ss < ss" using assms(1) by simp_all
  have "raid0_off ss sc st x < raid0_off ss sc st y \<longleftrightarrow> x div ss < y div ss \<or> x div ss = y div ss \<and> x mod ss < y mod ss"
    using lex_less [OF stripe_bound [OF assms(2) b(1)] stripe_bound [OF assms(2) b(2)], of "x div ss" "y div ss"]
    by (simp add: raid0_off_def add.assoc)
  also have "\<dots> \<longleftrightarrow> x div ss * ss + x mod ss < y div ss * ss + y mod ss" by (rule lex_less [OF b, symmetric])
  finally show ?thesis by (simp only: div_mult_mod_eq)
qed

lemma raid0_clip_off:
  assumes "0 < ss" "st < sc"
  shows "raid0_clip ss sc st (raid0_off ss sc st y) = y"
proof -
  have "x < raid0_clip ss sc st (raid0_off ss sc st y) \<longleftrightarrow> x < y" for x
    using raid0_clip_iff [OF assms] raid0_off_less [OF assms] by simp
  then show ?thesis by (metis less_irrefl linorder_neqE_nat)
qed

text \<open>The byte ranges of the code: from \<open>clip a\<close> up to \<open>clip b\<close>, with \<open>b\<close> itself when it lies in
  the stripe.\<close>

lemma raid0_range:
  assumes "0 < ss" "st < sc" "a \<le> b"
  shows "raid0_side ss sc st b = 0 \<Longrightarrow>
      a \<le> raid0_off ss sc st x \<and> raid0_off ss sc st x \<le> b \<longleftrightarrow> raid0_clip ss sc st a \<le> x \<and> x \<le> raid0_clip ss sc st b"
    and "raid0_side ss sc st b \<noteq> 0 \<Longrightarrow>
      a \<le> raid0_off ss sc st x \<and> raid0_off ss sc st x \<le> b \<longleftrightarrow> raid0_clip ss sc st a \<le> x \<and> x < raid0_clip ss sc st b"
    and "raid0_side ss sc st a = 0 \<Longrightarrow> raid0_off ss sc st (raid0_clip ss sc st a) = a"
    and "raid0_clip ss sc st a \<le> raid0_clip ss sc st b"
proof -
  note iff = raid0_clip_iff [OF assms(1,2)]
  have sc: "0 < sc" using assms(2) by simp
  have hit: "raid0_off ss sc st (raid0_clip ss sc st c) = c" if "raid0_side ss sc st c = 0" for c
  proof -
    have "raid0_stripe ss sc c = st" using that raid0_side_0 [OF assms(1)] by simp
    then have "c = raid0_off ss sc st (raid0_obj ss sc c)" using raid0_obj_inv(1) [OF assms(1) sc, of c] by simp
    then show ?thesis using raid0_clip_off [OF assms(1,2)] by metis
  qed
  have ge: "a \<le> raid0_off ss sc st x \<longleftrightarrow> raid0_clip ss sc st a \<le> x" using iff [of x a] by linarith
  show "raid0_side ss sc st a = 0 \<Longrightarrow> raid0_off ss sc st (raid0_clip ss sc st a) = a" by (rule hit)
  show "a \<le> raid0_off ss sc st x \<and> raid0_off ss sc st x \<le> b \<longleftrightarrow> raid0_clip ss sc st a \<le> x \<and> x \<le> raid0_clip ss sc st b"
    if "raid0_side ss sc st b = 0"
    using ge hit [OF that] raid0_off_less [OF assms(1,2), of "raid0_clip ss sc st b" x] by auto
  show "a \<le> raid0_off ss sc st x \<and> raid0_off ss sc st x \<le> b \<longleftrightarrow> raid0_clip ss sc st a \<le> x \<and> x < raid0_clip ss sc st b"
    if "raid0_side ss sc st b \<noteq> 0"
  proof -
    have "raid0_off ss sc st x \<noteq> b"
      using that raid0_side_0 [OF assms(1)] raid0_off_inv(1) [OF assms(1,2)] by blast
    then show ?thesis using ge iff [of x b] by auto
  qed
  show "raid0_clip ss sc st a \<le> raid0_clip ss sc st b"
  proof (rule ccontr)
    assume "\<not> ?thesis"
    then have "raid0_off ss sc st (raid0_clip ss sc st b) < b" using iff assms(3) by (meson le_trans not_le order_less_le_trans)
    then show False using iff by blast
  qed
qed

text \<open>
  C13. Every byte of a file has exactly one home: \<open>lov_stripe_number\<close> gives the object,
  \<open>lov_stripe_offset\<close> for that object answers "inside" with an object offset, and
  \<open>lov_stripe_size\<close> leads from that object byte back to the file offset.
\<close>

theorem lov_offset_roundtrip:
  assumes ok: "layout_ok lsm index e" and off: "unat off < 2 ^ 63 - 1"
  shows "\<exists>st w. lov_stripe_number lsm index off = Some (int st) \<and> st < lsme_sc e \<and>
           lov_stripe_offset lsm index off (int st) = Some (0, w) \<and>
           lov_stripe_size lsm index (w + 1) (int st) = Some (off + 1)"
proof -
  let ?ss = "lsme_ss e" and ?sc = "lsme_sc e"
  define st where "st = raid0_stripe ?ss ?sc (unat off)"
  have pos: "0 < ?ss" "0 < ?sc" using ok by (simp_all add: layout_ok_def)
  have st: "st < ?sc" and home: "raid0_off ?ss ?sc st (raid0_obj ?ss ?sc (unat off)) = unat off"
    using raid0_obj_inv [OF pos, of "unat off"] by (simp_all add: st_def)
  have side: "raid0_side ?ss ?sc st (unat off) = 0" using raid0_side_0 [OF pos(1)] by (simp add: st_def)
  obtain w where w: "lov_stripe_offset lsm index off (int st) = Some (raid0_side ?ss ?sc st (unat off), w)"
    "unat w = raid0_clip ?ss ?sc st (unat off)"
    using stripe_offset_ok [OF ok st, of off] off by auto
  have wo: "raid0_off ?ss ?sc st (unat w) = unat off" using raid0_range(3) [OF pos(1) st le_refl side] w(2) by simp
  have "unat w \<le> unat off + ?ss" using clip_bound [OF pos] w(2) by simp
  then have "unat (w + 1) = unat w + 1" using off lsme_bounds(1) [of e] by (subst unat_plus_no_wrap) simp_all
  then obtain v where v: "lov_stripe_size lsm index (w + 1) (int st) = Some v" "unat v = unat off + 1"
    using stripe_size_ok [OF ok st, of "w + 1"] wo off by auto
  have "unat (off + 1) = unat off + 1" using off by (subst unat_plus_no_wrap) simp_all
  then have "v = off + 1" using v(2) by (simp add: word_unat_eq_iff)
  then show ?thesis using stripe_number_ok [OF ok, of off] st w(1) side v(1) by (auto simp: st_def)
qed

text \<open>
  C15. \<open>lov_size_to_stripe\<close> truncates exactly: byte \<open>x\<close> of the object is below the size it
  returns if and only if the file offset of that byte is below the file size.
\<close>

theorem lov_size_to_stripe_exact:
  assumes "layout_ok lsm index e" "st < lsme_sc e" "unat fsize < 2 ^ 63"
  shows "\<exists>w. lov_size_to_stripe lsm index fsize (int st) = Some w \<and>
           (\<forall>x. x < unat w \<longleftrightarrow> raid0_off (lsme_ss e) (lsme_sc e) st x < unat fsize)"
proof -
  obtain w where "lov_size_to_stripe lsm index fsize (int st) = Some w"
    "unat w = raid0_clip (lsme_ss e) (lsme_sc e) st (unat fsize)"
    using stripe_offset_ok [OF assms] .
  then show ?thesis using raid0_clip_iff [of "lsme_ss e" st "lsme_sc e"] assms(1,2) by (auto simp: layout_ok_def)
qed

text \<open>
  C14. \<open>lov_stripe_intersects\<close> is exact: it reports no intersection if and only if no byte of
  the object lies in the given extent and in the extent of the component, and otherwise
  \<open>[obd_start, obd_end]\<close> are exactly the object bytes that do.
\<close>

theorem lov_stripe_intersects_exact:
  assumes ok: "layout_ok lsm index e" and st: "st < lsme_sc e"
    and ext: "e_start ext < e_end ext" "e_start (lsme_extent e) < e_end (lsme_extent e)" "unat (e_end ext) < 2 ^ 63"
  shows "\<exists>r. lov_stripe_intersects lsm index (int st) ext = Some r \<and>
     (\<forall>x. (max (unat (e_start ext)) (unat (e_start (lsme_extent e))) \<le> raid0_off (lsme_ss e) (lsme_sc e) st x \<and>
           raid0_off (lsme_ss e) (lsme_sc e) st x < min (unat (e_end ext)) (unat (e_end (lsme_extent e))))
        \<longleftrightarrow> (case r of None \<Rightarrow> False | Some (a, b) \<Rightarrow> unat a \<le> x \<and> x \<le> unat b))"
proof (cases "lu_extent_is_overlapped ext (lsme_extent e)")
  case False
  then have "unat (e_end (lsme_extent e)) \<le> unat (e_start ext) \<or> unat (e_end ext) \<le> unat (e_start (lsme_extent e))"
    by (auto simp: lu_extent_is_overlapped_def word_less_nat_alt)
  then have "\<not> (max (unat (e_start ext)) (unat (e_start (lsme_extent e))) \<le> y \<and>
      y < min (unat (e_end ext)) (unat (e_end (lsme_extent e))))" for y
    by auto
  moreover have "lov_stripe_intersects lsm index (int st) ext = Some None"
    using False ok by (simp add: lov_stripe_intersects_def layout_ok_def)
  ultimately show ?thesis by auto
next
  case True
  let ?ss = "lsme_ss e" and ?sc = "lsme_sc e"
  define s n where "s = max (e_start ext) (e_start (lsme_extent e))" and "n = min (e_end ext) (e_end (lsme_extent e))"
  have un: "unat s = max (unat (e_start ext)) (unat (e_start (lsme_extent e)))"
      "unat n = min (unat (e_end ext)) (unat (e_end (lsme_extent e)))"
    by (auto simp: s_def n_def max_def min_def word_le_nat_alt)
  have lt: "unat s < unat n"
    using True ext(1,2) by (auto simp: un lu_extent_is_overlapped_def word_less_nat_alt)
  have nlim: "unat n < 2 ^ 63" using ext(3) by (auto simp: un)
  have eof: "n \<noteq> OBD_OBJECT_EOF" using nlim by (auto simp: const_defs)
  have n1: "unat (n - 1) = unat n - 1" using lt by (subst unat_minus_le) (auto simp: word_le_nat_alt)
  have pos: "0 < ?ss" and en: "lsm_entry lsm index = Some e" using ok by (simp_all add: layout_ok_def)
  obtain a where a: "lov_stripe_offset lsm index s (int st) = Some (raid0_side ?ss ?sc st (unat s), a)"
    "unat a = raid0_clip ?ss ?sc st (unat s)" using stripe_offset_ok [OF ok st, of s] lt nlim by auto
  obtain b where b: "lov_stripe_offset lsm index (n - 1) (int st) = Some (raid0_side ?ss ?sc st (unat n - 1), b)"
    "unat b = raid0_clip ?ss ?sc st (unat n - 1)" proof -
    have "unat (n - 1) < 2 ^ 63" using n1 nlim by simp
    from stripe_offset_ok [OF ok st this, unfolded n1] show thesis using that by blast
  qed
  have le: "unat s \<le> unat n - 1" using lt by simp
  note R = raid0_range [OF pos st le, folded a(2) b(2)]
  define r where "r = (if raid0_side ?ss ?sc st (unat s) \<noteq> 0 \<and> raid0_side ?ss ?sc st (unat n - 1) \<noteq> 0 \<and> a = b then None
    else Some (a, if raid0_side ?ss ?sc st (unat n - 1) \<noteq> 0 then b - 1 else b))"
  have res: "lov_stripe_intersects lsm index (int st) ext = Some r"
    using True en eof a(1) b(1) by (simp add: lov_stripe_intersects_def Let_def s_def [symmetric] n_def [symmetric] r_def)
  have "(unat s \<le> raid0_off ?ss ?sc st x \<and> raid0_off ?ss ?sc st x < unat n) \<longleftrightarrow>
      (case r of None \<Rightarrow> False | Some (a, b) \<Rightarrow> unat a \<le> x \<and> x \<le> unat b)" for x
  proof -
    have lhs: "raid0_off ?ss ?sc st x < unat n \<longleftrightarrow> raid0_off ?ss ?sc st x \<le> unat n - 1" using lt by auto
    show ?thesis
    proof (cases "raid0_side ?ss ?sc st (unat n - 1) = 0")
      case True
      then show ?thesis using R(1) lhs by (simp add: r_def)
    next
      case miss: False
      note R2 = R(2) [OF miss]
      show ?thesis
      proof (cases "raid0_side ?ss ?sc st (unat s) \<noteq> 0 \<and> a = b")
        case True
        then show ?thesis using R2 [of x] lhs miss by (simp add: r_def)
      next
        case False
        have ab: "unat a < unat b"
        proof (cases "raid0_side ?ss ?sc st (unat s) = 0")
          case True
          then have "raid0_off ?ss ?sc st (unat a) = unat s" by (rule R(3))
          then show ?thesis using R2 [of "unat a"] le by simp
        next
          case s0: False
          then have "unat a \<noteq> unat b" using False by (auto simp: word_unat_eq_iff)
          then show ?thesis using R(4) by simp
        qed
        then have "unat (b - 1) = unat b - 1" by (subst unat_minus_le) (auto simp: word_le_nat_alt)
        moreover have "r = Some (a, b - 1)" using False miss by (auto simp: r_def)
        ultimately show ?thesis using R2 [of x] lhs ab by auto
      qed
    qed
  qed
  then show ?thesis using res by (auto simp: un)
qed

section \<open>Merging gives the file size back\<close>

text \<open>Stripe \<open>st\<close> of a file of size \<open>S\<close>, as the object servers report it.\<close>

definition loi_of_size :: "lov_stripe_md \<Rightarrow> nat \<Rightarrow> u64 \<Rightarrow> nat \<Rightarrow> lov_oinfo \<Rightarrow> bool" where
  "loi_of_size lsm index S st loi \<longleftrightarrow>
     lov_size_to_stripe lsm index S (int st) = Some (lvb_size (loi_lvb loi)) \<and>
     loi_kms loi = lvb_size (loi_lvb loi) \<and> \<not> OST_LVB_IS_ERR (lvb_blocks (loi_lvb loi))"

lemma stripe_size_of_clip:
  assumes ok: "layout_ok lsm index e" and st: "st < lsme_sc e" and S: "0 < unat S" "unat S < 2 ^ 63"
    and n: "lov_size_to_stripe lsm index S (int st) = Some n"
  obtains w where "lov_stripe_size lsm index n (int st) = Some w" "w \<le> S"
    "st = raid0_stripe (lsme_ss e) (lsme_sc e) (unat S - 1) \<Longrightarrow> w = S"
proof -
  let ?ss = "lsme_ss e" and ?sc = "lsme_sc e"
  have pos: "0 < ?ss" "0 < ?sc" and en: "lsm_entry lsm index = Some e" using ok by (simp_all add: layout_ok_def)
  obtain w' where "lov_size_to_stripe lsm index S (int st) = Some w'" "unat w' = raid0_clip ?ss ?sc st (unat S)"
    using stripe_offset_ok [OF ok st S(2)] .
  then have un: "unat n = raid0_clip ?ss ?sc st (unat S)" using n by simp
  note iff = raid0_clip_iff [OF pos(1) st, of _ "unat S", folded un]
  have last: "raid0_obj ?ss ?sc (unat S - 1) < unat n" "raid0_off ?ss ?sc st (raid0_obj ?ss ?sc (unat S - 1)) = unat S - 1"
    if "st = raid0_stripe ?ss ?sc (unat S - 1)"
    using raid0_obj_inv(1) [OF pos, of "unat S - 1"] S(1) that iff by auto
  show thesis
  proof (cases "n = 0")
    case True
    then show thesis using last(1) en by (intro that [of 0]) (auto simp: lov_stripe_size_def)
  next
    case False
    then have n0: "0 < unat n" by (simp add: unat_gt_0)
    then have lt: "raid0_off ?ss ?sc st (unat n - 1) < unat S" using iff [of "unat n - 1"] by simp
    then have "raid0_off ?ss ?sc st (unat n - 1) < 2 ^ 63" using S(2) by simp
    from stripe_size_ok [OF ok st n0 this] obtain w
      where w: "lov_stripe_size lsm index n (int st) = Some w" "unat w = raid0_off ?ss ?sc st (unat n - 1) + 1" .
    have "w \<le> S" using w(2) lt by (simp add: word_le_nat_alt)
    moreover have "w = S" if "st = raid0_stripe ?ss ?sc (unat S - 1)"
    proof -
      have "unat S - 1 \<le> raid0_off ?ss ?sc st (unat n - 1)"
        using last [OF that] raid0_off_less [OF pos(1) st, of "unat n - 1" "raid0_obj ?ss ?sc (unat S - 1)"] by linarith
      then show ?thesis using w(2) lt by (simp add: word_unat_eq_iff)
    qed
    ultimately show thesis using w(1) that by blast
  qed
qed

lemma merge_loop_size:
  assumes ok: "layout_ok lsm index e" and S: "0 < unat S" "unat S < 2 ^ 63"
    and lois: "\<forall>k < length lois. i + k < lsme_sc e \<and> loi_of_size lsm index S (i + k) (lois ! k)"
    and m: "mg_size m \<le> S" "mg_kms m \<le> S"
  shows "\<exists>m'. lov_merge_loop lsm index (int i) lois m = Some m' \<and> mg_size m' \<le> S \<and> mg_kms m' \<le> S \<and> mg_rc m' = mg_rc m \<and>
    (mg_size m = S \<and> mg_kms m = S \<or>
     i \<le> raid0_stripe (lsme_ss e) (lsme_sc e) (unat S - 1) \<and> raid0_stripe (lsme_ss e) (lsme_sc e) (unat S - 1) < i + length lois
     \<longrightarrow> mg_size m' = S \<and> mg_kms m' = S)"
  using lois m
proof (induction lois arbitrary: i m)
  case Nil
  then show ?case by auto
next
  case (Cons loi lois)
  let ?h = "raid0_stripe (lsme_ss e) (lsme_sc e) (unat S - 1)"
  have loi: "i < lsme_sc e" "lov_size_to_stripe lsm index S (int i) = Some (lvb_size (loi_lvb loi))"
    "loi_kms loi = lvb_size (loi_lvb loi)" "\<not> OST_LVB_IS_ERR (lvb_blocks (loi_lvb loi))"
    using Cons.prems(1) [rule_format, of 0] by (simp_all add: loi_of_size_def)
  obtain w where w: "lov_stripe_size lsm index (lvb_size (loi_lvb loi)) (int i) = Some w" "w \<le> S" "i = ?h \<Longrightarrow> w = S"
    using stripe_size_of_clip [OF ok loi(1) S loi(2)] by blast
  let ?m = "m\<lparr>mg_size := max w (mg_size m), mg_kms := max w (mg_kms m), mg_blocks := mg_blocks m + lvb_blocks (loi_lvb loi),
             mg_mtime := max_time (mg_mtime m) (lvb_mtime (loi_lvb loi)),
             mg_atime := max_time (mg_atime m) (lvb_atime (loi_lvb loi)),
             mg_ctime := max_time (mg_ctime m) (lvb_ctime (loi_lvb loi))\<rparr>"
  have mx: "(if mg_size m < w then w else mg_size m) = max w (mg_size m)" "(if mg_kms m < w then w else mg_kms m) = max w (mg_kms m)"
    by (auto simp: max_def)
  have loop: "lov_merge_loop lsm index (int i) (loi # lois) m = lov_merge_loop lsm index (int (Suc i)) lois ?m"
    using loi w(1) by (simp add: Let_def mx add.commute)
  have "\<forall>k < length lois. Suc i + k < lsme_sc e \<and> loi_of_size lsm index S (Suc i + k) (lois ! k)"
  proof (intro allI impI)
    fix k assume "k < length lois"
    then show "Suc i + k < lsme_sc e \<and> loi_of_size lsm index S (Suc i + k) (lois ! k)"
      using Cons.prems(1) [rule_format, of "Suc k"] by simp
  qed
  moreover have "mg_size ?m \<le> S" "mg_kms ?m \<le> S" using w(2) Cons.prems(2,3) by simp_all
  ultimately obtain m' where m': "lov_merge_loop lsm index (int (Suc i)) lois ?m = Some m'" "mg_size m' \<le> S" "mg_kms m' \<le> S"
    "mg_rc m' = mg_rc m" "mg_size ?m = S \<and> mg_kms ?m = S \<or> Suc i \<le> ?h \<and> ?h < Suc i + length lois \<longrightarrow> mg_size m' = S \<and> mg_kms m' = S"
    using Cons.IH [of "Suc i" ?m] by auto
  have "mg_size ?m = S \<and> mg_kms ?m = S" if "mg_size m = S \<and> mg_kms m = S \<or> i = ?h"
    using that w(2,3) Cons.prems(2,3) by (auto simp: max_def)
  then show ?case using loop m' by (auto simp: Suc_le_eq le_less)
qed

text \<open>
  C16. Truncating a file and reading its size are inverse: when every object of a component reports
  the size that \<open>lov_size_to_stripe\<close> computes for a file of size \<open>S\<close>, the merged
  attributes of \<open>lov_merge_lvb_kms\<close> have size and known minimum size \<open>S\<close>.
\<close>

theorem lov_merge_size_roundtrip:
  assumes ok: "layout_ok lsm index e" "\<not> lsme_is_dom e" and S: "0 < S" "unat S < 2 ^ 63"
    and lois: "length (lsme_oinfo e) = lsme_sc e" "\<forall>st < lsme_sc e. loi_of_size lsm index S st (lsme_oinfo e ! st)"
  shows "\<exists>lvb'. lov_merge_lvb_kms lsm index lvb = Some (0, lvb', S) \<and> lvb_size lvb' = S"
proof -
  have S0: "0 < unat S" using S(1) by (simp add: unat_gt_0)
  have pos: "0 < lsme_ss e" "0 < lsme_sc e" and en: "lsm_entry lsm index = Some e" using ok by (simp_all add: layout_ok_def)
  have n: "unat (lsme_stripe_count e) = lsme_sc e" using ok(2) by (simp add: lsme_sc_def)
  let ?m = "\<lparr>mg_size = 0, mg_kms = 0, mg_blocks = 0, mg_mtime = lvb_mtime lvb, mg_atime = lvb_atime lvb,
               mg_ctime = lvb_ctime lvb, mg_rc = 0\<rparr>"
  have "\<forall>k < length (lsme_oinfo e). 0 + k < lsme_sc e \<and> loi_of_size lsm index S (0 + k) (lsme_oinfo e ! k)"
    using lois by simp
  from merge_loop_size [OF ok(1) S0 S(2) this, of ?m] obtain m' where
    "lov_merge_loop lsm index 0 (lsme_oinfo e) ?m = Some m'" "mg_rc m' = 0" "mg_size m' = S" "mg_kms m' = S"
    using raid0_obj_inv(2) [OF pos, of "unat S - 1"] lois(1) by auto
  then show ?thesis using en n lois(1) by (simp add: lov_merge_lvb_kms_def Let_def)
qed

section \<open>A concrete layout\<close>

text \<open>Three stripes of 64 KiB; the objects are those of a file of 200000 bytes.\<close>

definition ex_oinfo :: "u64 \<Rightarrow> lov_oinfo" where
  "ex_oinfo n = \<lparr>loi_kms = n, loi_lvb = \<lparr>lvb_size = n, lvb_mtime = 7, lvb_atime = 7, lvb_ctime = 7, lvb_blocks = 1\<rparr>\<rparr>"

definition ex_entry :: lov_stripe_md_entry where
  "ex_entry = \<lparr>lsme_extent = \<lparr>e_start = 0, e_end = OBD_OBJECT_EOF\<rparr>, lsme_pattern = 1, lsme_stripe_size = 65536,
     lsme_stripe_count = 3, lsme_oinfo = [ex_oinfo 68928, ex_oinfo 65536, ex_oinfo 65536]\<rparr>"

definition ex_lsm :: lov_stripe_md where
  "ex_lsm = \<lparr>lsm_entry_count = 1, lsm_entries = [ex_entry]\<rparr>"

lemma ex_layout_ok: "layout_ok ex_lsm 0 ex_entry" "\<not> lsme_is_dom ex_entry" "lsme_ss ex_entry = 65536" "lsme_sc ex_entry = 3"
  by (simp_all add: layout_ok_def lsm_entry_def lsme_ss_def lsme_sc_def lsme_is_dom_def lov_pattern_def const_defs
      ex_lsm_def ex_entry_def)

theorem lov_offset_roundtrip_witness:
  "\<exists>st w. lov_stripe_number ex_lsm 0 200000 = Some (int st) \<and> st < 3 \<and>
     lov_stripe_offset ex_lsm 0 200000 (int st) = Some (0, w) \<and>
     lov_stripe_size ex_lsm 0 (w + 1) (int st) = Some 200001"
  using lov_offset_roundtrip [OF ex_layout_ok(1), of 200000] by (simp add: ex_layout_ok)

theorem lov_size_to_stripe_exact_witness:
  "\<exists>w. lov_size_to_stripe ex_lsm 0 200000 (int 0) = Some w \<and>
     (\<forall>x. x < unat w \<longleftrightarrow> raid0_off 65536 3 0 x < 200000)"
  using lov_size_to_stripe_exact [OF ex_layout_ok(1), of 0 200000] by (simp add: ex_layout_ok)

theorem lov_stripe_intersects_exact_witness:
  "\<exists>r. lov_stripe_intersects ex_lsm 0 (int 1) \<lparr>e_start = 0, e_end = 70000\<rparr> = Some r \<and>
     (\<forall>x. raid0_off 65536 3 1 x < 70000 \<longleftrightarrow> (case r of None \<Rightarrow> False | Some (a, b) \<Rightarrow> unat a \<le> x \<and> x \<le> unat b))"
  using lov_stripe_intersects_exact [OF ex_layout_ok(1), of 1 "\<lparr>e_start = 0, e_end = 70000\<rparr>"]
  by (simp add: ex_layout_ok del: min_less_iff_conj) (simp add: ex_entry_def const_defs del: min_less_iff_conj)

lemma ex_loi_of_size:
  "loi_of_size ex_lsm 0 200000 0 (ex_oinfo 68928)" "loi_of_size ex_lsm 0 200000 1 (ex_oinfo 65536)"
  "loi_of_size ex_lsm 0 200000 2 (ex_oinfo 65536)"
  by (simp_all add: loi_of_size_def lov_size_to_stripe_def ex_lsm_def ex_entry_def ex_oinfo_def
        lsm_entry_def stripe_width_def lsme_is_dom_def lov_pattern_def const_defs lov_do_div64_def OST_LVB_IS_ERR_def Let_def)

theorem lov_merge_size_roundtrip_witness:
  "\<exists>lvb'. lov_merge_lvb_kms ex_lsm 0 \<lparr>lvb_size = 0, lvb_mtime = 0, lvb_atime = 0, lvb_ctime = 0, lvb_blocks = 0\<rparr>
     = Some (0, lvb', 200000) \<and> lvb_size lvb' = 200000"
proof (rule lov_merge_size_roundtrip [OF ex_layout_ok(1,2)])
  show "\<forall>st < lsme_sc ex_entry. loi_of_size ex_lsm 0 200000 st (lsme_oinfo ex_entry ! st)"
  proof (intro allI impI)
    fix st assume "st < lsme_sc ex_entry"
    then have "st = 0 \<or> st = 1 \<or> st = 2" by (simp add: ex_layout_ok) linarith
    then show "loi_of_size ex_lsm 0 200000 st (lsme_oinfo ex_entry ! st)"
      using ex_loi_of_size by (auto simp: ex_entry_def)
  qed
qed (simp_all add: ex_layout_ok, simp add: ex_entry_def)

end
