(* ===== verification/Binheap.thy ===== *)
theory Binheap
  imports Lustre_Prelude
begin

text \<open>
  The binary heap of libcfs (\<open>libcfs/libcfs/heap.c\<close>, \<open>libcfs_heap.h\<close>), on which the
  request schedulers of ptlrpc rest: a min-heap of node pointers kept in an array that grows in
  chunks of 512 pointers through one, two and three levels of indirection.

  A node is its address. The array levels are lists of pointers, \<open>None\<close> being \<open>NULL\<close>; a
  pointer to an array slot is the path of indices that leads to it. The field
  \<open>chn_index\<close> of the nodes is a function of the node in the state. Following a null pointer,
  like a failed assertion, gives \<open>None\<close>. An \<open>unsigned int\<close> index is a natural number: a
  heap never holds more than 134480384 pointers (\<open>shape\<close>), so no computation on indices reaches
  \<open>2 ^ 32\<close>. The n-th allocation of a call succeeds when \<open>alloc n\<close>; new memory is zeroed.
\<close>

section \<open>The data\<close>

type_synonym node = nat
type_synonym frag = "node option list"

definition CBH_SHIFT :: nat where "CBH_SHIFT = 9"
definition CBH_SIZE :: nat where "CBH_SIZE = push_bit CBH_SHIFT 1"
definition CBH_MASK :: nat where "CBH_MASK = CBH_SIZE - 1"
definition CBH_POISON :: nat where "CBH_POISON = 0xdeadbeef"

record cfs_binheap_ops =
  hop_enter :: "(node \<Rightarrow> int) option"
  hop_exit :: bool
  hop_compare :: "node \<Rightarrow> node \<Rightarrow> bool"

record cfs_binheap =
  cbh_elements3 :: "frag option list option list option"
  cbh_elements2 :: "frag option list option"
  cbh_elements1 :: "frag option"
  cbh_nelements :: nat
  cbh_hwm :: nat

text \<open>The heap, the index fields of all nodes, and the nodes \<open>hop_exit\<close> was called for.\<close>

record cbh_state =
  cbh :: cfs_binheap
  chn_index :: "node \<Rightarrow> nat"
  cbh_exits :: "node list"

section \<open>Memory\<close>

definition CBH_ALLOC :: "bool \<Rightarrow> 'a option list option" where
  "CBH_ALLOC ok = (if ok then Some (replicate CBH_SIZE None) else None)"

datatype cbh_ptr = P1 nat | P2 nat nat | P3 nat nat nat

definition cfs_binheap_pointer :: "cfs_binheap \<Rightarrow> nat \<Rightarrow> cbh_ptr option" where
  "cfs_binheap_pointer h idx =
     (if idx < CBH_SIZE then Some (P1 idx)
      else let idx = idx - CBH_SIZE in
        if idx < CBH_SIZE * CBH_SIZE then do {
          e2 \<leftarrow> cbh_elements2 h;
          _ \<leftarrow> arr_get e2 (drop_bit CBH_SHIFT idx);
          Some (P2 (drop_bit CBH_SHIFT idx) (idx AND CBH_MASK)) }
        else let idx = idx - CBH_SIZE * CBH_SIZE in do {
          e3 \<leftarrow> cbh_elements3 h;
          frag1 \<leftarrow> arr_get e3 (drop_bit (2 * CBH_SHIFT) idx);
          f1 \<leftarrow> frag1;
          _ \<leftarrow> arr_get f1 (drop_bit CBH_SHIFT idx AND CBH_MASK);
          Some (P3 (drop_bit (2 * CBH_SHIFT) idx) (drop_bit CBH_SHIFT idx AND CBH_MASK) (idx AND CBH_MASK)) })"

text \<open>Reading and writing through the pointer that \<open>cfs_binheap_pointer\<close> returns.\<close>

fun cbh_load :: "cfs_binheap \<Rightarrow> cbh_ptr \<Rightarrow> node option option" where
  "cbh_load h (P1 i) = do { f \<leftarrow> cbh_elements1 h; arr_get f i }"
| "cbh_load h (P2 i j) = do { e2 \<leftarrow> cbh_elements2 h; frag \<leftarrow> arr_get e2 i; f \<leftarrow> frag; arr_get f j }"
| "cbh_load h (P3 i j k) =
     do { e3 \<leftarrow> cbh_elements3 h; frag1 \<leftarrow> arr_get e3 i; f1 \<leftarrow> frag1; frag \<leftarrow> arr_get f1 j; f \<leftarrow> frag; arr_get f k }"

fun cbh_store :: "cfs_binheap \<Rightarrow> cbh_ptr \<Rightarrow> node option \<Rightarrow> cfs_binheap option" where
  "cbh_store h (P1 i) v = do {
     f \<leftarrow> cbh_elements1 h;
     f' \<leftarrow> arr_set f i v;
     Some (h\<lparr>cbh_elements1 := Some f'\<rparr>) }"
| "cbh_store h (P2 i j) v = do {
     e2 \<leftarrow> cbh_elements2 h;
     frag \<leftarrow> arr_get e2 i;
     f \<leftarrow> frag;
     f' \<leftarrow> arr_set f j v;
     Some (h\<lparr>cbh_elements2 := Some (e2[i := Some f'])\<rparr>) }"
| "cbh_store h (P3 i j k) v = do {
     e3 \<leftarrow> cbh_elements3 h;
     frag1 \<leftarrow> arr_get e3 i;
     f1 \<leftarrow> frag1;
     frag \<leftarrow> arr_get f1 j;
     f \<leftarrow> frag;
     f' \<leftarrow> arr_set f k v;
     Some (h\<lparr>cbh_elements3 := Some (e3[i := Some (f1[j := Some f'])])\<rparr>) }"

text \<open>The node a slot points to, where the code follows that pointer.\<close>

definition cbh_node :: "cfs_binheap \<Rightarrow> cbh_ptr \<Rightarrow> node option" where
  "cbh_node h p = do { v \<leftarrow> cbh_load h p; v }"

definition cfs_binheap_grow :: "(nat \<Rightarrow> bool) \<Rightarrow> cfs_binheap \<Rightarrow> (int \<times> cfs_binheap) option" where
  "cfs_binheap_grow alloc h = do {
     _ \<leftarrow> LASSERT (cbh_hwm h AND CBH_MASK = 0);
     let out = (\<lambda>h. Some (0, h\<lparr>cbh_hwm := cbh_hwm h + CBH_SIZE\<rparr>));
     if cbh_hwm h = 0 then
       case CBH_ALLOC (alloc 0) of
         None \<Rightarrow> Some (- ENOMEM, h\<lparr>cbh_elements1 := None\<rparr>)
       | Some f \<Rightarrow> out (h\<lparr>cbh_elements1 := Some f\<rparr>)
     else let hwm = cbh_hwm h - CBH_SIZE in
       if hwm < CBH_SIZE * CBH_SIZE then
         case CBH_ALLOC (alloc 0) of
           None \<Rightarrow> Some (- ENOMEM, h)
         | Some frag2 \<Rightarrow>
             let h = (if hwm = 0 then h\<lparr>cbh_elements2 := CBH_ALLOC (alloc 1)\<rparr> else h) in
             if hwm = 0 \<and> cbh_elements2 h = None then Some (- ENOMEM, h)
             else do {
               e2 \<leftarrow> cbh_elements2 h;
               e2' \<leftarrow> arr_set e2 (drop_bit CBH_SHIFT hwm) (Some frag2);
               out (h\<lparr>cbh_elements2 := Some e2'\<rparr>) }
       else let hwm = hwm - CBH_SIZE * CBH_SIZE in
         if hwm \<ge> CBH_SIZE * CBH_SIZE * CBH_SIZE then Some (- ENOMEM, h)
         else case CBH_ALLOC (alloc 0) of
           None \<Rightarrow> Some (- ENOMEM, h)
         | Some frag2 \<Rightarrow>
             let first = (drop_bit CBH_SHIFT hwm AND CBH_MASK = 0);
                 new1 = (if first then CBH_ALLOC (alloc 1) else None) in
             if first \<and> new1 = None then Some (- ENOMEM, h)
             else
               let h = (if hwm = 0 then h\<lparr>cbh_elements3 := CBH_ALLOC (alloc 2)\<rparr> else h) in
               if hwm = 0 \<and> cbh_elements3 h = None then Some (- ENOMEM, h)
               else do {
                 e3 \<leftarrow> cbh_elements3 h;
                 old1 \<leftarrow> arr_get e3 (drop_bit (2 * CBH_SHIFT) hwm);
                 _ \<leftarrow> LASSERT (new1 = None \<or> old1 = None);
                 let e3 = (if new1 \<noteq> None then e3[drop_bit (2 * CBH_SHIFT) hwm := new1] else e3);
                 frag1 \<leftarrow> (if new1 \<noteq> None then new1 else old1);
                 frag1' \<leftarrow> arr_set frag1 (drop_bit CBH_SHIFT hwm AND CBH_MASK) (Some frag2);
                 out (h\<lparr>cbh_elements3 := Some (e3[drop_bit (2 * CBH_SHIFT) hwm := Some frag1'])\<rparr>) } }"

section \<open>Creating and destroying a heap\<close>

text \<open>
  \<open>cfs_binheap_create\<close> after the heap object is allocated; the n-th call of
  \<open>cfs_binheap_grow\<close> allocates by \<open>alloc n\<close>. The flag \<open>CBH_FLAG_ATOMIC_GROW\<close> only selects
  the allocator and is left out.
\<close>

lemma grow_hwm: "cfs_binheap_grow alloc h = Some (0, h') \<Longrightarrow> cbh_hwm h' = cbh_hwm h + CBH_SIZE"
  unfolding cfs_binheap_grow_def
  by (auto simp: Let_def ENOMEM_def bind_eq_Some_conv split: option.splits if_splits)

function cbh_preallocate :: "(nat \<Rightarrow> nat \<Rightarrow> bool) \<Rightarrow> nat \<Rightarrow> nat \<Rightarrow> cfs_binheap \<Rightarrow> (int \<times> cfs_binheap) option" where
  "cbh_preallocate alloc n cnt h =
     (if cbh_hwm h < cnt then
        case cfs_binheap_grow (alloc n) h of
          None \<Rightarrow> None
        | Some (rc, h') \<Rightarrow> if rc \<noteq> 0 then Some (rc, h') else cbh_preallocate alloc (n + 1) cnt h'
      else Some (0, h))"
  by pat_completeness auto
termination
  by (relation "measure (\<lambda>(alloc, n, cnt, h). cnt - cbh_hwm h)")
     (auto dest!: grow_hwm simp: CBH_SIZE_def CBH_SHIFT_def)

definition cbh_new :: cfs_binheap where
  "cbh_new = \<lparr>cbh_elements3 = None, cbh_elements2 = None, cbh_elements1 = None, cbh_nelements = 0, cbh_hwm = 0\<rparr>"

text \<open>
  The blocks of pointers that \<open>cfs_binheap_destroy\<close> frees, in its order; freeing \<open>NULL\<close> frees
  nothing. Each loop runs while blocks are left (\<open>n > 0\<close>) and the array has not ended.
\<close>

datatype cbh_block = Elements1 | Elements2 | Frag2 nat | Elements3 | Frag31 nat | Frag3 nat nat

definition CBH_FREE :: "cbh_block \<Rightarrow> 'a option \<Rightarrow> cbh_block list" where
  "CBH_FREE b p = (if p = None then [] else [b])"

fun cbh_free_row :: "(nat \<Rightarrow> cbh_block) \<Rightarrow> nat \<Rightarrow> frag option list \<Rightarrow> nat \<Rightarrow> cbh_block list \<times> nat" where
  "cbh_free_row b i [] n = ([], n)"
| "cbh_free_row b i (f # fs) n =
     (if n > 0 then (case cbh_free_row b (i + 1) fs (n - CBH_SIZE) of (bs, n') \<Rightarrow> (CBH_FREE (b i) f @ bs, n'))
      else ([], n))"

fun cbh_free_rows :: "nat \<Rightarrow> frag option list option list \<Rightarrow> nat \<Rightarrow> cbh_block list option" where
  "cbh_free_rows i [] n = Some []"
| "cbh_free_rows i (f1 # fs) n =
     (if n > 0 then do {
        row \<leftarrow> f1;
        let (bs, n') = cbh_free_row (Frag3 i) 0 row n;
        rest \<leftarrow> cbh_free_rows (i + 1) fs n';
        Some (bs @ CBH_FREE (Frag31 i) f1 @ rest) }
      else Some [])"

definition cfs_binheap_destroy :: "cfs_binheap \<Rightarrow> cbh_block list option" where
  "cfs_binheap_destroy h = do {
     let n = cbh_hwm h;
     let (bs1, n) = (if n > 0 then (CBH_FREE Elements1 (cbh_elements1 h), n - CBH_SIZE) else ([], n));
     (bs2, n) \<leftarrow>
       (if n > 0 then do {
          e2 \<leftarrow> cbh_elements2 h;
          let (bs, n) = cbh_free_row Frag2 0 e2 n;
          Some (bs @ CBH_FREE Elements2 (cbh_elements2 h), n) }
        else Some ([], n));
     bs3 \<leftarrow>
       (if n > 0 then do {
          e3 \<leftarrow> cbh_elements3 h;
          bs \<leftarrow> cbh_free_rows 0 e3 n;
          Some (bs @ CBH_FREE Elements3 (cbh_elements3 h)) }
        else Some []);
     Some (bs1 @ bs2 @ bs3) }"

text \<open>\<open>Some None\<close> is the null pointer that \<open>cfs_binheap_create\<close> returns when memory runs out.\<close>

definition cfs_binheap_create :: "bool \<Rightarrow> (nat \<Rightarrow> nat \<Rightarrow> bool) \<Rightarrow> nat \<Rightarrow> cfs_binheap option option" where
  "cfs_binheap_create obj alloc cnt =
     (if \<not> obj then Some None
      else do {
        (rc, h) \<leftarrow> cbh_preallocate alloc 0 cnt cbh_new;
        if rc \<noteq> 0 then do { _ \<leftarrow> cfs_binheap_destroy h; Some None }
        else Some (Some h) })"

section \<open>Operations\<close>

definition cfs_binheap_size :: "cfs_binheap \<Rightarrow> nat" where
  "cfs_binheap_size h = cbh_nelements h"

definition cfs_binheap_is_empty :: "cfs_binheap \<Rightarrow> bool" where
  "cfs_binheap_is_empty h \<longleftrightarrow> cbh_nelements h = 0"

text \<open>The outer \<open>None\<close> is a null pointer followed, the inner one the returned \<open>NULL\<close>.\<close>

definition cfs_binheap_find :: "cfs_binheap \<Rightarrow> nat \<Rightarrow> node option option" where
  "cfs_binheap_find h idx =
     (if idx \<ge> cbh_nelements h then Some None
      else do { p \<leftarrow> cfs_binheap_pointer h idx; cbh_load h p })"

definition cbh_put :: "cbh_state \<Rightarrow> cbh_ptr \<Rightarrow> node \<Rightarrow> cbh_state option" where
  "cbh_put s p e = do { h \<leftarrow> cbh_store (cbh s) p (Some e); Some (s\<lparr>cbh := h\<rparr>) }"

definition set_index :: "cbh_state \<Rightarrow> node \<Rightarrow> nat \<Rightarrow> cbh_state" where
  "set_index s e i = s\<lparr>chn_index := (chn_index s)(e := i)\<rparr>"

text \<open>The loop of \<open>cfs_binheap_bubble\<close>: the current index and slot, \<open>did_sth\<close> and the state.\<close>

function cbh_bubble_loop ::
  "cfs_binheap_ops \<Rightarrow> node \<Rightarrow> nat \<Rightarrow> cbh_ptr \<Rightarrow> bool \<Rightarrow> cbh_state \<Rightarrow> (nat \<times> cbh_ptr \<times> bool \<times> cbh_state) option" where
  "cbh_bubble_loop ops e cur_idx cur_ptr did_sth s =
     (if cur_idx > 0 then
        let parent_idx = drop_bit 1 (cur_idx - 1) in do {
          parent_ptr \<leftarrow> cfs_binheap_pointer (cbh s) parent_idx;
          parent \<leftarrow> cbh_node (cbh s) parent_ptr;
          _ \<leftarrow> LASSERT (chn_index s parent = parent_idx);
          if hop_compare ops parent e then Some (cur_idx, cur_ptr, did_sth, s)
          else do {
            s \<leftarrow> cbh_put (set_index s parent cur_idx) cur_ptr parent;
            cbh_bubble_loop ops e parent_idx parent_ptr True s } }
      else Some (cur_idx, cur_ptr, did_sth, s))"
  by pat_completeness auto
termination
  by (relation "measure (\<lambda>(ops, e, cur_idx, cur_ptr, did_sth, s). cur_idx)") (auto simp: drop_bit_eq_div)

definition cfs_binheap_bubble :: "cfs_binheap_ops \<Rightarrow> cbh_state \<Rightarrow> node \<Rightarrow> (bool \<times> cbh_state) option" where
  "cfs_binheap_bubble ops s e = do {
     let cur_idx = chn_index s e;
     cur_ptr \<leftarrow> cfs_binheap_pointer (cbh s) cur_idx;
     v \<leftarrow> cbh_load (cbh s) cur_ptr;
     _ \<leftarrow> LASSERT (v = Some e);
     (cur_idx, cur_ptr, did_sth, s) \<leftarrow> cbh_bubble_loop ops e cur_idx cur_ptr False s;
     s \<leftarrow> cbh_put (set_index s e cur_idx) cur_ptr e;
     Some (did_sth, s) }"

function cbh_sink_loop ::
  "cfs_binheap_ops \<Rightarrow> nat \<Rightarrow> node \<Rightarrow> nat \<Rightarrow> cbh_ptr \<Rightarrow> bool \<Rightarrow> cbh_state \<Rightarrow> (nat \<times> cbh_ptr \<times> bool \<times> cbh_state) option" where
  "cbh_sink_loop ops n e cur_idx cur_ptr did_sth s =
     (if cur_idx < n then
        let child_idx = push_bit 1 cur_idx + 1 in
        if child_idx \<ge> n then Some (cur_idx, cur_ptr, did_sth, s)
        else do {
          child_ptr \<leftarrow> cfs_binheap_pointer (cbh s) child_idx;
          child \<leftarrow> cbh_node (cbh s) child_ptr;
          let child2_idx = child_idx + 1;
          take2 \<leftarrow>
            (if child2_idx < n then do {
               child2_ptr \<leftarrow> cfs_binheap_pointer (cbh s) child2_idx;
               child2 \<leftarrow> cbh_node (cbh s) child2_ptr;
               Some (if hop_compare ops child2 child then Some (child2_ptr, child2) else None) }
             else Some None);
          let (child_idx, child_ptr, child) =
            (case take2 of None \<Rightarrow> (child_idx, child_ptr, child) | Some (p, c) \<Rightarrow> (child2_idx, p, c));
          _ \<leftarrow> LASSERT (chn_index s child = child_idx);
          if hop_compare ops e child then Some (cur_idx, cur_ptr, did_sth, s)
          else do {
            s \<leftarrow> cbh_put (set_index s child cur_idx) cur_ptr child;
            cbh_sink_loop ops n e child_idx child_ptr True s } }
      else Some (cur_idx, cur_ptr, did_sth, s))"
  by pat_completeness auto
termination
  by (relation "measure (\<lambda>(ops, n, e, cur_idx, cur_ptr, did_sth, s). n - cur_idx)")
     (auto simp: push_bit_eq_mult split: option.splits if_splits)

definition cfs_binheap_sink :: "cfs_binheap_ops \<Rightarrow> cbh_state \<Rightarrow> node \<Rightarrow> (bool \<times> cbh_state) option" where
  "cfs_binheap_sink ops s e = do {
     let n = cbh_nelements (cbh s);
     let cur_idx = chn_index s e;
     cur_ptr \<leftarrow> cfs_binheap_pointer (cbh s) cur_idx;
     v \<leftarrow> cbh_load (cbh s) cur_ptr;
     _ \<leftarrow> LASSERT (v = Some e);
     (cur_idx, cur_ptr, did_sth, s) \<leftarrow> cbh_sink_loop ops n e cur_idx cur_ptr False s;
     s \<leftarrow> cbh_put (set_index s e cur_idx) cur_ptr e;
     Some (did_sth, s) }"

definition cfs_binheap_relocate :: "cfs_binheap_ops \<Rightarrow> cbh_state \<Rightarrow> node \<Rightarrow> cbh_state option" where
  "cfs_binheap_relocate ops s e = do {
     (did_sth, s) \<leftarrow> cfs_binheap_bubble ops s e;
     if \<not> did_sth then do { (_, s) \<leftarrow> cfs_binheap_sink ops s e; Some s } else Some s }"

definition cfs_binheap_insert ::
  "cfs_binheap_ops \<Rightarrow> (nat \<Rightarrow> bool) \<Rightarrow> cbh_state \<Rightarrow> node \<Rightarrow> (int \<times> cbh_state) option" where
  "cfs_binheap_insert ops alloc s e = do {
     let new_idx = cbh_nelements (cbh s);
     (rc, h) \<leftarrow> (if new_idx = cbh_hwm (cbh s) then cfs_binheap_grow alloc (cbh s) else Some (0, cbh s));
     let s = s\<lparr>cbh := h\<rparr>;
     if rc \<noteq> 0 then Some (rc, s)
     else
       let rc = (case hop_enter ops of None \<Rightarrow> 0 | Some f \<Rightarrow> f e) in
       if rc \<noteq> 0 then Some (rc, s)
       else do {
         let s = set_index s e new_idx;
         new_ptr \<leftarrow> cfs_binheap_pointer (cbh s) new_idx;
         let s = s\<lparr>cbh := (cbh s)\<lparr>cbh_nelements := cbh_nelements (cbh s) + 1\<rparr>\<rparr>;
         s \<leftarrow> cbh_put s new_ptr e;
         (_, s) \<leftarrow> cfs_binheap_bubble ops s e;
         Some (0, s) } }"

definition cfs_binheap_remove :: "cfs_binheap_ops \<Rightarrow> cbh_state \<Rightarrow> node \<Rightarrow> cbh_state option" where
  "cfs_binheap_remove ops s e = do {
     let n = cbh_nelements (cbh s);
     let cur_idx = chn_index s e;
     _ \<leftarrow> LASSERT (cur_idx \<noteq> CBH_POISON);
     _ \<leftarrow> LASSERT (cur_idx < n);
     cur_ptr \<leftarrow> cfs_binheap_pointer (cbh s) cur_idx;
     v \<leftarrow> cbh_load (cbh s) cur_ptr;
     _ \<leftarrow> LASSERT (v = Some e);
     let n = n - 1;
     last_ptr \<leftarrow> cfs_binheap_pointer (cbh s) n;
     lst \<leftarrow> cbh_load (cbh s) last_ptr;
     let s = s\<lparr>cbh := (cbh s)\<lparr>cbh_nelements := n\<rparr>\<rparr>;
     if lst = Some e then Some s
     else do {
       lst \<leftarrow> lst;
       s \<leftarrow> cbh_put (set_index s lst cur_idx) cur_ptr lst;
       v \<leftarrow> cbh_node (cbh s) cur_ptr;
       s \<leftarrow> cfs_binheap_relocate ops s v;
       let s = set_index s e CBH_POISON;
       Some (if hop_exit ops then s\<lparr>cbh_exits := cbh_exits s @ [e]\<rparr> else s) } }"

definition cfs_binheap_root :: "cfs_binheap \<Rightarrow> node option option" where
  "cfs_binheap_root h = cfs_binheap_find h 0"

definition cfs_binheap_remove_root :: "cfs_binheap_ops \<Rightarrow> cbh_state \<Rightarrow> (node option \<times> cbh_state) option" where
  "cfs_binheap_remove_root ops s = do {
     e \<leftarrow> cfs_binheap_find (cbh s) 0;
     case e of
       None \<Rightarrow> Some (None, s)
     | Some x \<Rightarrow> do { s \<leftarrow> cfs_binheap_remove ops s x; Some (Some x, s) } }"

section \<open>The array as a flat memory\<close>

named_theorems cbh_num \<open>the indirection levels in plain arithmetic\<close>

lemma cbh_consts [cbh_num]: "CBH_SHIFT = 9" "CBH_SIZE = 512" "CBH_MASK = 511"
  by (simp_all add: CBH_SHIFT_def CBH_SIZE_def CBH_MASK_def)

lemma and_511 [cbh_num]: "(x :: nat) AND 511 = x mod 512"
  using take_bit_eq_mask [of 9 x] by (simp add: take_bit_eq_mod mask_eq_exp_minus_1)

lemma drop_bit_levels [cbh_num]: "drop_bit 9 (x :: nat) = x div 512" "drop_bit 18 x = x div 512 div 512"
  by (simp_all add: drop_bit_eq_div flip: div_mult2_eq)

lemma sub_blocks: "k * 512 \<le> i \<Longrightarrow> (i - k * 512) div 512 = i div 512 - k" "k * 512 \<le> i \<Longrightarrow> (i - k * 512) mod 512 = (i :: nat) mod 512"
  by (auto simp: le_iff_add)

text \<open>
  The shape of a heap: with \<open>n\<close> blocks of 512 pointers in use, exactly those blocks and the
  arrays that lead to them are allocated.
\<close>

definition frag_ok :: "bool \<Rightarrow> frag option \<Rightarrow> bool" where
  "frag_ok b f \<longleftrightarrow> (case f of None \<Rightarrow> \<not> b | Some xs \<Rightarrow> b \<and> length xs = 512)"

definition row_ok :: "nat \<Rightarrow> frag option list option \<Rightarrow> bool" where
  "row_ok n r \<longleftrightarrow> (case r of None \<Rightarrow> n = 0 | Some fs \<Rightarrow> 0 < n \<and> length fs = 512 \<and> (\<forall>i<512. frag_ok (i < n) (fs ! i)))"

definition rows_ok :: "nat \<Rightarrow> frag option list option list option \<Rightarrow> bool" where
  "rows_ok n r \<longleftrightarrow> (case r of None \<Rightarrow> n = 0 | Some rs \<Rightarrow> 0 < n \<and> length rs = 512 \<and> (\<forall>i<512. row_ok (n - i * 512) (rs ! i)))"

definition shape :: "cfs_binheap \<Rightarrow> bool" where
  "shape h \<longleftrightarrow> (\<exists>n \<le> 262657. cbh_hwm h = n * 512 \<and> frag_ok (0 < n) (cbh_elements1 h) \<and>
     row_ok (n - 1) (cbh_elements2 h) \<and> rows_ok (n - 513) (cbh_elements3 h))"

text \<open>The content of the slot with a given index, through the indirection.\<close>

definition slot :: "cfs_binheap \<Rightarrow> nat \<Rightarrow> node option option" where
  "slot h i = do { p \<leftarrow> cfs_binheap_pointer h i; cbh_load h p }"

definition ptr_of :: "nat \<Rightarrow> cbh_ptr" where
  "ptr_of i = (let b = i div 512; k = i mod 512 in
     if b = 0 then P1 k else if b \<le> 512 then P2 (b - 1) k else P3 ((b - 513) div 512) ((b - 513) mod 512) k)"

lemma ptr_of_inj: "ptr_of i = ptr_of j \<Longrightarrow> i = j"
proof -
  assume eq: "ptr_of i = ptr_of j"
  have eqd: "x = y" if "x div 512 = y div 512" "x mod 512 = y mod 512" for x y :: nat
    using that by (metis div_mult_mod_eq)
  have "i div 512 = j div 512 \<and> i mod 512 = j mod 512"
  proof (cases "i div 512 \<le> 512 \<or> j div 512 \<le> 512")
    case True
    with eq show ?thesis by (auto simp: ptr_of_def Let_def split: if_splits) linarith
  next
    case False
    then have "i div 512 - 513 = j div 512 - 513" "i mod 512 = j mod 512"
      using eq by (auto simp: ptr_of_def Let_def intro: eqd)
    with False show ?thesis by linarith
  qed
  then show ?thesis by (blast intro: eqd)
qed

lemma row_okD: "row_ok n r \<Longrightarrow> i < n \<Longrightarrow> i < 512 \<Longrightarrow>
    \<exists>fs xs. r = Some fs \<and> length fs = 512 \<and> fs ! i = Some xs \<and> length xs = 512"
  by (fastforce simp: row_ok_def frag_ok_def split: option.splits)

lemma rows_okD: "rows_ok n r \<Longrightarrow> i < n \<Longrightarrow> i < 262144 \<Longrightarrow>
    \<exists>rs fs xs. r = Some rs \<and> length rs = 512 \<and> rs ! (i div 512) = Some fs \<and> length fs = 512 \<and>
      fs ! (i mod 512) = Some xs \<and> length xs = 512"
proof -
  assume a: "rows_ok n r" "i < n" "i < 262144"
  then obtain rs where rs: "r = Some rs" "length rs = 512" "\<forall>i<512. row_ok (n - i * 512) (rs ! i)"
    by (auto simp: rows_ok_def split: option.splits)
  have "i mod 512 < n - i div 512 * 512" using a(2) div_mult_mod_eq [of i 512] by linarith
  moreover have "i div 512 < 512" using a(3) by (simp add: less_mult_imp_div_less)
  ultimately show ?thesis using row_okD [of "n - i div 512 * 512" "rs ! (i div 512)" "i mod 512"] rs by auto
qed

lemma pointer3:
  assumes "\<not> i < 512" "\<not> i - 512 < 262144" "i - 512 - 262144 = j" "cbh_elements3 h = Some rs" "j div 512 div 512 < length rs"
    "rs ! (j div 512 div 512) = Some fs" "j div 512 mod 512 < length fs"
  shows "cfs_binheap_pointer h i = Some (P3 (j div 512 div 512) (j div 512 mod 512) (j mod 512))"
proof -
  have "(512 :: nat) * 512 = 262144" "(2 :: nat) * 9 = 18" by simp_all
  then show ?thesis unfolding cfs_binheap_pointer_def cbh_num Let_def
    by (simp only: assms if_False bind.bind_lunit arr_get_in drop_bit_levels)
qed

text \<open>Every index below the high water mark names a slot.\<close>

lemma shape_slot:
  assumes "shape h" "i < cbh_hwm h"
  shows "cfs_binheap_pointer h i = Some (ptr_of i)" "\<exists>v. cbh_load h (ptr_of i) = Some v"
proof -
  define b where "b = i div 512"
  obtain n where n: "n \<le> 262657" "cbh_hwm h = n * 512" "frag_ok (0 < n) (cbh_elements1 h)"
    "row_ok (n - 1) (cbh_elements2 h)" "rows_ok (n - 513) (cbh_elements3 h)" using assms(1) by (auto simp: shape_def)
  have b: "b < n" using assms(2) n(2) by (simp add: b_def less_mult_imp_div_less)
  have ib: "i = b * 512 + i mod 512" "i mod 512 < 512" by (simp_all add: b_def)
  consider "b = 0" | "1 \<le> b" "b \<le> 512" | "513 \<le> b" by linarith
  then have "cfs_binheap_pointer h i = Some (ptr_of i) \<and> (\<exists>v. cbh_load h (ptr_of i) = Some v)"
  proof cases
    case 1
    then have i: "i < 512" using ib by linarith
    have "frag_ok True (cbh_elements1 h)" using n(3) b by simp
    with i show ?thesis by (auto simp: frag_ok_def cfs_binheap_pointer_def cbh_num ptr_of_def split: option.splits)
  next
    case 2
    then have i: "1 * 512 \<le> i" "i - 512 < 262144" using ib by linarith+
    then have idx: "(i - 512) div 512 = b - 1" "(i - 512) mod 512 = i mod 512" using sub_blocks [OF i(1)] by (simp_all add: b_def)
    have b1: "b - 1 < n - 1" "b - 1 < 512" using 2 b by linarith+
    obtain fs xs where "cbh_elements2 h = Some fs" "length fs = 512" "fs ! (b - 1) = Some xs" "length xs = 512"
      using row_okD [OF n(4) b1] by blast
    moreover have "ptr_of i = P2 (b - 1) (i mod 512)" using 2 unfolding ptr_of_def b_def Let_def by simp
    ultimately show ?thesis using i idx 2 by (simp add: cfs_binheap_pointer_def cbh_num Let_def)
  next
    case 3
    then have i: "513 * 512 \<le> i" using ib by linarith
    then have idx: "(i - 262656) div 512 = b - 513" "(i - 262656) mod 512 = i mod 512" using sub_blocks [OF i] by (simp_all add: b_def)
    have b1: "b - 513 < n - 513" "b - 513 < 262144" using 3 b n(1) by linarith+
    obtain rs fs xs where "cbh_elements3 h = Some rs" "length rs = 512" "rs ! ((b - 513) div 512) = Some fs" "length fs = 512"
       "fs ! ((b - 513) mod 512) = Some xs" "length xs = 512"
      using rows_okD [OF n(5) b1] by blast
    moreover have "ptr_of i = P3 ((b - 513) div 512) ((b - 513) mod 512) (i mod 512)" using 3 unfolding ptr_of_def b_def Let_def by simp
    moreover have "(b - 513) div 512 < 512" using 3 b n(1) by (simp add: less_mult_imp_div_less)
    moreover obtain j where "i - 512 - 262144 = j" "j div 512 = b - 513" "j mod 512 = i mod 512" using idx by (simp add: diff_diff_left)
    moreover have "\<not> i < 512" "\<not> i - 512 < 262144" using i by linarith+
    ultimately show ?thesis using pointer3 [of i j h rs fs] by simp
  qed
  then show "cfs_binheap_pointer h i = Some (ptr_of i)" "\<exists>v. cbh_load h (ptr_of i) = Some v" by blast+
qed

lemma load_store:
  assumes "cbh_store h p v = Some h'"
  shows "cbh_load h' q = (if q = p then Some v else cbh_load h q)"
    "cfs_binheap_pointer h' i = cfs_binheap_pointer h i" "cbh_hwm h' = cbh_hwm h" "cbh_nelements h' = cbh_nelements h"
proof -
  show "cbh_load h' q = (if q = p then Some v else cbh_load h q)"
    using assms by (cases p; cases q) (auto elim!: bind_SomeE simp: arr_set_def arr_get_def nth_list_update split: if_splits)
  show "cfs_binheap_pointer h' i = cfs_binheap_pointer h i"
    using assms by (cases p) (auto elim!: bind_SomeE simp: arr_set_def arr_get_def nth_list_update cfs_binheap_pointer_def Let_def
        split: if_splits)
  show "cbh_hwm h' = cbh_hwm h" "cbh_nelements h' = cbh_nelements h" using assms by (cases p; auto simp: bind_eq_Some_conv)+
qed

lemma frag_ok_upd: "frag_ok b (Some f) \<Longrightarrow> frag_ok b (Some (f[i := v]))"
  by (simp add: frag_ok_def)

lemma row_ok_upd:
  assumes "row_ok n (Some fs)" "fs ! i = Some f"
  shows "row_ok n (Some (fs[i := Some (f[j := v])]))"
proof -
  have "frag_ok (k < n) (fs[i := Some (f[j := v])] ! k)" if "k < 512" for k
    using assms that frag_ok_upd by (cases "k = i") (auto simp: row_ok_def)
  then show ?thesis using assms(1) by (simp add: row_ok_def)
qed

lemma rows_ok_upd:
  assumes "rows_ok n (Some rs)" "rs ! i = Some fs" "\<And>m. row_ok m (Some fs) \<Longrightarrow> row_ok m (Some fs')"
  shows "rows_ok n (Some (rs[i := Some fs']))"
proof -
  have "row_ok (n - k * 512) (rs[i := Some fs'] ! k)" if "k < 512" for k
    using assms that by (cases "k = i") (auto simp: rows_ok_def)
  then show ?thesis using assms(1) by (simp add: rows_ok_def)
qed

lemma shape_store:
  assumes "shape h" "cbh_store h p v = Some h'"
  shows "shape h'"
proof -
  obtain n where n: "n \<le> 262657" "cbh_hwm h = n * 512" "frag_ok (0 < n) (cbh_elements1 h)"
    "row_ok (n - 1) (cbh_elements2 h)" "rows_ok (n - 513) (cbh_elements3 h)" using assms(1) by (auto simp: shape_def)
  have "frag_ok (0 < n) (cbh_elements1 h') \<and> row_ok (n - 1) (cbh_elements2 h') \<and> rows_ok (n - 513) (cbh_elements3 h')"
  proof (cases p)
    case (P1 i)
    with assms(2) obtain f where "cbh_elements1 h = Some f" "h' = h\<lparr>cbh_elements1 := Some (f[i := v])\<rparr>"
      by (auto elim!: bind_SomeE simp: arr_set_def split: if_splits)
    then show ?thesis using n frag_ok_upd by simp
  next
    case (P2 i j)
    with assms(2) obtain e2 f where "cbh_elements2 h = Some e2" "e2 ! i = Some f" "h' = h\<lparr>cbh_elements2 := Some (e2[i := Some (f[j := v])])\<rparr>"
      by (auto elim!: bind_SomeE simp: arr_set_def arr_get_def split: if_splits)
    then show ?thesis using n row_ok_upd by simp
  next
    case (P3 i j k)
    with assms(2) obtain e3 fs f where "cbh_elements3 h = Some e3" "e3 ! i = Some fs" "fs ! j = Some f"
      "h' = h\<lparr>cbh_elements3 := Some (e3[i := Some (fs[j := Some (f[k := v])])])\<rparr>"
      by (auto elim!: bind_SomeE simp: arr_set_def arr_get_def split: if_splits)
    then show ?thesis using n rows_ok_upd row_ok_upd by simp
  qed
  then show ?thesis using n load_store(3) [OF assms(2)] unfolding shape_def by metis
qed

text \<open>The three levels of indirection are one array: a store changes exactly one slot.\<close>

lemma slot_store:
  assumes "shape h" "i < cbh_hwm h"
  shows "\<exists>h'. cbh_store h (ptr_of i) v = Some h' \<and> shape h' \<and> cbh_hwm h' = cbh_hwm h \<and>
    cbh_nelements h' = cbh_nelements h \<and> (\<forall>j < cbh_hwm h. slot h' j = (if j = i then Some v else slot h j))"
proof -
  obtain w where "cbh_load h (ptr_of i) = Some w" using shape_slot [OF assms] by auto
  then obtain h' where h': "cbh_store h (ptr_of i) v = Some h'"
    by (cases "ptr_of i") (auto simp: bind_eq_Some_conv arr_set_def arr_get_eq_Some)
  have "slot h' j = (if j = i then Some v else slot h j)" if "j < cbh_hwm h" for j
    using shape_slot [OF assms(1) that] load_store [OF h'] ptr_of_inj by (auto simp: slot_def)
  with h' load_store [OF h'] shape_store [OF assms(1) h'] show ?thesis by blast
qed


section \<open>Growing\<close>

definition fresh :: "'a option list" where "fresh = replicate 512 None"

lemma fresh_simps [simp]: "length fresh = 512" "i < 512 \<Longrightarrow> fresh ! i = None" "CBH_ALLOC True = Some fresh" "CBH_ALLOC False = None"
  by (simp_all add: fresh_def CBH_ALLOC_def cbh_num)

lemma frag_ok_fresh [simp]: "frag_ok True (Some fresh)" "frag_ok False None"
  by (simp_all add: frag_ok_def)

lemma row_ok_None: "row_ok n None \<longleftrightarrow> n = 0"
  by (simp add: row_ok_def)

lemma row_ok_large: "512 \<le> n \<Longrightarrow> row_ok (Suc n) r = row_ok n r"
  by (auto simp: row_ok_def split: option.splits)

lemma row_ok_add:
  assumes "row_ok m r" "m < 512" "fs = (case r of None \<Rightarrow> fresh | Some fs \<Rightarrow> fs)"
  shows "length fs = 512" "row_ok (Suc m) (Some (fs[m := Some fresh]))"
proof -
  have fs: "length fs = 512" "\<And>i. i < 512 \<Longrightarrow> frag_ok (i < m) (fs ! i)"
    using assms(1,3) by (auto simp: row_ok_def split: option.splits)
  have "frag_ok (i < Suc m) (fs[m := Some fresh] ! i)" if "i < 512" for i
    using fs(2) [OF that] assms(2) fs(1) by (cases "i = m") (auto simp: less_Suc_eq)
  with fs(1) show "length fs = 512" "row_ok (Suc m) (Some (fs[m := Some fresh]))" by (simp_all add: row_ok_def)
qed

lemma rows_ok_add:
  assumes "rows_ok m r" "m < 262144" "rs = (case r of None \<Rightarrow> fresh | Some rs \<Rightarrow> rs)"
    "fs = (case rs ! (m div 512) of None \<Rightarrow> fresh | Some fs \<Rightarrow> fs)"
  shows "length rs = 512" "length fs = 512" "row_ok (m mod 512) (rs ! (m div 512))"
    "rows_ok (Suc m) (Some (rs[m div 512 := Some (fs[m mod 512 := Some fresh])]))"
proof -
  let ?q = "m div 512" and ?k = "m mod 512"
  have q: "?q < 512" using assms(2) by (simp add: less_mult_imp_div_less)
  have m: "m = ?q * 512 + ?k" "?k < 512" by simp_all
  have rs: "length rs = 512" "\<And>i. i < 512 \<Longrightarrow> row_ok (m - i * 512) (rs ! i)"
    using assms(1,3) by (auto simp: rows_ok_def row_ok_None split: option.splits)
  have mk: "m - ?q * 512 = ?k" "Suc m - ?q * 512 = Suc ?k" using m by linarith+
  have rq: "row_ok ?k (rs ! ?q)" using rs(2) [OF q] mk by simp
  note add = row_ok_add [OF rq m(2) assms(4)]
  have "row_ok (Suc m - i * 512) (rs[?q := Some (fs[?k := Some fresh])] ! i)" if "i < 512" for i
  proof (cases i ?q rule: linorder_cases)
    case less
    then have "i * 512 + 512 \<le> ?q * 512" using mult_le_mono1 [of "Suc i" ?q 512] by simp
    then have "512 \<le> m - i * 512" "Suc m - i * 512 = Suc (m - i * 512)" using m by linarith+
    then show ?thesis using rs(2) [OF that] less row_ok_large by simp
  next
    case equal
    then show ?thesis using add(2) mk rs(1) q by simp
  next
    case greater
    then have "?q * 512 + 512 \<le> i * 512" using mult_le_mono1 [of "Suc ?q" i 512] by simp
    then have "Suc m - i * 512 = 0" "m - i * 512 = 0" using m by linarith+
    then show ?thesis using rs(2) [OF that] greater by simp
  qed
  then show "rows_ok (Suc m) (Some (rs[?q := Some (fs[?k := Some fresh])]))" using rs(1) by (simp add: rows_ok_def)
  show "length rs = 512" "length fs = 512" "row_ok ?k (rs ! ?q)" using rs(1) add(1) rq by simp_all
qed

text \<open>The outcome of growing a heap: a larger array with the old content, or an error and the old heap.\<close>

definition grown :: "(nat \<Rightarrow> bool) \<Rightarrow> cfs_binheap \<Rightarrow> int \<times> cfs_binheap \<Rightarrow> bool" where
  "grown alloc h r \<longleftrightarrow> (case r of (rc, h') \<Rightarrow> shape h' \<and> cbh_nelements h' = cbh_nelements h \<and>
     (\<forall>i < cbh_hwm h. slot h' i = slot h i) \<and>
     (rc = 0 \<and> cbh_hwm h' = cbh_hwm h + 512 \<or> rc = - ENOMEM \<and> h' = h \<and> ((\<exists>n. \<not> alloc n) \<or> cbh_hwm h = 134480384)))"

lemma slot_ptr_of: "shape h \<Longrightarrow> i < cbh_hwm h \<Longrightarrow> slot h i = cbh_load h (ptr_of i)"
  by (simp add: slot_def shape_slot)

lemma grownI:
  assumes "shape h" "cbh_hwm h = n * 512" "n < 262657" "cbh_hwm h' = cbh_hwm h + 512" "cbh_nelements h' = cbh_nelements h"
    "frag_ok True (cbh_elements1 h')" "row_ok n (cbh_elements2 h')" "rows_ok (n - 512) (cbh_elements3 h')"
    "\<And>i. i < cbh_hwm h \<Longrightarrow> cbh_load h' (ptr_of i) = cbh_load h (ptr_of i)"
  shows "grown alloc h (0, h')"
proof -
  have "shape h'" unfolding shape_def by (rule exI [of _ "Suc n"]) (use assms in simp)
  then show ?thesis using assms by (simp add: grown_def slot_ptr_of)
qed

lemma grown_fail: "shape h \<Longrightarrow> \<not> alloc n \<or> cbh_hwm h = 134480384 \<Longrightarrow> grown alloc h (- ENOMEM, h)"
  by (auto simp: grown_def)

lemma grow_elements2:
  assumes "row_ok m (cbh_elements2 h)" "m < 512" "i < (m + 1) * 512" "fs = (case cbh_elements2 h of None \<Rightarrow> fresh | Some fs \<Rightarrow> fs)"
  shows "cbh_load (h\<lparr>cbh_elements2 := Some (fs[m := Some fresh]), cbh_hwm := x\<rparr>) (ptr_of i) = cbh_load h (ptr_of i)"
proof (cases "i div 512 = 0")
  case True
  then show ?thesis by (simp add: ptr_of_def)
next
  case False
  have b: "i div 512 < m + 1" using assms(3) less_mult_imp_div_less by blast
  then have "i div 512 - 1 \<noteq> m" "0 < m" "\<not> 512 < i div 512" using False assms(2) by linarith+
  moreover from this obtain e2 where "cbh_elements2 h = Some e2" using assms(1) by (cases "cbh_elements2 h") (auto simp: row_ok_def)
  ultimately show ?thesis using False assms(4) by (simp add: ptr_of_def Let_def arr_get_def)
qed

lemma grow_elements3:
  assumes "rows_ok m (cbh_elements3 h)" "m < 262144" "i < (m + 513) * 512"
    "rs = (case cbh_elements3 h of None \<Rightarrow> fresh | Some rs \<Rightarrow> rs)" "fs = (case rs ! (m div 512) of None \<Rightarrow> fresh | Some fs \<Rightarrow> fs)"
  shows "cbh_load (h\<lparr>cbh_elements3 := Some (rs[m div 512 := Some (fs[m mod 512 := Some fresh])]), cbh_hwm := x\<rparr>) (ptr_of i)
           = cbh_load h (ptr_of i)"
proof (cases "i div 512 \<le> 512")
  case True
  then show ?thesis by (simp add: ptr_of_def Let_def)
next
  case False
  define c where "c = i div 512 - 513"
  have "i div 512 < m + 513" using assms(3) less_mult_imp_div_less by blast
  then have c: "c < m" using False unfolding c_def by linarith
  have p: "ptr_of i = P3 (c div 512) (c mod 512) (i mod 512)" using False unfolding ptr_of_def Let_def c_def by simp
  note add = rows_ok_add [OF assms(1,2,4,5)]
  obtain e3 where e3: "cbh_elements3 h = Some e3" "rs = e3" using assms(1,4) c by (cases "cbh_elements3 h") (auto simp: rows_ok_def)
  show ?thesis
  proof (cases "c div 512 = m div 512")
    case True
    have cm: "c mod 512 < m mod 512" using c True div_mult_mod_eq [of c 512] div_mult_mod_eq [of m 512] by linarith
    then obtain f1 where "rs ! (m div 512) = Some f1" using add(3) by (cases "rs ! (m div 512)") (auto simp: row_ok_def)
    then show ?thesis using True p e3 assms(5) add(1) cm by (simp add: arr_get_def)
  next
    case False
    then show ?thesis using p e3 by (simp add: arr_get_def)
  qed
qed

lemma grow_first:
  assumes h: "shape h" "cbh_hwm h = 0"
  shows "\<exists>r. cfs_binheap_grow alloc h = Some r \<and> grown alloc h r"
proof -
  have e: "cbh_elements1 h = None" "cbh_elements2 h = None" "cbh_elements3 h = None"
    using h by (auto simp: shape_def frag_ok_def row_ok_def rows_ok_def split: option.splits)
  show ?thesis
  proof (cases "alloc 0")
    case True
    have "cfs_binheap_grow alloc h = Some (0, h\<lparr>cbh_elements1 := Some fresh, cbh_hwm := cbh_hwm h + 512\<rparr>)"
      using True h by (simp add: cfs_binheap_grow_def cbh_num)
    moreover have "grown alloc h (0, h\<lparr>cbh_elements1 := Some fresh, cbh_hwm := cbh_hwm h + 512\<rparr>)"
      using e h by (intro grownI [OF h(1), of 0]) (simp_all add: row_ok_def rows_ok_def)
    ultimately show ?thesis by blast
  next
    case False
    have "h\<lparr>cbh_elements1 := None\<rparr> = h" using e(1) by simp
    then show ?thesis using False h grown_fail [OF h(1), of alloc] by (simp add: cfs_binheap_grow_def cbh_num)
  qed
qed

lemma grow_double:
  assumes h: "shape h" "cbh_hwm h = (m + 1) * 512" "m < 512"
    and e1: "frag_ok True (cbh_elements1 h)" and e2: "row_ok m (cbh_elements2 h)" and e3: "rows_ok 0 (cbh_elements3 h)"
  shows "\<exists>r. cfs_binheap_grow alloc h = Some r \<and> grown alloc h r"
proof -
  define fs where "fs = (case cbh_elements2 h of None \<Rightarrow> fresh | Some fs \<Rightarrow> fs)"
  have nul: "cbh_elements2 h = None \<longleftrightarrow> m = 0" using e2 by (cases "cbh_elements2 h") (auto simp: row_ok_def)
  have hw: "cbh_hwm h - 512 = m * 512" "cbh_hwm h mod 512 = 0" "cbh_hwm h \<noteq> 0" "m * 512 < 262144" using h by simp_all
  have same: "h\<lparr>cbh_elements2 := None\<rparr> = h" if "m = 0" using nul that by simp
  note add = row_ok_add [OF e2 h(3) fs_def]
  let ?h' = "h\<lparr>cbh_elements2 := Some (fs[m := Some fresh]), cbh_hwm := cbh_hwm h + 512\<rparr>"
  have "grown alloc h (0, ?h')"
    using add(2) e1 e3 h(2,3) grow_elements2 [OF e2 h(3) _ fs_def] by (intro grownI [OF h(1,2)]) simp_all
  moreover have "cfs_binheap_grow alloc h = Some (if alloc 0 \<and> (m = 0 \<longrightarrow> alloc 1) then (0, ?h') else (- ENOMEM, h))"
    using nul add(1) h(3) same by (auto simp: cfs_binheap_grow_def cbh_num hw Let_def fs_def split: option.splits)
  ultimately show ?thesis using grown_fail [OF h(1), of alloc] by auto
qed

lemma grow_triple:
  assumes h: "shape h" "cbh_hwm h = (m + 513) * 512" "m \<le> 262144"
    and e1: "frag_ok True (cbh_elements1 h)" and e2: "row_ok (m + 512) (cbh_elements2 h)" and e3: "rows_ok m (cbh_elements3 h)"
  shows "\<exists>r. cfs_binheap_grow alloc h = Some r \<and> grown alloc h r"
proof (cases "m < 262144")
  case False
  then show ?thesis using h grown_fail [OF h(1), of alloc] by (simp add: cfs_binheap_grow_def cbh_num)
next
  case m: True
  define rs where "rs = (case cbh_elements3 h of None \<Rightarrow> fresh | Some rs \<Rightarrow> rs)"
  define fs where "fs = (case rs ! (m div 512) of None \<Rightarrow> fresh | Some fs \<Rightarrow> fs)"
  have nul: "cbh_elements3 h = None \<longleftrightarrow> m = 0" using e3 by (cases "cbh_elements3 h") (auto simp: rows_ok_def)
  have hw: "cbh_hwm h mod 512 = 0" "cbh_hwm h \<noteq> 0" "\<not> cbh_hwm h - 512 < 262144" "cbh_hwm h - 262656 = m * 512"
    "m * 512 < 134217728" using h m by simp_all
  have same: "h\<lparr>cbh_elements3 := None\<rparr> = h" if "m = 0" using nul that by simp
  note add = rows_ok_add [OF e3 m rs_def fs_def]
  have q: "m div 512 < 512" using m by (simp add: less_mult_imp_div_less)
  have first: "rs ! (m div 512) = None \<longleftrightarrow> m mod 512 = 0" using add(3) by (cases "rs ! (m div 512)") (auto simp: row_ok_def)
  let ?h' = "h\<lparr>cbh_elements3 := Some (rs[m div 512 := Some (fs[m mod 512 := Some fresh])]), cbh_hwm := cbh_hwm h + 512\<rparr>"
  have "grown alloc h (0, ?h')"
  proof (rule grownI [OF h(1,2)])
    show "row_ok (m + 513) (cbh_elements2 ?h')" using e2 row_ok_large [of "m + 512"] by (simp add: add.commute)
  qed (use add(4) e1 h(2) m grow_elements3 [OF e3 m _ rs_def fs_def] in simp_all)
  moreover have "cfs_binheap_grow alloc h =
      Some (if alloc 0 \<and> (m mod 512 = 0 \<longrightarrow> alloc 1) \<and> (m = 0 \<longrightarrow> alloc 2) then (0, ?h') else (- ENOMEM, h))"
  proof (cases "m = 0")
    case True
    then show ?thesis using nul same add(1,2) q rs_def fs_def
      by (cases "alloc 0"; cases "alloc 1"; cases "alloc 2") (simp_all add: cfs_binheap_grow_def cbh_num h(2) Let_def)
  next
    case False
    then have "cbh_elements3 h = Some rs" using nul rs_def by auto
    then show ?thesis using first add(1,2) q False fs_def m
      by (cases "alloc 0"; cases "rs ! (m div 512)"; cases "alloc 1") (simp_all add: cfs_binheap_grow_def cbh_num hw Let_def)
  qed
  ultimately show ?thesis using grown_fail [OF h(1), of alloc] by auto
qed

lemma grow_ok:
  assumes "shape h"
  shows "\<exists>r. cfs_binheap_grow alloc h = Some r \<and> grown alloc h r"
proof -
  obtain n where n: "n \<le> 262657" "cbh_hwm h = n * 512" "frag_ok (0 < n) (cbh_elements1 h)"
    "row_ok (n - 1) (cbh_elements2 h)" "rows_ok (n - 513) (cbh_elements3 h)" using assms by (auto simp: shape_def)
  consider "n = 0" | m where "n = m + 1" "m < 512" | m where "n = m + 513"
  proof -
    have "n = 0 \<or> n = (n - 1) + 1 \<and> n - 1 < 512 \<or> n = (n - 513) + 513" by linarith
    then show ?thesis using that by blast
  qed
  then show ?thesis
  proof cases
    case 1
    then show ?thesis using grow_first [OF assms] n(2) by simp
  next
    case 2
    then show ?thesis using grow_double [OF assms, of m] n by simp
  next
    case 3
    then show ?thesis using grow_triple [OF assms, of m] n by (simp add: add.commute [of 512 m])
  qed
qed


lemma preallocate_ok:
  "shape h \<Longrightarrow> cbh_nelements h = 0 \<Longrightarrow> \<exists>rc h'. cbh_preallocate alloc n cnt h = Some (rc, h') \<and> shape h' \<and> cbh_nelements h' = 0 \<and>
     (rc = 0 \<longrightarrow> cnt \<le> cbh_hwm h')"
proof (induction alloc n cnt h rule: cbh_preallocate.induct)
  case (1 alloc n cnt h)
  show ?case
  proof (cases "cbh_hwm h < cnt")
    case True
    obtain rc h' where g: "cfs_binheap_grow (alloc n) h = Some (rc, h')" "grown (alloc n) h (rc, h')"
      using grow_ok [OF "1.prems"(1), of "alloc n"] by auto
    then have "shape h'" "cbh_nelements h' = 0" using 1 by (simp_all add: grown_def)
    then show ?thesis using True g(1) "1.IH" [OF True g(1) refl] by (cases "rc = 0") simp_all
  next
    case False
    then show ?thesis using 1 by simp
  qed
qed

lemma shape_new: "shape cbh_new" "cbh_nelements cbh_new = 0"
  by (simp_all add: shape_def cbh_new_def frag_ok_def row_ok_def rows_ok_def)

section \<open>Destroying\<close>

fun block_alloc :: "cfs_binheap \<Rightarrow> cbh_block \<Rightarrow> bool" where
  "block_alloc h Elements1 \<longleftrightarrow> cbh_elements1 h \<noteq> None"
| "block_alloc h Elements2 \<longleftrightarrow> cbh_elements2 h \<noteq> None"
| "block_alloc h (Frag2 i) \<longleftrightarrow> (\<exists>e2. cbh_elements2 h = Some e2 \<and> i < length e2 \<and> e2 ! i \<noteq> None)"
| "block_alloc h Elements3 \<longleftrightarrow> cbh_elements3 h \<noteq> None"
| "block_alloc h (Frag31 i) \<longleftrightarrow> (\<exists>e3. cbh_elements3 h = Some e3 \<and> i < length e3 \<and> e3 ! i \<noteq> None)"
| "block_alloc h (Frag3 i j) \<longleftrightarrow>
     (\<exists>e3 f1. cbh_elements3 h = Some e3 \<and> i < length e3 \<and> e3 ! i = Some f1 \<and> j < length f1 \<and> f1 ! j \<noteq> None)"

lemma free_row:
  assumes "\<forall>i < length fs. frag_ok (i < n) (fs ! i)"
  shows "cbh_free_row b k fs (n * 512) = (map (\<lambda>i. b (k + i)) [0..<min n (length fs)], (n - length fs) * 512)"
  using assms
proof (induction fs arbitrary: k n)
  case (Cons f fs)
  show ?case
  proof (cases n)
    case (Suc m)
    have f: "f \<noteq> None" using Cons.prems [rule_format, of 0] Suc by (auto simp: frag_ok_def split: option.splits)
    have "frag_ok (i < m) (fs ! i)" if "i < length fs" for i using Cons.prems [rule_format, of "Suc i"] that Suc by simp
    then have "cbh_free_row b (Suc k) fs (m * 512) = (map (\<lambda>i. b (Suc k + i)) [0..<min m (length fs)], (m - length fs) * 512)"
      using Cons.IH by blast
    then show ?thesis using f Suc by (simp add: cbh_num CBH_FREE_def upt_conv_Cons map_Suc_upt [symmetric] del: upt_Suc)
  qed simp
qed simp


lemma free_row_set:
  assumes "row_ok n (Some fs)" "\<And>i j. b i = b j \<Longrightarrow> i = j"
  shows "\<exists>bs. cbh_free_row b 0 fs (n * 512) = (bs, (n - 512) * 512) \<and> distinct bs \<and> set bs = {b i |i. i < 512 \<and> fs ! i \<noteq> None}"
proof -
  have fs: "length fs = 512" "\<forall>i<512. frag_ok (i < n) (fs ! i)" using assms(1) by (simp_all add: row_ok_def)
  have nn: "fs ! i \<noteq> None \<longleftrightarrow> i < n" if "i < 512" for i using fs(2) [rule_format, OF that] by (auto simp: frag_ok_def split: option.splits)
  have "{0..<min n 512} = {i. i < 512 \<and> fs ! i \<noteq> None}" using nn by fastforce
  then have "b ` {0..<min n 512} = {b i |i. i < 512 \<and> fs ! i \<noteq> None}" by (simp only: image_Collect)
  then show ?thesis using free_row [of fs n b 0] fs assms(2) by (auto simp: distinct_map inj_on_def)
qed

definition rows_blocks :: "nat \<Rightarrow> frag option list option list \<Rightarrow> cbh_block set" where
  "rows_blocks k rs = {Frag31 (k + i) |i. i < length rs \<and> rs ! i \<noteq> None} \<union>
     {Frag3 (k + i) j |i j f1. i < length rs \<and> rs ! i = Some f1 \<and> j < 512 \<and> f1 ! j \<noteq> None}"

lemma rows_blocks_Cons:
  "rows_blocks k (r # rs) = (if r = None then {} else {Frag31 k}) \<union> {Frag3 k j |j f1. r = Some f1 \<and> j < 512 \<and> f1 ! j \<noteq> None} \<union> rows_blocks (Suc k) rs"
  unfolding rows_blocks_def by (auto simp: less_Suc_eq_0_disj)

lemma rows_blocks_ge: "b \<in> rows_blocks (Suc k) rs \<Longrightarrow> b \<noteq> Frag31 k \<and> b \<noteq> Frag3 k j"
  by (auto simp: rows_blocks_def)

lemma free_rows:
  assumes "\<forall>i < length rs. row_ok (n - i * 512) (rs ! i)"
  shows "\<exists>bs. cbh_free_rows k rs (n * 512) = Some bs \<and> distinct bs \<and> set bs = rows_blocks k rs"
  using assms
proof (induction rs arbitrary: k n)
  case Nil
  then show ?case by (simp add: rows_blocks_def)
next
  case (Cons r rs)
  have r: "row_ok n r" using Cons.prems by force
  have rs: "\<forall>i < length rs. row_ok (n - 512 - i * 512) (rs ! i)"
  proof (intro allI impI)
    fix i assume "i < length rs"
    then show "row_ok (n - 512 - i * 512) (rs ! i)" using Cons.prems [rule_format, of "Suc i"] by (simp add: algebra_simps)
  qed
  show ?case
  proof (cases "n = 0")
    case True
    have "r = None" using r True by (auto simp: row_ok_def split: option.splits)
    moreover have "rs ! i = None" if "i < length rs" for i
      using rs [rule_format, OF that] True by (auto simp: row_ok_def split: option.splits)
    moreover from this have "rows_blocks (Suc k) rs = {}" by (simp add: rows_blocks_def)
    ultimately show ?thesis using True by (simp add: rows_blocks_Cons)
  next
    case False
    then obtain f1 where f1: "r = Some f1" using r by (cases r) (auto simp: row_ok_def)
    obtain bs where bs: "cbh_free_row (Frag3 k) 0 f1 (n * 512) = (bs, (n - 512) * 512)" "distinct bs"
      "set bs = {Frag3 k i |i. i < 512 \<and> f1 ! i \<noteq> None}"
      using free_row_set [of n f1 "Frag3 k"] r f1 by blast
    obtain cs where cs: "cbh_free_rows (Suc k) rs ((n - 512) * 512) = Some cs" "distinct cs" "set cs = rows_blocks (Suc k) rs"
      using Cons.IH [OF rs] by blast
    have "set bs \<inter> set cs = {}" "Frag31 k \<notin> set cs" "Frag31 k \<notin> set bs" unfolding bs(3) cs(3) by (auto dest: rows_blocks_ge)
    then have "distinct (bs @ [Frag31 k] @ cs)" using bs(2) cs(2) by simp
    moreover have "cbh_free_rows k (r # rs) (n * 512) = Some (bs @ [Frag31 k] @ cs)"
      using False f1 bs(1) cs(1) by (simp add: CBH_FREE_def)
    moreover have "set (bs @ [Frag31 k] @ cs) = rows_blocks k (r # rs)"
      unfolding rows_blocks_Cons f1 set_append bs(3) cs(3) by simp
    ultimately show ?thesis by blast
  qed
qed


lemma destroy_level2:
  assumes "row_ok m (cbh_elements2 h)"
  shows "\<exists>bs. (if m * 512 > 0 then do {
       e2 \<leftarrow> cbh_elements2 h;
       let (bs, n) = cbh_free_row Frag2 0 e2 (m * 512);
       Some (bs @ CBH_FREE Elements2 (cbh_elements2 h), n) } else Some ([], m * 512)) = Some (bs, (m - 512) * 512) \<and>
     distinct bs \<and> set bs = {b. block_alloc h b \<and> (b = Elements2 \<or> (\<exists>i. b = Frag2 i))}"
proof (cases "cbh_elements2 h")
  case None
  then show ?thesis using assms by (auto simp: row_ok_def)
next
  case (Some e2)
  then have m: "0 < m" "length e2 = 512" using assms by (simp_all add: row_ok_def)
  obtain bs where "cbh_free_row Frag2 0 e2 (m * 512) = (bs, (m - 512) * 512)" "distinct bs"
    "set bs = {Frag2 i |i. i < 512 \<and> e2 ! i \<noteq> None}"
    using free_row_set [of m e2 Frag2] assms Some by auto
  with m Some show ?thesis by (auto simp: CBH_FREE_def)
qed

lemma destroy_level3:
  assumes "rows_ok m (cbh_elements3 h)"
  shows "\<exists>bs. (if m * 512 > 0 then do {
       e3 \<leftarrow> cbh_elements3 h;
       bs \<leftarrow> cbh_free_rows 0 e3 (m * 512);
       Some (bs @ CBH_FREE Elements3 (cbh_elements3 h)) } else Some []) = Some bs \<and>
     distinct bs \<and> set bs = {b. block_alloc h b \<and> (b = Elements3 \<or> (\<exists>i. b = Frag31 i) \<or> (\<exists>i j. b = Frag3 i j))}"
proof (cases "cbh_elements3 h")
  case None
  then show ?thesis using assms by (auto simp: rows_ok_def)
next
  case (Some e3)
  then have m: "0 < m" "length e3 = 512" "\<forall>i<512. row_ok (m - i * 512) (e3 ! i)" using assms by (simp_all add: rows_ok_def)
  obtain bs where bs: "cbh_free_rows 0 e3 (m * 512) = Some bs" "distinct bs" "set bs = rows_blocks 0 e3"
    using free_rows [of e3 m 0] m by auto
  have len: "length f1 = 512" if "e3 ! i = Some f1" "i < 512" for i f1 using m(3) that by (force simp: row_ok_def)
  have mem: "b \<in> set bs \<longleftrightarrow> block_alloc h b \<and> ((\<exists>i. b = Frag31 i) \<or> (\<exists>i j. b = Frag3 i j))" for b
    unfolding bs(3) rows_blocks_def using m(2) Some len by (cases b) auto
  have "b \<in> set (bs @ [Elements3]) \<longleftrightarrow> block_alloc h b \<and> (b = Elements3 \<or> (\<exists>i. b = Frag31 i) \<or> (\<exists>i j. b = Frag3 i j))" for b
    using mem [of b] Some by (cases b) simp_all
  then have "set (bs @ [Elements3]) = {b. block_alloc h b \<and> (b = Elements3 \<or> (\<exists>i. b = Frag31 i) \<or> (\<exists>i j. b = Frag3 i j))}"
    by (intro set_eqI) (simp only: mem_Collect_eq)
  moreover have "distinct (bs @ [Elements3])" using mem bs(2) by simp
  ultimately show ?thesis using m(1) Some bs(1) by (simp add: CBH_FREE_def)
qed

lemma destroy_ok:
  assumes "shape h"
  shows "\<exists>bs. cfs_binheap_destroy h = Some bs \<and> distinct bs \<and> set bs = {b. block_alloc h b}"
proof -
  obtain n where n: "n \<le> 262657" "cbh_hwm h = n * 512" "frag_ok (0 < n) (cbh_elements1 h)"
    "row_ok (n - 1) (cbh_elements2 h)" "rows_ok (n - 513) (cbh_elements3 h)" using assms by (auto simp: shape_def)
  have e1: "cbh_elements1 h \<noteq> None \<longleftrightarrow> 0 < n" using n(3) by (auto simp: frag_ok_def split: option.splits)
  obtain bs2 where bs2: "(if (n - 1) * 512 > 0 then do {
       e2 \<leftarrow> cbh_elements2 h;
       let (bs, n) = cbh_free_row Frag2 0 e2 ((n - 1) * 512);
       Some (bs @ CBH_FREE Elements2 (cbh_elements2 h), n) } else Some ([], (n - 1) * 512)) = Some (bs2, (n - 1 - 512) * 512)"
     "distinct bs2" "set bs2 = {b. block_alloc h b \<and> (b = Elements2 \<or> (\<exists>i. b = Frag2 i))}"
    using destroy_level2 [OF n(4)] by blast
  obtain bs3 where bs3: "(if (n - 513) * 512 > 0 then do {
       e3 \<leftarrow> cbh_elements3 h;
       bs \<leftarrow> cbh_free_rows 0 e3 ((n - 513) * 512);
       Some (bs @ CBH_FREE Elements3 (cbh_elements3 h)) } else Some []) = Some bs3"
    "distinct bs3" "set bs3 = {b. block_alloc h b \<and> (b = Elements3 \<or> (\<exists>i. b = Frag31 i) \<or> (\<exists>i j. b = Frag3 i j))}"
    using destroy_level3 [OF n(5)] by blast
  have bs1: "(if cbh_hwm h > 0 then (CBH_FREE Elements1 (cbh_elements1 h), cbh_hwm h - CBH_SIZE) else ([], cbh_hwm h))
      = (CBH_FREE Elements1 (cbh_elements1 h), (n - 1) * 512)"
    using n(2) e1 by (cases n) (simp_all add: CBH_FREE_def cbh_num)
  have n513: "n - 1 - 512 = n - 513" by simp
  have "cfs_binheap_destroy h = Some (CBH_FREE Elements1 (cbh_elements1 h) @ bs2 @ bs3)"
    unfolding cfs_binheap_destroy_def Let_def bs1 prod.case using bs2(1) bs3(1) unfolding n513 Let_def by simp
  moreover have "b \<in> set (CBH_FREE Elements1 (cbh_elements1 h) @ bs2 @ bs3) \<longleftrightarrow> block_alloc h b" for b
    using bs2(3) bs3(3) by (cases b) (auto simp: CBH_FREE_def)
  moreover have "distinct (CBH_FREE Elements1 (cbh_elements1 h) @ bs2 @ bs3)"
    using bs2(2,3) bs3(2,3) by (auto simp: CBH_FREE_def)
  ultimately show ?thesis by blast
qed

section \<open>The reference: a heap in a list\<close>

text \<open>
  The two loops on a list of nodes, with an exchange of two elements instead of a hole that is
  filled at the end.
\<close>

definition swap :: "'a list \<Rightarrow> nat \<Rightarrow> nat \<Rightarrow> 'a list" where
  "swap xs i j = xs[i := xs ! j, j := xs ! i]"

fun bubble_list :: "('a \<Rightarrow> 'a \<Rightarrow> bool) \<Rightarrow> 'a list \<Rightarrow> nat \<Rightarrow> 'a list" where
  "bubble_list cmp xs 0 = xs"
| "bubble_list cmp xs (Suc i) =
     (if cmp (xs ! (i div 2)) (xs ! Suc i) then xs else bubble_list cmp (swap xs (Suc i) (i div 2)) (i div 2))"

definition best_child :: "('a \<Rightarrow> 'a \<Rightarrow> bool) \<Rightarrow> 'a list \<Rightarrow> nat \<Rightarrow> nat" where
  "best_child cmp xs i =
     (if 2 * i + 2 < length xs \<and> cmp (xs ! (2 * i + 2)) (xs ! (2 * i + 1)) then 2 * i + 2 else 2 * i + 1)"

lemma length_swap [simp]: "length (swap xs i j) = length xs"
  by (simp add: swap_def)

lemma best_child_gt: "i < best_child cmp xs i"
  by (simp add: best_child_def)

function sink_list :: "('a \<Rightarrow> 'a \<Rightarrow> bool) \<Rightarrow> 'a list \<Rightarrow> nat \<Rightarrow> 'a list" where
  "sink_list cmp xs i =
     (if 2 * i + 1 < length xs \<and> \<not> cmp (xs ! i) (xs ! best_child cmp xs i)
      then sink_list cmp (swap xs i (best_child cmp xs i)) (best_child cmp xs i) else xs)"
  by pat_completeness auto
termination
  by (relation "measure (\<lambda>(cmp, xs, i). length xs - i)") (auto intro: diff_less_mono2 best_child_gt)

declare cbh_bubble_loop.simps [simp del] cbh_sink_loop.simps [simp del] sink_list.simps [simp del]

definition moved_up :: "('a \<Rightarrow> 'a \<Rightarrow> bool) \<Rightarrow> 'a list \<Rightarrow> nat \<Rightarrow> bool" where
  "moved_up cmp xs i \<longleftrightarrow> 0 < i \<and> \<not> cmp (xs ! ((i - 1) div 2)) (xs ! i)"

definition relocate_list :: "('a \<Rightarrow> 'a \<Rightarrow> bool) \<Rightarrow> 'a list \<Rightarrow> nat \<Rightarrow> 'a list" where
  "relocate_list cmp xs i = (if moved_up cmp xs i then bubble_list cmp xs i else sink_list cmp xs i)"

definition remove_list :: "('a \<Rightarrow> 'a \<Rightarrow> bool) \<Rightarrow> 'a list \<Rightarrow> nat \<Rightarrow> 'a list" where
  "remove_list cmp xs i =
     (if i = length xs - 1 then butlast xs else relocate_list cmp (butlast (xs[i := last xs])) i)"

text \<open>A heap represents a list: slot \<open>i\<close> points to the \<open>i\<close>-th node, which knows its index.\<close>

definition rep :: "cbh_state \<Rightarrow> node list \<Rightarrow> bool" where
  "rep s xs \<longleftrightarrow> shape (cbh s) \<and> cbh_nelements (cbh s) = length xs \<and> length xs \<le> cbh_hwm (cbh s) \<and>
     (\<forall>i < length xs. slot (cbh s) i = Some (Some (xs ! i)) \<and> chn_index s (xs ! i) = i)"

text \<open>The same while the node at index \<open>k\<close> is being moved: its slot and its index are stale.\<close>

definition rep_hole :: "cbh_state \<Rightarrow> node list \<Rightarrow> nat \<Rightarrow> bool" where
  "rep_hole s xs k \<longleftrightarrow> shape (cbh s) \<and> cbh_nelements (cbh s) = length xs \<and> length xs \<le> cbh_hwm (cbh s) \<and>
     k < length xs \<and> distinct xs \<and>
     (\<forall>i < length xs. i \<noteq> k \<longrightarrow> slot (cbh s) i = Some (Some (xs ! i)) \<and> chn_index s (xs ! i) = i)"

lemma rep_distinct: "rep s xs \<Longrightarrow> distinct xs"
  by (metis distinct_conv_nth rep_def)

lemma rep_hole_intro: "rep s xs \<Longrightarrow> k < length xs \<Longrightarrow> rep_hole s xs k"
  using rep_distinct by (auto simp: rep_def rep_hole_def)

lemma rep_pointer:
  assumes "rep_hole s xs k" "i < length xs"
  shows "cfs_binheap_pointer (cbh s) i = Some (ptr_of i)"
    "i \<noteq> k \<Longrightarrow> cbh_load (cbh s) (ptr_of i) = Some (Some (xs ! i))" "i \<noteq> k \<Longrightarrow> cbh_node (cbh s) (ptr_of i) = Some (xs ! i)"
    "i \<noteq> k \<Longrightarrow> chn_index s (xs ! i) = i"
  using assms shape_slot [of "cbh s" i] slot_ptr_of [of "cbh s" i] by (auto simp: rep_hole_def cbh_node_def)

text \<open>Moving the node at index \<open>j\<close> into the hole at \<open>k\<close> makes \<open>j\<close> the hole.\<close>

lemma rep_move:
  assumes "rep_hole s xs k" "j < length xs" "j \<noteq> k"
  shows "\<exists>s'. cbh_put (set_index s (xs ! j) k) (ptr_of k) (xs ! j) = Some s' \<and> rep_hole s' (swap xs k j) j \<and>
    cbh_exits s' = cbh_exits s \<and> (\<forall>x. x \<notin> set xs \<longrightarrow> chn_index s' x = chn_index s x)"
proof -
  have r: "shape (cbh s)" "cbh_nelements (cbh s) = length xs" "length xs \<le> cbh_hwm (cbh s)" "k < length xs" "distinct xs"
    "\<And>i. i < length xs \<Longrightarrow> i \<noteq> k \<Longrightarrow> slot (cbh s) i = Some (Some (xs ! i)) \<and> chn_index s (xs ! i) = i"
    using assms(1) by (auto simp: rep_hole_def)
  obtain h' where h': "cbh_store (cbh s) (ptr_of k) (Some (xs ! j)) = Some h'" "shape h'" "cbh_hwm h' = cbh_hwm (cbh s)"
    "cbh_nelements h' = cbh_nelements (cbh s)" "\<forall>i < cbh_hwm (cbh s). slot h' i = (if i = k then Some (Some (xs ! j)) else slot (cbh s) i)"
    using slot_store [OF r(1), of k "Some (xs ! j)"] r(3,4) by auto
  let ?s = "set_index s (xs ! j) k\<lparr>cbh := h'\<rparr>"
  have "distinct (swap xs k j)" using r(4,5) assms(2) by (simp add: swap_def)
  moreover have "slot h' i = Some (Some (swap xs k j ! i)) \<and> chn_index ?s (swap xs k j ! i) = i" if "i < length xs" "i \<noteq> j" for i
    using that r(4,5) r(6) [of i] h'(5) r(3) assms(2,3) by (auto simp: swap_def nth_list_update set_index_def nth_eq_iff_index_eq)
  ultimately have "rep_hole ?s (swap xs k j) j" using h' r assms(2) by (simp add: rep_hole_def set_index_def)
  then show ?thesis using h'(1) assms(2) by (auto simp: cbh_put_def set_index_def)
qed

text \<open>Putting the moved node into the hole ends the move.\<close>

lemma rep_close:
  assumes "rep_hole s xs k"
  shows "\<exists>s'. cbh_put (set_index s (xs ! k) k) (ptr_of k) (xs ! k) = Some s' \<and> rep s' xs \<and>
    cbh_exits s' = cbh_exits s \<and> (\<forall>x. x \<notin> set xs \<longrightarrow> chn_index s' x = chn_index s x)"
proof -
  have r: "shape (cbh s)" "cbh_nelements (cbh s) = length xs" "length xs \<le> cbh_hwm (cbh s)" "k < length xs" "distinct xs"
    "\<And>i. i < length xs \<Longrightarrow> i \<noteq> k \<Longrightarrow> slot (cbh s) i = Some (Some (xs ! i)) \<and> chn_index s (xs ! i) = i"
    using assms(1) by (auto simp: rep_hole_def)
  obtain h' where h': "cbh_store (cbh s) (ptr_of k) (Some (xs ! k)) = Some h'" "shape h'" "cbh_hwm h' = cbh_hwm (cbh s)"
    "cbh_nelements h' = cbh_nelements (cbh s)" "\<forall>i < cbh_hwm (cbh s). slot h' i = (if i = k then Some (Some (xs ! k)) else slot (cbh s) i)"
    using slot_store [OF r(1), of k "Some (xs ! k)"] r(3,4) by auto
  let ?s = "set_index s (xs ! k) k\<lparr>cbh := h'\<rparr>"
  have "slot h' i = Some (Some (xs ! i)) \<and> chn_index ?s (xs ! i) = i" if "i < length xs" for i
    using that r(4,5) r(6) [of i] h'(5) r(3) by (auto simp: set_index_def nth_eq_iff_index_eq)
  then have "rep ?s xs" using h' r by (simp add: rep_def set_index_def)
  then show ?thesis using h'(1) r(4) by (auto simp: cbh_put_def set_index_def)
qed


lemma set_swap [simp]: "i < length xs \<Longrightarrow> j < length xs \<Longrightarrow> set (swap xs i j) = set xs"
  by (simp add: swap_def)

lemma mset_swap [simp]: "i < length xs \<Longrightarrow> j < length xs \<Longrightarrow> mset (swap xs i j) = mset xs"
  by (simp add: swap_def mset_swap)

lemma nth_swap [simp]: "i < length xs \<Longrightarrow> j < length xs \<Longrightarrow> swap xs i j ! j = xs ! i"
  by (simp add: swap_def)

definition unchanged :: "cbh_state \<Rightarrow> cbh_state \<Rightarrow> node set \<Rightarrow> bool" where
  "unchanged s s' X \<longleftrightarrow> cbh_exits s' = cbh_exits s \<and> (\<forall>x. x \<notin> X \<longrightarrow> chn_index s' x = chn_index s x)"

lemma unchanged_refl [simp]: "unchanged s s X"
  by (simp add: unchanged_def)

lemma unchanged_trans: "unchanged s s' X \<Longrightarrow> unchanged s' s'' X \<Longrightarrow> unchanged s s'' X"
  by (simp add: unchanged_def)

lemma bubble_loop_refines:
  assumes "rep_hole s xs k"
  shows "\<exists>k' did' s'. cbh_bubble_loop ops (xs ! k) k (ptr_of k) did s = Some (k', ptr_of k', did', s') \<and>
    rep_hole s' (bubble_list (hop_compare ops) xs k) k' \<and> bubble_list (hop_compare ops) xs k ! k' = xs ! k \<and>
    did' = (did \<or> moved_up (hop_compare ops) xs k) \<and> unchanged s s' (set xs)"
  using assms
proof (induction k arbitrary: s xs did rule: less_induct)
  case (less k)
  show ?case
  proof (cases k)
    case 0
    then show ?thesis using less.prems by (auto simp: moved_up_def cbh_bubble_loop.simps [of _ _ 0])
  next
    case (Suc i)
    let ?p = "i div 2"
    have p: "?p < length xs" "?p \<noteq> k" "?p < k" "k < length xs" using less.prems Suc by (auto simp: rep_hole_def)
    note ptr = rep_pointer [OF less.prems p(1)]
    have eval: "cbh_bubble_loop ops (xs ! k) k (ptr_of k) did s =
      (if hop_compare ops (xs ! ?p) (xs ! k) then Some (k, ptr_of k, did, s)
       else do { s' \<leftarrow> cbh_put (set_index s (xs ! ?p) k) (ptr_of k) (xs ! ?p); cbh_bubble_loop ops (xs ! k) ?p (ptr_of ?p) True s' })"
      using ptr p Suc by (subst cbh_bubble_loop.simps) (simp add: drop_bit_eq_div Let_def)
    show ?thesis
    proof (cases "hop_compare ops (xs ! ?p) (xs ! k)")
      case True
      then show ?thesis using eval less.prems Suc by (auto simp: moved_up_def)
    next
      case False
      obtain s' where s': "cbh_put (set_index s (xs ! ?p) k) (ptr_of k) (xs ! ?p) = Some s'" "rep_hole s' (swap xs k ?p) ?p"
        "unchanged s s' (set xs)"
        using rep_move [OF less.prems p(1,2)] by (auto simp: unchanged_def)
      show ?thesis using less.IH [OF p(3) s'(2), of True] eval False s' p Suc unchanged_trans [OF s'(3)]
        by (simp add: moved_up_def) blast
    qed
  qed
qed

lemma bubble_list_mset: "k < length xs \<Longrightarrow> mset (bubble_list cmp xs k) = mset xs"
  by (induction cmp xs k rule: bubble_list.induct) auto

lemma bubble_refines:
  assumes "rep s xs" "k < length xs"
  shows "\<exists>s'. cfs_binheap_bubble ops s (xs ! k) = Some (moved_up (hop_compare ops) xs k, s') \<and>
    rep s' (bubble_list (hop_compare ops) xs k) \<and> unchanged s s' (set xs)"
proof -
  have hole: "rep_hole s xs k" using rep_hole_intro [OF assms] .
  have k: "chn_index s (xs ! k) = k" "cbh_load (cbh s) (ptr_of k) = Some (Some (xs ! k))" "cfs_binheap_pointer (cbh s) k = Some (ptr_of k)"
    using assms shape_slot [of "cbh s" k] slot_ptr_of [of "cbh s" k] by (auto simp: rep_def)
  let ?ys = "bubble_list (hop_compare ops) xs k"
  obtain k' s' where l: "cbh_bubble_loop ops (xs ! k) k (ptr_of k) False s = Some (k', ptr_of k', moved_up (hop_compare ops) xs k, s')"
    "rep_hole s' ?ys k'" "?ys ! k' = xs ! k" "unchanged s s' (set xs)"
    using bubble_loop_refines [OF hole, of ops False] by auto
  have "set ?ys = set xs" using bubble_list_mset [OF assms(2)] by (metis set_mset_mset)
  then show ?thesis using rep_close [OF l(2)] l k unfolding cfs_binheap_bubble_def Let_def
    by (auto simp: unchanged_def)
qed


lemma sink_list_mset: "i < length xs \<Longrightarrow> mset (sink_list cmp xs i) = mset xs"
proof (induction cmp xs i rule: sink_list.induct)
  case (1 cmp xs i)
  show ?case
  proof (cases "2 * i + 1 < length xs \<and> \<not> cmp (xs ! i) (xs ! best_child cmp xs i)")
    case True
    then have "best_child cmp xs i < length xs" by (auto simp: best_child_def)
    then show ?thesis using True "1.IH" "1.prems" by (subst sink_list.simps) simp
  next
    case False
    then show ?thesis by (subst sink_list.simps) (simp only: if_False)
  qed
qed

lemma push_bit_1: "push_bit (Suc 0) (k :: nat) = 2 * k" "push_bit 1 (k :: nat) = 2 * k"
  by (simp_all add: push_bit_eq_mult)

lemma sink_loop_refines:
  assumes "rep_hole s xs k"
  shows "\<exists>k' did' s'. cbh_sink_loop ops (length xs) (xs ! k) k (ptr_of k) did s = Some (k', ptr_of k', did', s') \<and>
    rep_hole s' (sink_list (hop_compare ops) xs k) k' \<and> sink_list (hop_compare ops) xs k ! k' = xs ! k \<and> unchanged s s' (set xs)"
  using assms
proof (induction "length xs - k" arbitrary: s xs k did rule: less_induct)
  case less
  let ?cmp = "hop_compare ops" let ?c = "best_child ?cmp xs k"
  have k: "k < length xs" using less.prems by (simp add: rep_hole_def)
  show ?case
  proof (cases "2 * k + 1 < length xs")
    case False
    then show ?thesis using less.prems k
      by (subst cbh_sink_loop.simps, subst (1 2) sink_list.simps, unfold push_bit_1) (auto simp: Let_def)
  next
    case True
    have c: "?c < length xs" "?c \<noteq> k" "k < ?c" using True best_child_gt [of k ?cmp xs] by (auto simp: best_child_def)
    note ptr1 = rep_pointer [OF less.prems True] and ptr2 = rep_pointer [OF less.prems, of "2 * k + 2"] and ptrc = rep_pointer [OF less.prems c(1)]
    have eval: "cbh_sink_loop ops (length xs) (xs ! k) k (ptr_of k) did s =
      (if ?cmp (xs ! k) (xs ! ?c) then Some (k, ptr_of k, did, s)
       else do { s' \<leftarrow> cbh_put (set_index s (xs ! ?c) k) (ptr_of k) (xs ! ?c);
                 cbh_sink_loop ops (length xs) (xs ! k) ?c (ptr_of ?c) True s' })"
      using ptr1 ptr2 ptrc(4) c(2) True k
      by (subst cbh_sink_loop.simps, unfold push_bit_1) (auto simp: Let_def best_child_def)
    show ?thesis
    proof (cases "?cmp (xs ! k) (xs ! ?c)")
      case stop: True
      then show ?thesis using eval less.prems True by (subst (1 2) sink_list.simps) auto
    next
      case False
      obtain s' where s': "cbh_put (set_index s (xs ! ?c) k) (ptr_of k) (xs ! ?c) = Some s'" "rep_hole s' (swap xs k ?c) ?c"
        "unchanged s s' (set xs)"
        using rep_move [OF less.prems c(1,2)] by (auto simp: unchanged_def)
      have sk: "sink_list ?cmp xs k = sink_list ?cmp (swap xs k ?c) ?c" using True False by (subst sink_list.simps) simp
      have "length (swap xs k ?c) - ?c < length xs - k" using c k by simp
      from less.hyps [OF this s'(2), of True]
      show ?thesis using eval False s' c k unchanged_trans [OF s'(3)] unfolding sk by simp blast
    qed
  qed
qed

lemma sink_refines:
  assumes "rep s xs" "k < length xs"
  shows "\<exists>did s'. cfs_binheap_sink ops s (xs ! k) = Some (did, s') \<and>
    rep s' (sink_list (hop_compare ops) xs k) \<and> unchanged s s' (set xs)"
proof -
  have hole: "rep_hole s xs k" using rep_hole_intro [OF assms] .
  have k: "chn_index s (xs ! k) = k" "cbh_load (cbh s) (ptr_of k) = Some (Some (xs ! k))" "cfs_binheap_pointer (cbh s) k = Some (ptr_of k)"
    "cbh_nelements (cbh s) = length xs"
    using assms shape_slot [of "cbh s" k] slot_ptr_of [of "cbh s" k] by (auto simp: rep_def)
  let ?ys = "sink_list (hop_compare ops) xs k"
  obtain k' did s' where l: "cbh_sink_loop ops (length xs) (xs ! k) k (ptr_of k) False s = Some (k', ptr_of k', did, s')"
    "rep_hole s' ?ys k'" "?ys ! k' = xs ! k" "unchanged s s' (set xs)"
    using sink_loop_refines [OF hole, of ops False] by auto
  have "set ?ys = set xs" using sink_list_mset [OF assms(2)] by (metis set_mset_mset)
  then show ?thesis using rep_close [OF l(2)] l k unfolding cfs_binheap_sink_def Let_def
    by (auto simp: unchanged_def)
qed

lemma relocate_refines:
  assumes "rep s xs" "k < length xs"
  shows "\<exists>s'. cfs_binheap_relocate ops s (xs ! k) = Some s' \<and> rep s' (relocate_list (hop_compare ops) xs k) \<and> unchanged s s' (set xs)"
proof -
  let ?cmp = "hop_compare ops"
  obtain s1 where s1: "cfs_binheap_bubble ops s (xs ! k) = Some (moved_up ?cmp xs k, s1)" "rep s1 (bubble_list ?cmp xs k)"
    "unchanged s s1 (set xs)"
    using bubble_refines [OF assms, of ops] by auto
  show ?thesis
  proof (cases "moved_up ?cmp xs k")
    case True
    then show ?thesis using s1 by (auto simp: cfs_binheap_relocate_def relocate_list_def)
  next
    case False
    then have "bubble_list ?cmp xs k = xs" by (cases k) (auto simp: moved_up_def)
    then obtain did s2 where "cfs_binheap_sink ops s1 (xs ! k) = Some (did, s2)" "rep s2 (sink_list ?cmp xs k)" "unchanged s1 s2 (set xs)"
      using sink_refines [OF _ assms(2), of s1 ops] s1(2) by auto
    then show ?thesis using s1 False unchanged_trans [OF s1(3)] by (auto simp: cfs_binheap_relocate_def relocate_list_def)
  qed
qed

lemma unchanged_mono: "unchanged s s' X \<Longrightarrow> X \<subseteq> Y \<Longrightarrow> unchanged s s' Y"
  by (auto simp: unchanged_def)

text \<open>The array below the insertion point, after growing it when it is full.\<close>

lemma insert_room:
  assumes "rep s xs"
  shows "\<exists>rc h. (if cbh_nelements (cbh s) = cbh_hwm (cbh s) then cfs_binheap_grow alloc (cbh s) else Some (0, cbh s)) = Some (rc, h) \<and>
    rep (s\<lparr>cbh := h\<rparr>) xs \<and> (rc = 0 \<longrightarrow> length xs < cbh_hwm h) \<and>
    (rc \<noteq> 0 \<longrightarrow> rc = - ENOMEM \<and> h = cbh s \<and> ((\<exists>n. \<not> alloc n) \<or> length xs = 134480384))"
proof (cases "cbh_nelements (cbh s) = cbh_hwm (cbh s)")
  case True
  obtain rc h where g: "cfs_binheap_grow alloc (cbh s) = Some (rc, h)" "grown alloc (cbh s) (rc, h)"
    using grow_ok [of "cbh s" alloc] assms by (auto simp: rep_def)
  then show ?thesis using True assms by (auto simp: rep_def grown_def ENOMEM_def)
next
  case False
  then show ?thesis using assms by (auto simp: rep_def)
qed

lemma nelements_upd [simp]:
  "cfs_binheap_pointer (h\<lparr>cbh_nelements := n\<rparr>) i = cfs_binheap_pointer h i"
  "cbh_load (h\<lparr>cbh_nelements := n\<rparr>) p = cbh_load h p"
  "slot (h\<lparr>cbh_nelements := n\<rparr>) i = slot h i"
  "shape (h\<lparr>cbh_nelements := n\<rparr>) = shape h"
proof -
  show ptr: "cfs_binheap_pointer (h\<lparr>cbh_nelements := n\<rparr>) i = cfs_binheap_pointer h i" for i by (simp add: cfs_binheap_pointer_def Let_def)
  show ld: "cbh_load (h\<lparr>cbh_nelements := n\<rparr>) p = cbh_load h p" for p by (cases p) simp_all
  show "slot (h\<lparr>cbh_nelements := n\<rparr>) i = slot h i" by (simp add: slot_def ptr ld)
  show "shape (h\<lparr>cbh_nelements := n\<rparr>) = shape h" by (simp add: shape_def)
qed

text \<open>Setting the length to \<open>n\<close>, writing a node to slot \<open>k\<close> and telling it its index.\<close>

lemma rep_write:
  assumes "shape (cbh s)" "k < cbh_hwm (cbh s)" "length ys \<le> cbh_hwm (cbh s)" "k < length ys" "distinct ys"
    "\<And>i. i < length ys \<Longrightarrow> i \<noteq> k \<Longrightarrow> slot (cbh s) i = Some (Some (ys ! i)) \<and> chn_index s (ys ! i) = i"
  shows "\<exists>s'. cbh_put (set_index s (ys ! k) k\<lparr>cbh := (cbh s)\<lparr>cbh_nelements := length ys\<rparr>\<rparr>) (ptr_of k) (ys ! k) = Some s' \<and>
    rep s' ys \<and> unchanged s s' {ys ! k} \<and> cbh_node (cbh s') (ptr_of k) = Some (ys ! k)"
proof -
  let ?h = "(cbh s)\<lparr>cbh_nelements := length ys\<rparr>"
  have "shape ?h" "k < cbh_hwm ?h" using assms(1,2) by simp_all
  then obtain h' where h': "cbh_store ?h (ptr_of k) (Some (ys ! k)) = Some h'" "shape h'" "cbh_hwm h' = cbh_hwm (cbh s)"
    "cbh_nelements h' = length ys" "\<forall>i < cbh_hwm (cbh s). slot h' i = (if i = k then Some (Some (ys ! k)) else slot (cbh s) i)"
    using slot_store [of ?h k "Some (ys ! k)"] by auto
  let ?s = "set_index s (ys ! k) k\<lparr>cbh := h'\<rparr>"
  have "slot h' i = Some (Some (ys ! i)) \<and> chn_index ?s (ys ! i) = i" if "i < length ys" for i
    using that assms(3-5) assms(6) [of i] h'(5) by (auto simp: set_index_def nth_eq_iff_index_eq)
  then have "rep ?s ys" using h' assms(3) by (simp add: rep_def)
  moreover have "cbh_node h' (ptr_of k) = Some (ys ! k)" using load_store(1) [OF h'(1), of "ptr_of k"] by (simp add: cbh_node_def)
  ultimately show ?thesis using h'(1) by (auto simp: cbh_put_def unchanged_def set_index_def)
qed

lemma insert_refines:
  assumes "rep s xs" "e \<notin> set xs"
  shows "\<exists>rc s'. cfs_binheap_insert ops alloc s e = Some (rc, s') \<and>
    (rc = 0 \<longrightarrow> rep s' (bubble_list (hop_compare ops) (xs @ [e]) (length xs)) \<and> unchanged s s' (insert e (set xs))) \<and>
    (rc \<noteq> 0 \<longrightarrow> rep s' xs \<and> unchanged s s' {} \<and>
       ((\<exists>n. \<not> alloc n) \<or> length xs = 134480384 \<or> (\<exists>f. hop_enter ops = Some f \<and> f e \<noteq> 0)))"
proof -
  obtain rc h where room: "(if cbh_nelements (cbh s) = cbh_hwm (cbh s) then cfs_binheap_grow alloc (cbh s) else Some (0, cbh s)) = Some (rc, h)"
    "rep (s\<lparr>cbh := h\<rparr>) xs" "rc = 0 \<longrightarrow> length xs < cbh_hwm h"
    "rc \<noteq> 0 \<longrightarrow> rc = - ENOMEM \<and> h = cbh s \<and> ((\<exists>n. \<not> alloc n) \<or> length xs = 134480384)"
    using insert_room [OF assms(1)] by metis
  define er where "er = (case hop_enter ops of None \<Rightarrow> 0 | Some f \<Rightarrow> f e)"
  have n: "cbh_nelements (cbh s) = length xs" "cbh_nelements h = length xs" using assms(1) room(2) by (simp_all add: rep_def)
  show ?thesis
  proof (cases "rc \<noteq> 0 \<or> er \<noteq> 0")
    case True
    have "(\<exists>f. hop_enter ops = Some f \<and> f e \<noteq> 0) \<longleftrightarrow> er \<noteq> 0" by (auto simp: er_def split: option.splits)
    moreover have "unchanged s (s\<lparr>cbh := h\<rparr>) {}" by (simp add: unchanged_def)
    ultimately show ?thesis using True room er_def n(1)
      unfolding cfs_binheap_insert_def Let_def by (cases "rc = 0") auto
  next
    case False
    let ?ys = "xs @ [e]" let ?s0 = "s\<lparr>cbh := h\<rparr>"
    have r: "shape h" "length xs < cbh_hwm h" "distinct xs" "\<And>i. i < length xs \<Longrightarrow> slot h i = Some (Some (xs ! i)) \<and> chn_index s (xs ! i) = i"
      using room(2,3) rep_distinct [OF assms(1)] False by (auto simp: rep_def)
    have ptr: "cfs_binheap_pointer h (length xs) = Some (ptr_of (length xs))" using shape_slot [OF r(1,2)] by simp
    have "\<exists>s'. cbh_put (set_index ?s0 (?ys ! length xs) (length xs)\<lparr>cbh := (cbh ?s0)\<lparr>cbh_nelements := length ?ys\<rparr>\<rparr>) (ptr_of (length xs)) (?ys ! length xs) = Some s' \<and>
      rep s' ?ys \<and> unchanged ?s0 s' {?ys ! length xs} \<and> cbh_node (cbh s') (ptr_of (length xs)) = Some (?ys ! length xs)"
      using r assms(2) by (intro rep_write) (auto simp: nth_append)
    then obtain s1 where s1: "cbh_put (set_index s e (length xs)\<lparr>cbh := h\<lparr>cbh_nelements := length xs + 1\<rparr>\<rparr>) (ptr_of (length xs)) e = Some s1"
      "rep s1 ?ys" "unchanged ?s0 s1 {e}"
      by (auto simp: set_index_def)
    obtain s2 where "cfs_binheap_bubble ops s1 e = Some (moved_up (hop_compare ops) ?ys (length xs), s2)"
      "rep s2 (bubble_list (hop_compare ops) ?ys (length xs))" "unchanged s1 s2 (insert e (set xs))"
      using bubble_refines [OF s1(2), of "length xs" ops] by auto
    moreover from this s1(3) have "unchanged s s2 (insert e (set xs))" by (auto simp: unchanged_def)
    ultimately show ?thesis using False room(1) er_def n ptr s1(1)
      unfolding cfs_binheap_insert_def Let_def by (simp add: set_index_def)
  qed
qed


lemma rep_index_bound: "rep s xs \<Longrightarrow> length xs \<le> 134480384"
  by (auto simp: rep_def shape_def)

lemma rep_set_index: "rep s ys \<Longrightarrow> e \<notin> set ys \<Longrightarrow> rep (set_index s e i) ys"
  using nth_mem by (fastforce simp: rep_def set_index_def)

lemma rep_exits [simp]: "rep (s\<lparr>cbh_exits := x\<rparr>) ys = rep s ys"
  by (simp add: rep_def)

lemma remove_refines:
  assumes "rep s xs" "k < length xs"
  shows "\<exists>s'. cfs_binheap_remove ops s (xs ! k) = Some s' \<and> rep s' (remove_list (hop_compare ops) xs k) \<and>
    (k = length xs - 1 \<longrightarrow> unchanged s s' {}) \<and>
    (k \<noteq> length xs - 1 \<longrightarrow> chn_index s' (xs ! k) = CBH_POISON \<and>
       cbh_exits s' = (if hop_exit ops then cbh_exits s @ [xs ! k] else cbh_exits s) \<and>
       (\<forall>x. x \<notin> set xs \<longrightarrow> chn_index s' x = chn_index s x))"
proof -
  obtain m where m: "length xs = Suc m" using assms(2) by (cases "length xs") auto
  let ?e = "xs ! k" let ?l = "xs ! m" let ?s0 = "s\<lparr>cbh := (cbh s)\<lparr>cbh_nelements := m\<rparr>\<rparr>"
  have r: "shape (cbh s)" "length xs \<le> cbh_hwm (cbh s)" "cbh_nelements (cbh s) = length xs"
    "\<And>i. i < length xs \<Longrightarrow> slot (cbh s) i = Some (Some (xs ! i)) \<and> chn_index s (xs ! i) = i"
    using assms by (auto simp: rep_def)
  have n: "m < length xs" "k \<le> m" using assms(2) m by linarith+
  have ptr: "cfs_binheap_pointer (cbh s) i = Some (ptr_of i) \<and> cbh_load (cbh s) (ptr_of i) = Some (Some (xs ! i))" if "i < length xs" for i
    using that shape_slot [OF r(1), of i] slot_ptr_of [OF r(1), of i] r(2) r(4) [OF that] by simp
  have poison: "k \<noteq> CBH_POISON" using rep_index_bound [OF assms(1)] assms(2) by (simp add: CBH_POISON_def)
  have le: "?l = ?e \<longleftrightarrow> k = m" using rep_distinct [OF assms(1)] assms(2) n(1) by (auto simp: nth_eq_iff_index_eq)
  have eval: "cfs_binheap_remove ops s ?e =
     (if k = m then Some ?s0
      else do {
        s' \<leftarrow> cbh_put (set_index ?s0 ?l k) (ptr_of k) ?l;
        v \<leftarrow> cbh_node (cbh s') (ptr_of k);
        s' \<leftarrow> cfs_binheap_relocate ops s' v;
        let s' = set_index s' ?e CBH_POISON;
        Some (if hop_exit ops then s'\<lparr>cbh_exits := cbh_exits s' @ [?e]\<rparr> else s') })"
    using ptr [OF assms(2)] ptr [OF n(1)] r(3) r(4) [OF assms(2)] assms(2) poison le m
    unfolding cfs_binheap_remove_def Let_def by simp
  show ?thesis
  proof (cases "k = m")
    case True
    have "rep ?s0 (butlast xs)" using r n m by (auto simp: rep_def nth_butlast)
    then show ?thesis using True eval m by (simp add: remove_list_def unchanged_def)
  next
    case False
    let ?ys = "butlast (xs[k := ?l])"
    have len: "length ?ys = m" "k < m" using False n m by simp_all
    have nth: "?ys ! i = (if i = k then ?l else xs ! i)" if "i < m" for i using that len by (simp add: nth_butlast nth_list_update)
    have dist: "distinct ?ys"
      unfolding distinct_conv_nth len using rep_distinct [OF assms(1)] n by (auto simp: nth nth_eq_iff_index_eq)
    have sub: "set ?ys \<subseteq> set xs"
    proof
      fix x assume "x \<in> set ?ys"
      then obtain i where "i < m" "x = ?ys ! i" unfolding in_set_conv_nth len by blast
      then show "x \<in> set xs" using nth m by (cases "i = k") auto
    qed
    have mem: "?e \<notin> set ?ys"
      unfolding in_set_conv_nth len using False nth m len(2) rep_distinct [OF assms(1)] by (auto simp: nth_eq_iff_index_eq)
    have eq: "set_index ?s0 ?l k = set_index s ?l k\<lparr>cbh := (cbh s)\<lparr>cbh_nelements := m\<rparr>\<rparr>" by (cases s) (simp add: set_index_def)
    have "\<exists>s'. cbh_put (set_index s (?ys ! k) k\<lparr>cbh := (cbh s)\<lparr>cbh_nelements := length ?ys\<rparr>\<rparr>) (ptr_of k) (?ys ! k) = Some s' \<and>
      rep s' ?ys \<and> unchanged s s' {?ys ! k} \<and> cbh_node (cbh s') (ptr_of k) = Some (?ys ! k)"
      using r n len dist nth by (intro rep_write) auto
    then obtain s1 where s1: "cbh_put (set_index ?s0 ?l k) (ptr_of k) ?l = Some s1" "rep s1 ?ys" "unchanged s s1 {?l}"
      "cbh_node (cbh s1) (ptr_of k) = Some (?ys ! k)"
      unfolding nth [OF len(2)] len eq by auto
    obtain s2 where s2: "cfs_binheap_relocate ops s1 (?ys ! k) = Some s2" "rep s2 (relocate_list (hop_compare ops) ?ys k)" "unchanged s1 s2 (set ?ys)"
      using relocate_refines [OF s1(2), of k ops] len by auto
    have ms: "set (relocate_list (hop_compare ops) ?ys k) = set ?ys"
      using len bubble_list_mset [of k ?ys] sink_list_mset [of k ?ys] by (metis relocate_list_def set_mset_mset)
    have "rep (set_index s2 ?e CBH_POISON) (relocate_list (hop_compare ops) ?ys k)"
      using rep_set_index [OF s2(2)] mem ms by simp
    moreover have "unchanged s s2 (set xs)"
      using unchanged_trans [OF unchanged_mono [OF s1(3)] unchanged_mono [OF s2(3) sub]] nth_mem [OF n(1)] by simp
    moreover have "last xs = ?l" using m by (cases xs rule: rev_cases) (auto simp: last_conv_nth)
    ultimately show ?thesis using False eval s1(1,4) s2(1) nth_mem [of k xs] assms(2) m
      by (auto simp: remove_list_def Let_def unchanged_def) (auto simp: set_index_def)
  qed
qed

section \<open>The heap order\<close>

definition par :: "nat \<Rightarrow> nat" where "par i = (i - 1) div 2"

definition edge :: "('a \<Rightarrow> nat) \<Rightarrow> 'a list \<Rightarrow> nat \<Rightarrow> bool" where
  "edge rank xs i \<longleftrightarrow> rank (xs ! par i) \<le> rank (xs ! i)"

definition heap_list :: "('a \<Rightarrow> nat) \<Rightarrow> 'a list \<Rightarrow> bool" where
  "heap_list rank xs \<longleftrightarrow> (\<forall>i. 0 < i \<and> i < length xs \<longrightarrow> edge rank xs i)"

text \<open>The order everywhere but at the node with index \<open>k\<close>, whose rank may be out of place.\<close>

definition heap_but :: "('a \<Rightarrow> nat) \<Rightarrow> 'a list \<Rightarrow> nat \<Rightarrow> bool" where
  "heap_but rank xs k \<longleftrightarrow> (\<forall>i. 0 < i \<and> i < length xs \<and> i \<noteq> k \<and> par i \<noteq> k \<longrightarrow> edge rank xs i) \<and>
     (\<forall>c. 0 < k \<and> 0 < c \<and> c < length xs \<and> par c = k \<longrightarrow> rank (xs ! par k) \<le> rank (xs ! c))"

definition up_ok :: "('a \<Rightarrow> nat) \<Rightarrow> 'a list \<Rightarrow> nat \<Rightarrow> bool" where
  "up_ok rank xs k \<longleftrightarrow> (0 < k \<longrightarrow> edge rank xs k)"

definition down_ok :: "('a \<Rightarrow> nat) \<Rightarrow> 'a list \<Rightarrow> nat \<Rightarrow> bool" where
  "down_ok rank xs k \<longleftrightarrow> (\<forall>c. 0 < c \<and> c < length xs \<and> par c = k \<longrightarrow> edge rank xs c)"

lemma heap_listI: "heap_but rank xs k \<Longrightarrow> up_ok rank xs k \<Longrightarrow> down_ok rank xs k \<Longrightarrow> heap_list rank xs"
  unfolding heap_list_def heap_but_def up_ok_def down_ok_def by metis

lemma par_less: "0 < i \<Longrightarrow> par i < i"
  by (auto simp: par_def)

lemma par_child: "par c = k \<and> 0 < c \<longleftrightarrow> c = 2 * k + 1 \<or> c = 2 * k + 2"
  unfolding par_def by linarith

lemma nth_swap_cases: "i < length xs \<Longrightarrow> j < length xs \<Longrightarrow> swap xs i j ! l = (if l = i then xs ! j else if l = j then xs ! i else xs ! l)"
  by (simp add: swap_def nth_list_update)

lemma heap_root_min:
  assumes "heap_list rank xs" "i < length xs"
  shows "rank (xs ! 0) \<le> rank (xs ! i)"
  using assms(2)
proof (induction i rule: less_induct)
  case (less i)
  show ?case
  proof (cases "i = 0")
    case False
    then have "par i < i" using par_less by simp
    then have "rank (xs ! 0) \<le> rank (xs ! par i)" using less by simp
    also have "\<dots> \<le> rank (xs ! i)" using assms(1) less.prems False by (simp add: heap_list_def edge_def)
    finally show ?thesis .
  qed simp
qed

text \<open>What the heap asks of its comparison: it decides a total preorder, given by a rank.\<close>

locale rank_compare =
  fixes cmp :: "'a \<Rightarrow> 'a \<Rightarrow> bool" and rank :: "'a \<Rightarrow> nat"
  assumes cmp_le: "cmp a b \<Longrightarrow> rank a \<le> rank b"
    and not_cmp_ge: "\<not> cmp a b \<Longrightarrow> rank b \<le> rank a"
begin

lemma up_step:
  assumes "heap_but rank xs k" "0 < k" "k < length xs" "\<not> cmp (xs ! par k) (xs ! k)"
  shows "heap_but rank (swap xs k (par k)) (par k)" "down_ok rank (swap xs k (par k)) (par k)"
proof -
  let ?p = "par k"
  have p: "?p < k" "?p < length xs" using assms(2,3) par_less [of k] by simp_all
  have le: "rank (xs ! k) \<le> rank (xs ! ?p)" using not_cmp_ge [OF assms(4)] .
  have edge: "rank (xs ! par i) \<le> rank (xs ! i)" if "0 < i" "i < length xs" "i \<noteq> k" "par i \<noteq> k" for i
    using assms(1) that by (simp add: heap_but_def edge_def)
  have grand: "rank (xs ! ?p) \<le> rank (xs ! c)" if "0 < c" "c < length xs" "par c = k" for c
    using assms(1,2) that by (simp add: heap_but_def)
  note sw = nth_swap_cases [OF assms(3) p(2)]
  show "heap_but rank (swap xs k ?p) ?p"
    unfolding heap_but_def edge_def length_swap sw
  proof (intro conjI allI impI; elim conjE)
    fix i assume i: "0 < i" "i < length xs" "i \<noteq> ?p" "par i \<noteq> ?p"
    then have "i \<noteq> k" by auto
    then show "rank (if par i = k then xs ! ?p else if par i = ?p then xs ! k else xs ! par i)
        \<le> rank (if i = k then xs ! ?p else if i = ?p then xs ! k else xs ! i)"
      using i edge [of i] grand [of i] by auto
  next
    fix c assume c: "0 < ?p" "0 < c" "c < length xs" "par c = ?p"
    have pp: "par ?p < ?p" using par_less [OF c(1)] .
    have e: "rank (xs ! par ?p) \<le> rank (xs ! ?p)" using edge [of ?p] c(1) p pp by simp
    have "rank (xs ! ?p) \<le> rank (xs ! c)" if "c \<noteq> k" using edge [of c] c that p by auto
    then show "rank (if par ?p = k then xs ! ?p else if par ?p = ?p then xs ! k else xs ! par ?p)
        \<le> rank (if c = k then xs ! ?p else if c = ?p then xs ! k else xs ! c)"
      using pp p e c(4) by (auto intro: order_trans)
  qed
  show "down_ok rank (swap xs k ?p) ?p"
    unfolding down_ok_def edge_def length_swap sw
  proof (intro allI impI; elim conjE)
    fix c assume c: "0 < c" "c < length xs" "par c = ?p"
    have "rank (xs ! ?p) \<le> rank (xs ! c)" if "c \<noteq> k" using edge [of c] c that p by auto
    then show "rank (if par c = k then xs ! ?p else if par c = ?p then xs ! k else xs ! par c)
        \<le> rank (if c = k then xs ! ?p else if c = ?p then xs ! k else xs ! c)"
      using c le p par_less [OF c(1)] by (auto intro: order_trans)
  qed
qed

lemma bubble_list_heap:
  assumes "heap_but rank xs k" "k < length xs" "down_ok rank xs k \<or> moved_up cmp xs k"
  shows "heap_list rank (bubble_list cmp xs k)"
  using assms
proof (induction k arbitrary: xs rule: less_induct)
  case (less k)
  show ?case
  proof (cases "moved_up cmp xs k")
    case True
    then have k: "0 < k" "\<not> cmp (xs ! par k) (xs ! k)" by (simp_all add: moved_up_def par_def)
    then have "bubble_list cmp xs k = bubble_list cmp (swap xs k (par k)) (par k)" by (cases k) (simp_all add: par_def)
    then show ?thesis using less.IH [OF par_less [OF k(1)] up_step(1) [OF less.prems(1) k(1) less.prems(2) k(2)]]
        up_step(2) [OF less.prems(1) k(1) less.prems(2) k(2)] par_less [OF k(1)] less.prems(2) by simp
  next
    case False
    then have "bubble_list cmp xs k = xs" by (cases k) (auto simp: moved_up_def)
    moreover have "up_ok rank xs k" using False cmp_le by (auto simp: moved_up_def up_ok_def edge_def par_def)
    ultimately show ?thesis using heap_listI less.prems False by metis
  qed
qed

lemma best_child_le:
  assumes "2 * k + 1 < length xs"
  shows "best_child cmp xs k < length xs" "par (best_child cmp xs k) = k" "0 < best_child cmp xs k"
    "\<And>c. 0 < c \<Longrightarrow> c < length xs \<Longrightarrow> par c = k \<Longrightarrow> rank (xs ! best_child cmp xs k) \<le> rank (xs ! c)"
proof -
  show "best_child cmp xs k < length xs" "par (best_child cmp xs k) = k" "0 < best_child cmp xs k"
    using assms by (auto simp: best_child_def par_def)
  show "rank (xs ! best_child cmp xs k) \<le> rank (xs ! c)" if "0 < c" "c < length xs" "par c = k" for c
  proof -
    have "c = 2 * k + 1 \<or> c = 2 * k + 2" using that par_child by blast
    then show ?thesis using that cmp_le not_cmp_ge by (auto simp: best_child_def)
  qed
qed

lemma down_step:
  assumes "heap_but rank xs k" "up_ok rank xs k" "2 * k + 1 < length xs" "\<not> cmp (xs ! k) (xs ! best_child cmp xs k)"
  defines "c \<equiv> best_child cmp xs k"
  shows "heap_but rank (swap xs k c) c" "up_ok rank (swap xs k c) c"
proof -
  have c: "c < length xs" "par c = k" "0 < c" "k < length xs" "k < c" "k \<noteq> c"
    using best_child_le [OF assms(3)] assms(3) best_child_gt [of k cmp xs] by (auto simp: c_def)
  have best: "rank (xs ! c) \<le> rank (xs ! i)" if "0 < i" "i < length xs" "par i = k" for i
    using best_child_le(4) [OF assms(3) that] by (simp add: c_def)
  have le: "rank (xs ! c) \<le> rank (xs ! k)" using not_cmp_ge [OF assms(4)] by (simp add: c_def)
  have edge: "rank (xs ! par i) \<le> rank (xs ! i)" if "0 < i" "i < length xs" "par i \<noteq> k" for i
    using assms(1,2) that by (cases "i = k") (simp_all add: heap_but_def up_ok_def edge_def)
  note sw = nth_swap_cases [OF c(4,1)]
  show "heap_but rank (swap xs k c) c"
    unfolding heap_but_def edge_def length_swap sw
  proof (intro conjI allI impI; elim conjE)
    fix i assume i: "0 < i" "i < length xs" "i \<noteq> c" "par i \<noteq> c"
    have "rank (xs ! par k) \<le> rank (xs ! c)" if "0 < k" using assms(1) that c by (simp add: heap_but_def)
    then show "rank (if par i = k then xs ! c else if par i = c then xs ! k else xs ! par i)
        \<le> rank (if i = k then xs ! c else if i = c then xs ! k else xs ! i)"
      using i edge [of i] best [of i] par_less [OF i(1)] by auto
  next
    fix i assume i: "0 < c" "0 < i" "i < length xs" "par i = c"
    then have "i \<noteq> k" "i \<noteq> c" using c par_less [of i] by auto
    then show "rank (if par c = k then xs ! c else if par c = c then xs ! k else xs ! par c)
        \<le> rank (if i = k then xs ! c else if i = c then xs ! k else xs ! i)"
      using i c edge [of i] by simp
  qed
  show "up_ok rank (swap xs k c) c" using le c by (simp add: up_ok_def edge_def sw)
qed

lemma sink_list_heap: "heap_but rank xs k \<Longrightarrow> up_ok rank xs k \<Longrightarrow> k < length xs \<Longrightarrow> heap_list rank (sink_list cmp xs k)"
proof (induction "length xs - k" arbitrary: xs k rule: less_induct)
  case less
  let ?c = "best_child cmp xs k"
  show ?case
  proof (cases "2 * k + 1 < length xs \<and> \<not> cmp (xs ! k) (xs ! ?c)")
    case True
    have c: "?c < length xs" "k < ?c" using True best_child_le best_child_gt by auto
    have "sink_list cmp xs k = sink_list cmp (swap xs k ?c) ?c" using True by (subst sink_list.simps) simp
    moreover have "length (swap xs k ?c) - ?c < length xs - k" using c by simp
    ultimately show ?thesis using less.hyps [OF _ down_step(1,2) [OF less.prems(1,2)]] True c by simp
  next
    case False
    then have "sink_list cmp xs k = xs" by (subst sink_list.simps) (simp only: if_False)
    moreover have "down_ok rank xs k"
      unfolding down_ok_def edge_def
    proof (intro allI impI; elim conjE)
      fix c assume c: "0 < c" "c < length xs" "par c = k"
      then have k: "2 * k + 1 < length xs" using par_child [of c k] by auto
      then have "rank (xs ! k) \<le> rank (xs ! ?c)" using False cmp_le by blast
      then show "rank (xs ! par c) \<le> rank (xs ! c)" using best_child_le(4) [OF k c] c(3) by simp
    qed
    ultimately show ?thesis using heap_listI less.prems by metis
  qed
qed

lemma relocate_list_heap: "heap_but rank xs k \<Longrightarrow> k < length xs \<Longrightarrow> heap_list rank (relocate_list cmp xs k)"
  using bubble_list_heap [of xs k] sink_list_heap [of xs k] cmp_le
  by (auto simp: relocate_list_def moved_up_def up_ok_def edge_def par_def)

lemma insert_list_heap:
  assumes "heap_list rank xs"
  shows "heap_list rank (bubble_list cmp (xs @ [e]) (length xs))"
proof (rule bubble_list_heap)
  have leaf: "par c < length xs" if "0 < c" "c < Suc (length xs)" for c using par_less [OF that(1)] that by linarith
  have nochild: False if "0 < c" "c < Suc (length xs)" "par c = length xs" for c using leaf [OF that(1,2)] that(3) by simp
  show "heap_but rank (xs @ [e]) (length xs)"
    unfolding heap_but_def edge_def
  proof (intro conjI allI impI; elim conjE)
    fix i assume "0 < i" "i < length (xs @ [e])" "i \<noteq> length xs"
    then show "rank ((xs @ [e]) ! par i) \<le> rank ((xs @ [e]) ! i)"
      using assms leaf [of i] by (simp add: heap_list_def edge_def nth_append)
  qed (use nochild in auto)
  show "down_ok rank (xs @ [e]) (length xs) \<or> moved_up cmp (xs @ [e]) (length xs)"
    using nochild by (auto simp: down_ok_def)
qed simp

lemma remove_list_heap:
  assumes "heap_list rank xs" "k < length xs"
  shows "heap_list rank (remove_list cmp xs k)"
proof (cases "k = length xs - 1")
  case True
  have "rank (butlast xs ! par i) \<le> rank (butlast xs ! i)" if i: "0 < i" "i < length (butlast xs)" for i
    using assms(1) i less_trans [OF par_less [OF i(1)] i(2)] by (simp add: heap_list_def edge_def nth_butlast)
  then show ?thesis using True by (simp add: remove_list_def heap_list_def edge_def)
next
  case False
  let ?ys = "butlast (xs[k := last xs])"
  have k: "k < length ?ys" using False assms(2) by simp
  have nth: "?ys ! i = (if i = k then last xs else xs ! i)" if "i < length ?ys" for i
    using that k by (simp add: nth_butlast nth_list_update)
  have edge: "rank (xs ! par i) \<le> rank (xs ! i)" if "0 < i" "i < length ?ys" for i
    using assms(1) that by (simp add: heap_list_def edge_def)
  have "heap_but rank ?ys k"
    unfolding heap_but_def edge_def
  proof (intro conjI allI impI; elim conjE)
    fix i assume i: "0 < i" "i < length ?ys" "i \<noteq> k" "par i \<noteq> k"
    have "par i < length ?ys" using i par_less [of i] by linarith
    then show "rank (?ys ! par i) \<le> rank (?ys ! i)" unfolding nth [OF i(2)] using nth [of "par i"] edge [OF i(1,2)] i by simp
  next
    fix c assume c: "0 < k" "0 < c" "c < length ?ys" "par c = k"
    then have "c \<noteq> k" "par k \<noteq> k" "par k < length ?ys" using par_less [of c] par_less [of k] k by linarith+
    then show "rank (?ys ! par k) \<le> rank (?ys ! c)"
      unfolding nth [OF c(3)] using nth [of "par k"] edge [OF c(2,3)] edge [OF c(1) k] c(4) by simp
  qed
  then show ?thesis using relocate_list_heap [OF _ k] False by (simp add: remove_list_def)
qed

end

lemma relocate_list_mset: "k < length xs \<Longrightarrow> mset (relocate_list cmp xs k) = mset xs"
  by (simp add: relocate_list_def bubble_list_mset sink_list_mset)

lemma remove_list_mset:
  assumes "k < length xs"
  shows "mset (remove_list cmp xs k) = mset xs - {#xs ! k#}"
proof (cases xs rule: rev_cases)
  case (snoc ys l)
  show ?thesis
  proof (cases "k = length ys")
    case True
    then show ?thesis using snoc by (simp add: remove_list_def)
  next
    case False
    then have k: "k < length ys" using assms snoc by simp
    then have "mset (ys[k := l]) = add_mset l (mset ys - {#ys ! k#})" by (simp add: mset_update)
    then show ?thesis using k snoc
      by (simp add: remove_list_def relocate_list_mset list_update_append butlast_append nth_append)
  qed
qed (use assms in simp)

section \<open>The interface: a priority queue\<close>

text \<open>
  What the schedulers rely on. The order is that of a rank of the nodes, which may change for
  nodes that are not queued.
\<close>

locale prio_queue =
  fixes ok :: "('e \<Rightarrow> nat) \<Rightarrow> 'q \<Rightarrow> bool" and elems :: "'q \<Rightarrow> 'e set"
    and ins :: "('e \<Rightarrow> nat) \<Rightarrow> 'a \<Rightarrow> 'q \<Rightarrow> 'e \<Rightarrow> (int \<times> 'q) option"
    and del :: "('e \<Rightarrow> nat) \<Rightarrow> 'q \<Rightarrow> 'e \<Rightarrow> 'q option" and top :: "'q \<Rightarrow> 'e option option"
  assumes finite_elems: "ok rank q \<Longrightarrow> finite (elems q)"
    and ok_rank: "ok rank q \<Longrightarrow> (\<And>e. e \<in> elems q \<Longrightarrow> rank' e = rank e) \<Longrightarrow> ok rank' q"
    and ins_ok: "ok rank q \<Longrightarrow> e \<notin> elems q \<Longrightarrow>
      \<exists>rc q'. ins rank a q e = Some (rc, q') \<and> ok rank q' \<and> elems q' = (if rc = 0 then insert e (elems q) else elems q)"
    and del_ok: "ok rank q \<Longrightarrow> e \<in> elems q \<Longrightarrow> \<exists>q'. del rank q e = Some q' \<and> ok rank q' \<and> elems q' = elems q - {e}"
    and top_None: "ok rank q \<Longrightarrow> elems q = {} \<Longrightarrow> top q = Some None"
    and top_min: "ok rank q \<Longrightarrow> elems q \<noteq> {} \<Longrightarrow> \<exists>e. top q = Some (Some e) \<and> e \<in> elems q \<and> (\<forall>x \<in> elems q. rank e \<le> rank x)"
begin

text \<open>Taking the first element \<open>n\<close> times.\<close>

primrec take_out :: "('e \<Rightarrow> nat) \<Rightarrow> nat \<Rightarrow> 'q \<Rightarrow> ('e list \<times> 'q) option" where
  "take_out rank 0 q = Some ([], q)"
| "take_out rank (Suc n) q = do {
     t \<leftarrow> top q;
     case t of None \<Rightarrow> Some ([], q)
     | Some e \<Rightarrow> do { q \<leftarrow> del rank q e; (es, q) \<leftarrow> take_out rank n q; Some (e # es, q) } }"

lemma take_out_sorted:
  assumes "ok rank q" "card (elems q) = n"
  shows "\<exists>es q'. take_out rank n q = Some (es, q') \<and> ok rank q' \<and> elems q' = {} \<and> set es = elems q \<and> distinct es \<and> sorted (map rank es)"
  using assms
proof (induction n arbitrary: q)
  case 0
  then show ?case using finite_elems [OF 0(1)] by auto
next
  case (Suc n)
  then have "elems q \<noteq> {}" by auto
  then obtain e where e: "top q = Some (Some e)" "e \<in> elems q" "\<forall>x \<in> elems q. rank e \<le> rank x" using top_min [OF Suc.prems(1)] by blast
  obtain q1 where q1: "del rank q e = Some q1" "ok rank q1" "elems q1 = elems q - {e}" using del_ok [OF Suc.prems(1) e(2)] by blast
  have "card (elems q1) = n" using Suc.prems(2) q1(3) e(2) by simp
  then obtain es q' where "take_out rank n q1 = Some (es, q')" "ok rank q'" "elems q' = {}" "set es = elems q1" "distinct es" "sorted (map rank es)"
    using Suc.IH [OF q1(2)] by blast
  then show ?case using e q1 by (auto simp: insert_absorb)
qed

end


section \<open>The binary heap as a priority queue\<close>

definition rank_ops :: "(node \<Rightarrow> nat) \<Rightarrow> cfs_binheap_ops" where
  "rank_ops rank = \<lparr>hop_enter = None, hop_exit = False, hop_compare = (\<lambda>a b. rank a < rank b)\<rparr>"

definition binheap_ok :: "(node \<Rightarrow> nat) \<Rightarrow> cbh_state \<Rightarrow> bool" where
  "binheap_ok rank s \<longleftrightarrow> (\<exists>xs. rep s xs \<and> heap_list rank xs)"

definition binheap_elems :: "cbh_state \<Rightarrow> node set" where
  "binheap_elems s = {e. \<exists>i < cbh_nelements (cbh s). slot (cbh s) i = Some (Some e)}"

lemma rep_elems: "rep s xs \<Longrightarrow> binheap_elems s = set xs"
  by (auto simp: rep_def binheap_elems_def set_conv_nth)

lemma rep_find: "rep s xs \<Longrightarrow> cfs_binheap_find (cbh s) i = Some (if i < length xs then Some (xs ! i) else None)"
  by (auto simp: rep_def cfs_binheap_find_def slot_def)

interpretation rk: rank_compare "\<lambda>a b. rank a < rank b" rank
  by unfold_locales auto

lemma heap_list_cong: "(\<And>e. e \<in> set xs \<Longrightarrow> rank' e = rank e) \<Longrightarrow> heap_list rank xs \<Longrightarrow> heap_list rank' xs"
proof -
  assume eq: "\<And>e. e \<in> set xs \<Longrightarrow> rank' e = rank e" and h: "heap_list rank xs"
  have "edge rank' xs i" if i: "0 < i" "i < length xs" for i
  proof -
    have "par i < length xs" using par_less [OF i(1)] i(2) by linarith
    then show ?thesis using h i eq by (simp add: heap_list_def edge_def)
  qed
  then show ?thesis by (simp add: heap_list_def)
qed

interpretation bh: prio_queue binheap_ok binheap_elems "\<lambda>rank. cfs_binheap_insert (rank_ops rank)"
  "\<lambda>rank. cfs_binheap_remove (rank_ops rank)" "\<lambda>s. cfs_binheap_root (cbh s)"
proof
  fix rank rank' :: "node \<Rightarrow> nat" and s e and alloc :: "nat \<Rightarrow> bool"
  show "finite (binheap_elems s)" if "binheap_ok rank s" using that rep_elems by (auto simp: binheap_ok_def)
  show "binheap_ok rank' s" if "binheap_ok rank s" "\<And>e. e \<in> binheap_elems s \<Longrightarrow> rank' e = rank e"
    using that rep_elems heap_list_cong unfolding binheap_ok_def by metis
  show "\<exists>rc s'. cfs_binheap_insert (rank_ops rank) alloc s e = Some (rc, s') \<and> binheap_ok rank s' \<and>
      binheap_elems s' = (if rc = 0 then insert e (binheap_elems s) else binheap_elems s)"
    if ok: "binheap_ok rank s" and e: "e \<notin> binheap_elems s"
  proof -
    obtain xs where xs: "rep s xs" "heap_list rank xs" using ok by (auto simp: binheap_ok_def)
    have "e \<notin> set xs" using e rep_elems [OF xs(1)] by simp
    then obtain rc s' where r: "cfs_binheap_insert (rank_ops rank) alloc s e = Some (rc, s')"
      "rc = 0 \<longrightarrow> rep s' (bubble_list (\<lambda>a b. rank a < rank b) (xs @ [e]) (length xs))" "rc \<noteq> 0 \<longrightarrow> rep s' xs"
      using insert_refines [OF xs(1), of e "rank_ops rank" alloc] by (auto simp: rank_ops_def)
    have "set (bubble_list (\<lambda>a b. rank a < rank b) (xs @ [e]) (length xs)) = insert e (set xs)"
      using bubble_list_mset [of "length xs" "xs @ [e]"] by (metis set_mset_mset Un_insert_right length_append_singleton lessI list.set(1) list.simps(15) set_append sup_bot.right_neutral)
    moreover have "binheap_ok rank s'" using r(2,3) xs(2) rk.insert_list_heap [OF xs(2), of e] unfolding binheap_ok_def by blast
    ultimately show ?thesis using r rep_elems [OF xs(1)] rep_elems [of s'] by (cases "rc = 0") auto
  qed
  show "\<exists>s'. cfs_binheap_remove (rank_ops rank) s e = Some s' \<and> binheap_ok rank s' \<and> binheap_elems s' = binheap_elems s - {e}"
    if ok: "binheap_ok rank s" and e: "e \<in> binheap_elems s"
  proof -
    obtain xs where xs: "rep s xs" "heap_list rank xs" using ok by (auto simp: binheap_ok_def)
    obtain k where k: "k < length xs" "xs ! k = e" using e rep_elems [OF xs(1)] by (auto simp: in_set_conv_nth)
    obtain s' where r: "cfs_binheap_remove (rank_ops rank) s e = Some s'" "rep s' (remove_list (\<lambda>a b. rank a < rank b) xs k)"
      using remove_refines [OF xs(1) k(1), of "rank_ops rank"] k(2) by (auto simp: rank_ops_def)
    have "set (remove_list (\<lambda>a b. rank a < rank b) xs k) = set xs - {e}"
      using remove_list_mset [OF k(1)] k(2) rep_distinct [OF xs(1)] by (metis mset_remove1 set_mset_mset set_remove1_eq)
    moreover have "binheap_ok rank s'" using r(2) rk.remove_list_heap [OF xs(2) k(1)] unfolding binheap_ok_def by blast
    ultimately show ?thesis using r(1) rep_elems [OF r(2)] rep_elems [OF xs(1)] by simp
  qed
  show "cfs_binheap_root (cbh s) = Some None" if "binheap_ok rank s" "binheap_elems s = {}"
    using that rep_elems by (auto simp: binheap_ok_def cfs_binheap_root_def rep_find)
  show "\<exists>e. cfs_binheap_root (cbh s) = Some (Some e) \<and> e \<in> binheap_elems s \<and> (\<forall>x \<in> binheap_elems s. rank e \<le> rank x)"
    if ok: "binheap_ok rank s" and ne: "binheap_elems s \<noteq> {}"
  proof -
    obtain xs where xs: "rep s xs" "heap_list rank xs" using ok by (auto simp: binheap_ok_def)
    have "0 < length xs" using ne rep_elems [OF xs(1)] by auto
    moreover have "\<forall>x \<in> set xs. rank (xs ! 0) \<le> rank x" using heap_root_min [OF xs(2)] by (auto simp: in_set_conv_nth)
    ultimately show ?thesis using rep_elems [OF xs(1)] rep_find [OF xs(1)] by (auto simp: cfs_binheap_root_def)
  qed
qed

section \<open>Properties\<close>

text \<open>A client that inserts nodes one after the other, and one that takes out the first node \<open>n\<close> times.\<close>

primrec cbh_insert_all :: "cfs_binheap_ops \<Rightarrow> (nat \<Rightarrow> bool) \<Rightarrow> cbh_state \<Rightarrow> node list \<Rightarrow> (int \<times> cbh_state) option" where
  "cbh_insert_all ops alloc s [] = Some (0, s)"
| "cbh_insert_all ops alloc s (e # es) = do {
     (rc, s) \<leftarrow> cfs_binheap_insert ops alloc s e;
     if rc \<noteq> 0 then Some (rc, s) else cbh_insert_all ops alloc s es }"

primrec cbh_drain :: "cfs_binheap_ops \<Rightarrow> nat \<Rightarrow> cbh_state \<Rightarrow> (node list \<times> cbh_state) option" where
  "cbh_drain ops 0 s = Some ([], s)"
| "cbh_drain ops (Suc n) s = do {
     (e, s) \<leftarrow> cfs_binheap_remove_root ops s;
     case e of None \<Rightarrow> Some ([], s) | Some e \<Rightarrow> do { (es, s) \<leftarrow> cbh_drain ops n s; Some (e # es, s) } }"

definition cbh_init :: "cfs_binheap \<Rightarrow> cbh_state" where
  "cbh_init h = \<lparr>cbh = h, chn_index = (\<lambda>_. 0), cbh_exits = []\<rparr>"

lemma drain_eq: "cbh_drain (rank_ops rank) n s = bh.take_out rank n s"
proof (induction n arbitrary: s)
  case (Suc n)
  have "bh.take_out rank n = cbh_drain (rank_ops rank) n" using Suc by (intro ext) simp
  then show ?case
    by (simp add: cfs_binheap_remove_root_def cfs_binheap_root_def [symmetric] split: option.splits bind_splits)
qed simp

lemma create_ok:
  assumes "cnt \<le> 134480384"
  shows "\<exists>h. cfs_binheap_create True (\<lambda>_ _. True) cnt = Some (Some h) \<and> rep (cbh_init h) []"
proof -
  have "\<exists>h'. cbh_preallocate (\<lambda>_ _. True) n cnt h = Some (0, h') \<and> shape h' \<and> cbh_nelements h' = 0"
    if "shape h" "cbh_nelements h = 0" for n h
    using that
  proof (induction "cnt - cbh_hwm h" arbitrary: h n rule: less_induct)
    case less
    show ?case
    proof (cases "cbh_hwm h < cnt")
      case True
      obtain rc h' where g: "cfs_binheap_grow (\<lambda>_. True) h = Some (rc, h')" "grown (\<lambda>_. True) h (rc, h')"
        using grow_ok [OF less.prems(1), of "\<lambda>_. True"] by auto
      then have "rc = 0" "shape h'" "cbh_nelements h' = 0" "cnt - cbh_hwm h' < cnt - cbh_hwm h"
        using less.prems True assms by (auto simp: grown_def)
      then show ?thesis using less.hyps [of h' "Suc n"] True g(1) by simp
    next
      case False
      then show ?thesis using less.prems by simp
    qed
  qed
  then obtain h where "cbh_preallocate (\<lambda>_ _. True) 0 cnt cbh_new = Some (0, h)" "shape h" "cbh_nelements h = 0"
    using shape_new by blast
  then show ?thesis by (simp add: cfs_binheap_create_def rep_def cbh_init_def)
qed

lemma insert_all_ok:
  assumes "rep s xs" "heap_list rank xs" "distinct (es @ xs)" "length (es @ xs) \<le> 134480384"
  shows "\<exists>s' ys. cbh_insert_all (rank_ops rank) (\<lambda>_. True) s es = Some (0, s') \<and> rep s' ys \<and> heap_list rank ys \<and> mset ys = mset (es @ xs)"
  using assms
proof (induction es arbitrary: s xs)
  case (Cons e es)
  let ?ys = "bubble_list (\<lambda>a b. rank a < rank b) (xs @ [e]) (length xs)"
  have ys: "mset ?ys = add_mset e (mset xs)" using bubble_list_mset [of "length xs" "xs @ [e]"] by simp
  have "e \<notin> set xs" using Cons.prems by simp
  then obtain s' where s': "cfs_binheap_insert (rank_ops rank) (\<lambda>_. True) s e = Some (0, s')" "rep s' ?ys"
    using insert_refines [OF Cons.prems(1), of e "rank_ops rank" "\<lambda>_. True"] Cons.prems(4) by (auto simp: rank_ops_def)
  have "set ?ys = insert e (set xs)" "length ?ys = Suc (length xs)"
    using arg_cong [OF ys, of set_mset] arg_cong [OF ys, of size] by simp_all
  moreover have "distinct ?ys" using rep_distinct [OF s'(2)] .
  ultimately have "distinct (es @ ?ys)" "length (es @ ?ys) \<le> 134480384" using Cons.prems by auto
  then show ?case using Cons.IH [OF s'(2) rk.insert_list_heap [OF Cons.prems(2)]] s'(1) ys by simp
qed auto

text \<open>
  C11. The heap sorts: nodes inserted into a new heap, with memory for at most 134480384 of them,
  are all taken, and taking out the root as often returns exactly these nodes in the order of
  their rank.
\<close>

theorem binheap_sorts:
  assumes "cnt \<le> 134480384" "distinct es" "length es \<le> 134480384"
  shows "\<exists>h s out s'. cfs_binheap_create True (\<lambda>_ _. True) cnt = Some (Some h) \<and>
    cbh_insert_all (rank_ops rank) (\<lambda>_. True) (cbh_init h) es = Some (0, s) \<and>
    cbh_drain (rank_ops rank) (length es) s = Some (out, s') \<and>
    mset out = mset es \<and> sorted (map rank out) \<and> cfs_binheap_is_empty (cbh s')"
proof -
  obtain h where h: "cfs_binheap_create True (\<lambda>_ _. True) cnt = Some (Some h)" "rep (cbh_init h) []"
    using create_ok [OF assms(1)] by blast
  obtain s ys where s: "cbh_insert_all (rank_ops rank) (\<lambda>_. True) (cbh_init h) es = Some (0, s)" "rep s ys" "heap_list rank ys" "mset ys = mset es"
    using insert_all_ok [OF h(2), of rank es] assms by (auto simp: heap_list_def)
  have ok: "binheap_ok rank s" using s(2,3) by (auto simp: binheap_ok_def)
  have el: "binheap_elems s = set es" using rep_elems [OF s(2)] mset_eq_setD [OF s(4)] by simp
  have "card (binheap_elems s) = length es" using el assms(2) by (simp add: distinct_card)
  then obtain out s' where out: "cbh_drain (rank_ops rank) (length es) s = Some (out, s')" "binheap_ok rank s'" "binheap_elems s' = {}"
    "set out = set es" "distinct out" "sorted (map rank out)"
    using bh.take_out_sorted [OF ok] el by (auto simp: drain_eq)
  moreover have "mset out = mset es" using out(4,5) assms(2) by (simp add: set_eq_iff_mset_eq_distinct)
  moreover have "cfs_binheap_is_empty (cbh s')" using out(2,3) rep_elems by (auto simp: binheap_ok_def cfs_binheap_is_empty_def rep_def)
  ultimately show ?thesis using h(1) s(1) by blast
qed

theorem binheap_sorts_witness:
  "\<exists>h s out s'. cfs_binheap_create True (\<lambda>_ _. True) 4096 = Some (Some h) \<and>
    cbh_insert_all (rank_ops (\<lambda>e. 10 - e)) (\<lambda>_. True) (cbh_init h) [3 :: node, 1, 7] = Some (0, s) \<and>
    cbh_drain (rank_ops (\<lambda>e. 10 - e)) (length [3 :: node, 1, 7]) s = Some (out, s') \<and>
    mset out = mset [3 :: node, 1, 7] \<and> sorted (map (\<lambda>e. 10 - e) out) \<and> cfs_binheap_is_empty (cbh s')"
  by (rule binheap_sorts) simp_all


text \<open>
  C12. The three levels of indirection implement a plain list heap: inserting and removing a node,
  and restoring its place, commute with the corresponding list operations, every node knows its
  index afterwards, no assertion fails and no unallocated block is reached.
\<close>

theorem binheap_refines:
  assumes "rep s xs" "e \<notin> set xs" "k < length xs"
  shows "(\<exists>rc s'. cfs_binheap_insert ops alloc s e = Some (rc, s') \<and>
      rep s' (if rc = 0 then bubble_list (hop_compare ops) (xs @ [e]) (length xs) else xs)) \<and>
    (\<exists>s'. cfs_binheap_remove ops s (xs ! k) = Some s' \<and> rep s' (remove_list (hop_compare ops) xs k)) \<and>
    (\<exists>s'. cfs_binheap_relocate ops s (xs ! k) = Some s' \<and> rep s' (relocate_list (hop_compare ops) xs k))"
  using insert_refines [OF assms(1,2), of ops alloc] remove_refines [OF assms(1,3), of ops] relocate_refines [OF assms(1,3), of ops]
  by fastforce

lemma relocate_heap_but:
  assumes "heap_list rank xs" "k < length xs" "distinct xs" "\<And>x. x \<noteq> xs ! k \<Longrightarrow> rank' x = rank x"
  shows "heap_but rank' xs k"
proof -
  have same: "rank' (xs ! i) = rank (xs ! i)" if "i < length xs" "i \<noteq> k" for i
    using assms(4) assms(2,3) that by (simp add: nth_eq_iff_index_eq)
  have edge: "rank (xs ! par i) \<le> rank (xs ! i)" if "0 < i" "i < length xs" for i
    using assms(1) that by (simp add: heap_list_def edge_def)
  show ?thesis
    unfolding heap_but_def edge_def
  proof (intro conjI allI impI; elim conjE)
    fix i assume i: "0 < i" "i < length xs" "i \<noteq> k" "par i \<noteq> k"
    then have "par i < length xs" using par_less [OF i(1)] by linarith
    then show "rank' (xs ! par i) \<le> rank' (xs ! i)" using edge [OF i(1,2)] same i by simp
  next
    fix c assume c: "0 < k" "0 < c" "c < length xs" "par c = k"
    then have "par k < length xs" "par k \<noteq> k" "c \<noteq> k" using par_less [of k] par_less [of c] assms(2) by linarith+
    then show "rank' (xs ! par k) \<le> rank' (xs ! c)" using edge [OF c(2,3)] edge [OF c(1) assms(2)] same c by simp
  qed
qed

text \<open>
  C27. After the rank of one queued node has changed, \<open>cfs_binheap_relocate\<close> on that node
  restores the heap order and keeps the set of queued nodes.
\<close>

theorem binheap_relocate_restores:
  assumes "binheap_ok rank s" "e \<in> binheap_elems s" "\<And>x. x \<noteq> e \<Longrightarrow> rank' x = rank x"
  shows "\<exists>s'. cfs_binheap_relocate (rank_ops rank') s e = Some s' \<and> binheap_ok rank' s' \<and> binheap_elems s' = binheap_elems s"
proof -
  obtain xs where xs: "rep s xs" "heap_list rank xs" using assms(1) by (auto simp: binheap_ok_def)
  obtain k where k: "k < length xs" "xs ! k = e" using assms(2) rep_elems [OF xs(1)] by (auto simp: in_set_conv_nth)
  let ?ys = "relocate_list (\<lambda>a b. rank' a < rank' b) xs k"
  obtain s' where s': "cfs_binheap_relocate (rank_ops rank') s e = Some s'" "rep s' ?ys"
    using relocate_refines [OF xs(1) k(1), of "rank_ops rank'"] k(2) by (auto simp: rank_ops_def)
  have "heap_but rank' xs k" using relocate_heap_but [OF xs(2) k(1) rep_distinct [OF xs(1)]] k(2) assms(3) by blast
  then have "heap_list rank' ?ys" using rk.relocate_list_heap [OF _ k(1)] by blast
  then have "binheap_ok rank' s'" using s'(2) by (auto simp: binheap_ok_def)
  moreover have "set ?ys = set xs" using relocate_list_mset [OF k(1)] by (metis set_mset_mset)
  ultimately show ?thesis using s'(1) rep_elems [OF s'(2)] rep_elems [OF xs(1)] by simp
qed

text \<open>
  C31. A heap never holds more than 134480384 nodes, so all index arithmetic stays within 32
  bits: inserting into a full heap fails with \<open>-ENOMEM\<close> and changes nothing.
\<close>

theorem binheap_full:
  assumes "binheap_ok rank s" "e \<notin> binheap_elems s"
  shows "card (binheap_elems s) \<le> 134480384 \<and>
    (card (binheap_elems s) = 134480384 \<longrightarrow> cfs_binheap_insert ops alloc s e = Some (- ENOMEM, s))"
proof -
  obtain xs where xs: "rep s xs" using assms(1) by (auto simp: binheap_ok_def)
  have card: "card (binheap_elems s) = length xs" using rep_elems [OF xs] rep_distinct [OF xs] by (simp add: distinct_card)
  have "cfs_binheap_insert ops alloc s e = Some (- ENOMEM, s)" if full: "length xs = 134480384"
  proof -
    have n: "cbh_nelements (cbh s) = 134480384" "cbh_hwm (cbh s) = 134480384" "shape (cbh s)"
      using xs full by (auto simp: rep_def shape_def)
    obtain rc h where g: "cfs_binheap_grow alloc (cbh s) = Some (rc, h)" "grown alloc (cbh s) (rc, h)"
      using grow_ok [OF n(3), of alloc] by auto
    then have "rc = - ENOMEM" "h = cbh s" using n(2) by (auto simp: grown_def shape_def)
    then show ?thesis using g(1) n by (simp add: cfs_binheap_insert_def ENOMEM_def)
  qed
  then show ?thesis using card rep_index_bound [OF xs] by simp
qed

text \<open>
  Destroying a heap frees every block of pointers it has allocated, and each of them once.
\<close>

theorem binheap_destroy_frees:
  assumes "binheap_ok rank s"
  shows "\<exists>bs. cfs_binheap_destroy (cbh s) = Some bs \<and> distinct bs \<and> set bs = {b. block_alloc (cbh s) b}"
  using assms destroy_ok by (auto simp: binheap_ok_def rep_def)

text \<open>
  Removing the node in the last slot returns before the exit code: \<open>hop_exit\<close> is not
  called and the node keeps its old index instead of the poison value.
\<close>

theorem remove_last_skips_exit:
  assumes "rep s (xs @ [e])"
  shows "\<exists>s'. cfs_binheap_remove ops s e = Some s' \<and> rep s' xs \<and> cbh_exits s' = cbh_exits s \<and>
    chn_index s' e = length xs \<and> chn_index s' e \<noteq> CBH_POISON"
proof -
  have "length xs < 134480384" using rep_index_bound [OF assms] by simp
  moreover have "chn_index s e = length xs" using assms by (force simp: rep_def)
  ultimately show ?thesis using remove_refines [OF assms, of "length xs" ops]
    by (auto simp: remove_list_def unchanged_def CBH_POISON_def)
qed


section \<open>Concrete heaps\<close>

lemma ex_heap:
  assumes "distinct es" "length es \<le> 134480384"
  shows "\<exists>s ys. rep s ys \<and> heap_list rank ys \<and> mset ys = mset es \<and> binheap_ok rank s \<and> binheap_elems s = set es"
proof -
  obtain h where h: "rep (cbh_init h) []" using create_ok [of 0] by auto
  obtain s ys where s: "rep s ys" "heap_list rank ys" "mset ys = mset es"
    using insert_all_ok [OF h, of rank es] assms by (auto simp: heap_list_def)
  then show ?thesis using rep_elems [OF s(1)] mset_eq_setD [OF s(3)] unfolding binheap_ok_def by metis
qed

lemma ex_heap_1: "\<exists>s. rep s [5]"
  using ex_heap [of "[5]" id] by auto

theorem binheap_refines_witness:
  "\<exists>s. rep s [5] \<and>
    (\<exists>rc s'. cfs_binheap_insert (rank_ops id) (\<lambda>_. True) s 7 = Some (rc, s') \<and>
      rep s' (if rc = 0 then bubble_list (hop_compare (rank_ops id)) ([5] @ [7]) (length [5 :: node]) else [5])) \<and>
    (\<exists>s'. cfs_binheap_remove (rank_ops id) s ([5] ! 0) = Some s' \<and> rep s' (remove_list (hop_compare (rank_ops id)) [5] 0)) \<and>
    (\<exists>s'. cfs_binheap_relocate (rank_ops id) s ([5] ! 0) = Some s' \<and> rep s' (relocate_list (hop_compare (rank_ops id)) [5] 0))"
proof -
  obtain s where s: "rep s [5]" using ex_heap_1 by blast
  have "7 \<notin> set [5 :: node]" "0 < length [5 :: node]" by simp_all
  from s binheap_refines [OF s this, of "rank_ops id" "\<lambda>_. True"] show ?thesis by blast
qed

theorem binheap_relocate_restores_witness:
  "\<exists>s s'. binheap_ok id s \<and> cfs_binheap_relocate (rank_ops (id(1 := 9))) s 1 = Some s' \<and>
     binheap_ok (id(1 := 9)) s' \<and> binheap_elems s' = {1, 2, 3}"
proof -
  obtain s where "binheap_ok id s" "binheap_elems s = {1, 2, 3}" using ex_heap [of "[1, 2, 3]" id] by auto
  then show ?thesis using binheap_relocate_restores [of id s 1 "id(1 := 9)"] by auto
qed

theorem binheap_full_witness:
  "\<exists>s. binheap_ok id s \<and> card (binheap_elems s) = 134480384 \<and>
     cfs_binheap_insert (rank_ops id) (\<lambda>_. True) s 134480384 = Some (- ENOMEM, s)"
proof -
  obtain s where s: "binheap_ok id s" "binheap_elems s = set [0..<134480384]" using ex_heap [of "[0..<134480384]" id] by auto
  then have "134480384 \<notin> binheap_elems s" "card (binheap_elems s) = 134480384" by simp_all
  then show ?thesis using binheap_full [OF s(1), of 134480384 "rank_ops id" "\<lambda>_. True"] s(1) by blast
qed

theorem binheap_destroy_frees_witness:
  "\<exists>s bs. binheap_elems s = {1, 2, 3} \<and> cfs_binheap_destroy (cbh s) = Some bs \<and> distinct bs \<and> set bs = {b. block_alloc (cbh s) b}"
proof -
  obtain s where "binheap_ok id s" "binheap_elems s = {1, 2, 3}" using ex_heap [of "[1, 2, 3]" id] by auto
  then show ?thesis using binheap_destroy_frees [of id s] by blast
qed

theorem remove_last_skips_exit_witness:
  "\<exists>s s'. rep s ([] @ [5]) \<and> cfs_binheap_remove \<lparr>hop_enter = None, hop_exit = True, hop_compare = (<)\<rparr> s 5 = Some s' \<and>
     cbh_exits s' = cbh_exits s \<and> chn_index s' 5 = 0"
proof -
  obtain s where s: "rep s ([] @ [5])" using ex_heap_1 by auto
  from s remove_last_skips_exit [OF s, of "\<lparr>hop_enter = None, hop_exit = True, hop_compare = (<)\<rparr>"] show ?thesis
    by (metis list.size(3))
qed

end
