(* ===== verification/Nrs_Crr.thy ===== *)
theory Nrs_Crr
  imports Binheap "HOL-Library.AList"
begin

text \<open>
  The CRR-N request scheduler (\<open>lustre/ptlrpc/nrs_crr.c\<close>, \<open>lustre_nrs_crr.h\<close>): client
  round robin over network identifiers (NIDs). A request gets the round and the batch sequence
  of its client, and the binary heap orders the requests by these two numbers; a client takes
  part in a round with at most \<open>quantum\<close> requests.

  The state is the policy instance, the CRR-N fields of the requests (\<open>nr_u.crr\<close>, by address
  of the request) and the client each request holds a reference on. The hash of clients is a
  list of entries by NID; its buckets are not modelled, and an operation of it is atomic. A
  client object that another thread adds between the failed lookup of \<open>nrs_crrn_res_get\<close> and
  its \<open>cfs_hash_findadd_unique\<close> is the change \<open>race\<close> of the state.
\<close>

section \<open>The data\<close>

record nrs_crrn_client =
  cc_round :: u64
  cc_sequence :: u64
  cc_ref :: int
  cc_quantum :: u16
  cc_active :: u16

record nrs_crrn_req =
  cr_round :: u64
  cr_sequence :: u64

record nrs_crrn_net =
  cn_binheap :: cbh_state
  cn_cli_hash :: "(u64 \<times> nrs_crrn_client) list"
  cn_round :: u64
  cn_sequence :: u64
  cn_quantum :: u16

record crr_state =
  crr_net :: nrs_crrn_net
  nr_crr :: "node \<Rightarrow> nrs_crrn_req"
  nr_res :: "node \<Rightarrow> u64 option"

definition OBD_MAX_RIF_DEFAULT :: u16 where "OBD_MAX_RIF_DEFAULT = 8"

definition crrn_req_compare :: "(node \<Rightarrow> nrs_crrn_req) \<Rightarrow> node \<Rightarrow> node \<Rightarrow> bool" where
  "crrn_req_compare rq e1 e2 =
     (if cr_round (rq e1) < cr_round (rq e2) then True
      else if cr_round (rq e1) > cr_round (rq e2) then False
      else cr_sequence (rq e1) < cr_sequence (rq e2))"

definition nrs_crrn_heap_ops :: "(node \<Rightarrow> nrs_crrn_req) \<Rightarrow> cfs_binheap_ops" where
  "nrs_crrn_heap_ops rq = \<lparr>hop_enter = None, hop_exit = False, hop_compare = crrn_req_compare rq\<rparr>"

section \<open>Clients\<close>

definition cli_get :: "nrs_crrn_net \<Rightarrow> u64 \<Rightarrow> nrs_crrn_client option" where
  "cli_get net nid = map_of (cn_cli_hash net) nid"

definition cli_set :: "nrs_crrn_net \<Rightarrow> u64 \<Rightarrow> nrs_crrn_client \<Rightarrow> nrs_crrn_net" where
  "cli_set net nid cli = net\<lparr>cn_cli_hash := AList.update nid cli (cn_cli_hash net)\<rparr>"

definition nrs_crrn_hop_get :: "nrs_crrn_client \<Rightarrow> nrs_crrn_client" where
  "nrs_crrn_hop_get cli = cli\<lparr>cc_ref := cc_ref cli + 1\<rparr>"

definition nrs_crrn_hop_put :: "nrs_crrn_client \<Rightarrow> nrs_crrn_client" where
  "nrs_crrn_hop_put cli = cli\<lparr>cc_ref := cc_ref cli - 1\<rparr>"

definition nrs_crrn_hop_exit :: "nrs_crrn_client \<Rightarrow> unit option" where
  "nrs_crrn_hop_exit cli = LASSERT (cc_ref cli = 0)"

text \<open>The hash calls \<open>hs_get\<close> on a client it finds or adds.\<close>

definition cli_findadd :: "nrs_crrn_net \<Rightarrow> u64 \<Rightarrow> nrs_crrn_client \<Rightarrow> nrs_crrn_net" where
  "cli_findadd net nid cli =
     (case cli_get net nid of
        None \<Rightarrow> cli_set net nid (nrs_crrn_hop_get cli)
      | Some old \<Rightarrow> cli_set net nid (nrs_crrn_hop_get old))"

text \<open>
  The second-level resource of a request from \<open>nid\<close>; the first level only returns the address
  of the instance. The result is \<open>1\<close>, or the error.
\<close>

definition nrs_crrn_res_get ::
  "bool \<Rightarrow> (crr_state \<Rightarrow> crr_state) \<Rightarrow> crr_state \<Rightarrow> node \<Rightarrow> u64 \<Rightarrow> int \<times> crr_state" where
  "nrs_crrn_res_get alloc race st nrq nid =
     (case cli_get (crr_net st) nid of
        Some cli \<Rightarrow> (1, st\<lparr>crr_net := cli_set (crr_net st) nid (nrs_crrn_hop_get cli), nr_res := (nr_res st)(nrq \<mapsto> nid)\<rparr>)
      | None \<Rightarrow>
          if \<not> alloc then (- ENOMEM, st)
          else
            let cli = \<lparr>cc_round = 0, cc_sequence = 0, cc_ref = 1, cc_quantum = 0, cc_active = 0\<rparr>;
                st = race st in
            (1, st\<lparr>crr_net := cli_findadd (crr_net st) nid cli, nr_res := (nr_res st)(nrq \<mapsto> nid)\<rparr>))"

definition nrs_crrn_res_put :: "crr_state \<Rightarrow> node \<Rightarrow> crr_state option" where
  "nrs_crrn_res_put st nrq = do {
     nid \<leftarrow> nr_res st nrq;
     cli \<leftarrow> cli_get (crr_net st) nid;
     Some (st\<lparr>crr_net := cli_set (crr_net st) nid (nrs_crrn_hop_put cli), nr_res := (nr_res st)(nrq := None)\<rparr>) }"

section \<open>Policy instances\<close>

definition nrs_crrn_start ::
  "bool \<Rightarrow> bool \<Rightarrow> (nat \<Rightarrow> nat \<Rightarrow> bool) \<Rightarrow> bool \<Rightarrow> (node \<Rightarrow> nat) \<Rightarrow> (int \<times> nrs_crrn_net option) option" where
  "nrs_crrn_start net_alloc heap_obj heap_alloc hash_alloc idx =
     (if \<not> net_alloc then Some (- ENOMEM, None)
      else do {
        heap \<leftarrow> cfs_binheap_create heap_obj heap_alloc 4096;
        case heap of
          None \<Rightarrow> Some (- ENOMEM, None)
        | Some h \<Rightarrow>
            if \<not> hash_alloc then do { _ \<leftarrow> cfs_binheap_destroy h; Some (- ENOMEM, None) }
            else Some (0, Some \<lparr>cn_binheap = \<lparr>cbh = h, chn_index = idx, cbh_exits = []\<rparr>, cn_cli_hash = [],
                   cn_round = 0, cn_sequence = 1, cn_quantum = OBD_MAX_RIF_DEFAULT\<rparr>) })"

text \<open>Destroying the hash drops its reference on every client and then calls \<open>hs_exit\<close>.\<close>

primrec crrn_hash_destroy :: "(u64 \<times> nrs_crrn_client) list \<Rightarrow> unit option" where
  "crrn_hash_destroy [] = Some ()"
| "crrn_hash_destroy (c # cs) = do {
     _ \<leftarrow> nrs_crrn_hop_exit (nrs_crrn_hop_put (snd c));
     crrn_hash_destroy cs }"

definition nrs_crrn_stop :: "nrs_crrn_net \<Rightarrow> unit option" where
  "nrs_crrn_stop net = do {
     _ \<leftarrow> LASSERT (cfs_binheap_is_empty (cbh (cn_binheap net)));
     _ \<leftarrow> cfs_binheap_destroy (cbh (cn_binheap net));
     crrn_hash_destroy (cn_cli_hash net) }"

datatype nrs_ctl_crr = NRS_CTL_CRRN_RD_QUANTUM | NRS_CTL_CRRN_WR_QUANTUM | NRS_CTL_OTHER

text \<open>The result code, the argument afterwards and the instance.\<close>

fun nrs_crrn_ctl :: "nrs_crrn_net \<Rightarrow> nrs_ctl_crr \<Rightarrow> u16 \<Rightarrow> (int \<times> u16 \<times> nrs_crrn_net) option" where
  "nrs_crrn_ctl net NRS_CTL_CRRN_RD_QUANTUM arg = Some (0, cn_quantum net, net)"
| "nrs_crrn_ctl net NRS_CTL_CRRN_WR_QUANTUM arg = do {
     _ \<leftarrow> LASSERT (arg \<noteq> 0);
     Some (0, arg, net\<lparr>cn_quantum := arg\<rparr>) }"
| "nrs_crrn_ctl net NRS_CTL_OTHER arg = Some (- EINVAL, arg, net)"

section \<open>Scheduling\<close>

text \<open>After the root has left the heap: the round follows the next request, or moves on.\<close>

definition crrn_next_round :: "(node \<Rightarrow> nrs_crrn_req) \<Rightarrow> nrs_crrn_net \<Rightarrow> nrs_crrn_net option" where
  "crrn_next_round rq net = do {
     node \<leftarrow> cfs_binheap_root (cbh (cn_binheap net));
     Some (case node of
        None \<Rightarrow> net\<lparr>cn_round := cn_round net + 1\<rparr>
      | Some next \<Rightarrow> if cn_round net < cr_round (rq next) then net\<lparr>cn_round := cr_round (rq next)\<rparr> else net) }"

text \<open>The common part of taking a request out of the heap.\<close>

definition crrn_take :: "crr_state \<Rightarrow> node \<Rightarrow> crr_state option" where
  "crrn_take st nrq = do {
     nid \<leftarrow> nr_res st nrq;
     cli \<leftarrow> cli_get (crr_net st) nid;
     _ \<leftarrow> LASSERT (cr_round (nr_crr st nrq) \<le> cc_round cli);
     hp \<leftarrow> cfs_binheap_remove (nrs_crrn_heap_ops (nr_crr st)) (cn_binheap (crr_net st)) nrq;
     let net = (crr_net st)\<lparr>cn_binheap := hp\<rparr>;
     Some (st\<lparr>crr_net := cli_set net nid (cli\<lparr>cc_active := cc_active cli - 1\<rparr>)\<rparr>) }"

definition nrs_crrn_req_get :: "crr_state \<Rightarrow> bool \<Rightarrow> (node option \<times> crr_state) option" where
  "nrs_crrn_req_get st peek = do {
     node \<leftarrow> cfs_binheap_root (cbh (cn_binheap (crr_net st)));
     case node of
       None \<Rightarrow> Some (None, st)
     | Some nrq \<Rightarrow>
         if peek then Some (Some nrq, st)
         else do {
           st \<leftarrow> crrn_take st nrq;
           net \<leftarrow> crrn_next_round (nr_crr st) (crr_net st);
           Some (Some nrq, st\<lparr>crr_net := net\<rparr>) } }"

definition nrs_crrn_req_del :: "crr_state \<Rightarrow> node \<Rightarrow> crr_state option" where
  "nrs_crrn_req_del st nrq = do {
     root \<leftarrow> cfs_binheap_root (cbh (cn_binheap (crr_net st)));
     let is_root = (root = Some nrq);
     st \<leftarrow> crrn_take st nrq;
     if is_root then do {
       net \<leftarrow> crrn_next_round (nr_crr st) (crr_net st);
       Some (st\<lparr>crr_net := net\<rparr>) }
     else Some st }"

text \<open>The round, sequence and quantum a client continues with, and the sequence of the instance.\<close>

definition crrn_new_batch :: "nrs_crrn_net \<Rightarrow> nrs_crrn_client \<Rightarrow> nrs_crrn_client \<times> u64" where
  "crrn_new_batch net cli =
     (let fragmented = (cc_active cli = 0 \<and> cc_quantum cli > 0) in
      if cc_quantum cli = 0 \<or> cc_round cli < cn_round net \<or> fragmented then
        let cli = (if fragmented then cli\<lparr>cc_round := cc_round cli + 1\<rparr> else cli);
            cli = (if cc_round cli < cn_round net then cli\<lparr>cc_round := cn_round net\<rparr> else cli);
            (cli, seq) = (if cc_sequence cli < cn_sequence net
                          then (cli\<lparr>cc_sequence := cn_sequence net + 1\<rparr>, cn_sequence net + 1) else (cli, cn_sequence net)) in
        (cli\<lparr>cc_quantum := cn_quantum net\<rparr>, seq)
      else (cli, cn_sequence net))"

definition nrs_crrn_req_add :: "(nat \<Rightarrow> bool) \<Rightarrow> crr_state \<Rightarrow> node \<Rightarrow> (int \<times> crr_state) option" where
  "nrs_crrn_req_add alloc st nrq = do {
     nid \<leftarrow> nr_res st nrq;
     cli \<leftarrow> cli_get (crr_net st) nid;
     let (cli, seq) = crrn_new_batch (crr_net st) cli;
     let rq = (nr_crr st)(nrq := \<lparr>cr_round = cc_round cli, cr_sequence = cc_sequence cli\<rparr>);
     (rc, hp) \<leftarrow> cfs_binheap_insert (nrs_crrn_heap_ops rq) alloc (cn_binheap (crr_net st)) nrq;
     let net = (crr_net st)\<lparr>cn_binheap := hp, cn_sequence := seq\<rparr>;
     let cli = (if rc = 0 then
                  let cli = cli\<lparr>cc_active := cc_active cli + 1, cc_quantum := cc_quantum cli - 1\<rparr> in
                  if cc_quantum cli = 0 then cli\<lparr>cc_round := cc_round cli + 1\<rparr> else cli
                else cli);
     Some (rc, st\<lparr>crr_net := cli_set net nid cli, nr_crr := rq\<rparr>) }"

section \<open>The requests of an instance\<close>

definition queued :: "crr_state \<Rightarrow> node set" where
  "queued st = binheap_elems (cn_binheap (crr_net st))"

text \<open>The order of the heap as one number.\<close>

definition crr_rank :: "(node \<Rightarrow> nrs_crrn_req) \<Rightarrow> node \<Rightarrow> nat" where
  "crr_rank rq e = unat (cr_round (rq e)) * 2 ^ 64 + unat (cr_sequence (rq e))"

lemma heap_ops_rank: "nrs_crrn_heap_ops rq = rank_ops (crr_rank rq)"
proof -
  have "crrn_req_compare rq a b \<longleftrightarrow> crr_rank rq a < crr_rank rq b" for a b
  proof -
    have s: "unat (cr_sequence (rq a)) < 2 ^ 64" "unat (cr_sequence (rq b)) < 2 ^ 64"
      using unat_lt_bound [of "cr_sequence (rq a)"] unat_lt_bound [of "cr_sequence (rq b)"] by simp_all
    show ?thesis unfolding crr_rank_def lex_less [OF s] crrn_req_compare_def
      by (auto simp: word_less_nat_alt word_unat_eq_iff)
  qed
  then show ?thesis by (simp add: nrs_crrn_heap_ops_def rank_ops_def fun_eq_iff)
qed

lemma crr_rank_le: "crr_rank rq a \<le> crr_rank rq b \<Longrightarrow> cr_round (rq a) \<le> cr_round (rq b)"
proof (rule ccontr)
  assume le: "crr_rank rq a \<le> crr_rank rq b" and "\<not> cr_round (rq a) \<le> cr_round (rq b)"
  then have "unat (cr_round (rq b)) < unat (cr_round (rq a))" by (simp add: word_le_nat_alt)
  moreover have "unat (cr_sequence (rq a)) < 2 ^ 64" "unat (cr_sequence (rq b)) < 2 ^ 64"
    using unat_lt_bound [of "cr_sequence (rq a)"] unat_lt_bound [of "cr_sequence (rq b)"] by simp_all
  ultimately have "crr_rank rq b < crr_rank rq a" unfolding crr_rank_def by (subst lex_less) simp_all
  with le show False by simp
qed

lemma cli_get_set [simp]: "cli_get (cli_set net nid c) k = (if k = nid then Some c else cli_get net k)"
  by (simp add: cli_get_def cli_set_def update_conv)

lemma cli_set_sel [simp]:
  "cn_binheap (cli_set net nid c) = cn_binheap net" "cn_round (cli_set net nid c) = cn_round net"
  "cn_sequence (cli_set net nid c) = cn_sequence net" "cn_quantum (cli_set net nid c) = cn_quantum net"
  by (simp_all add: cli_set_def)

lemma cli_set_distinct: "distinct (map fst (cn_cli_hash net)) \<Longrightarrow> distinct (map fst (cn_cli_hash (cli_set net nid c)))"
  by (simp add: cli_set_def distinct_update)

lemma cli_get_upd [simp]:
  "cli_get (net\<lparr>cn_binheap := h\<rparr>) = cli_get net" "cli_get (net\<lparr>cn_round := r\<rparr>) = cli_get net"
  "cli_get (net\<lparr>cn_sequence := r\<rparr>) = cli_get net" "cli_get (net\<lparr>cn_quantum := q\<rparr>) = cli_get net"
  by (simp_all add: cli_get_def fun_eq_iff)

definition heap_inv :: "crr_state \<Rightarrow> bool" where
  "heap_inv st \<longleftrightarrow> binheap_ok (crr_rank (nr_crr st)) (cn_binheap (crr_net st))"

text \<open>The requests that are queued hold a client; rounds are between that of the instance and that of the client.\<close>

definition res_inv :: "crr_state \<Rightarrow> bool" where
  "res_inv st \<longleftrightarrow> (\<forall>e \<in> queued st. nr_res st e \<noteq> None) \<and> (\<forall>e nid. nr_res st e = Some nid \<longrightarrow> cli_get (crr_net st) nid \<noteq> None)"

definition round_inv :: "crr_state \<Rightarrow> bool" where
  "round_inv st \<longleftrightarrow> (\<forall>e \<in> queued st. cn_round (crr_net st) \<le> cr_round (nr_crr st e) \<and>
     (\<forall>nid cli. nr_res st e = Some nid \<and> cli_get (crr_net st) nid = Some cli \<longrightarrow> cr_round (nr_crr st e) \<le> cc_round cli))"

text \<open>The effect of the operations that take a request out of the heap.\<close>

definition taken :: "crr_state \<Rightarrow> node \<Rightarrow> crr_state \<Rightarrow> bool" where
  "taken st e st' \<longleftrightarrow> heap_inv st' \<and> queued st' = queued st - {e} \<and> nr_crr st' = nr_crr st \<and> nr_res st' = nr_res st \<and>
     cn_sequence (crr_net st') = cn_sequence (crr_net st) \<and> cn_quantum (crr_net st') = cn_quantum (crr_net st) \<and>
     (distinct (map fst (cn_cli_hash (crr_net st))) \<longrightarrow> distinct (map fst (cn_cli_hash (crr_net st')))) \<and>
     (\<exists>nid cli. nr_res st e = Some nid \<and> cli_get (crr_net st) nid = Some cli \<and>
        cli_get (crr_net st') = (cli_get (crr_net st))(nid \<mapsto> cli\<lparr>cc_active := cc_active cli - 1\<rparr>))"

lemma take_ok:
  assumes "heap_inv st" "res_inv st" "round_inv st" "e \<in> queued st"
  shows "\<exists>st'. crrn_take st e = Some st' \<and> taken st e st' \<and> cn_round (crr_net st') = cn_round (crr_net st)"
proof -
  obtain nid where nid: "nr_res st e = Some nid" using assms(2,4) by (auto simp: res_inv_def)
  obtain cli where cli: "cli_get (crr_net st) nid = Some cli" using assms(2) nid unfolding res_inv_def by blast
  have "cr_round (nr_crr st e) \<le> cc_round cli" using assms(3,4) nid cli by (auto simp: round_inv_def)
  moreover obtain hp where "cfs_binheap_remove (nrs_crrn_heap_ops (nr_crr st)) (cn_binheap (crr_net st)) e = Some hp"
    "binheap_ok (crr_rank (nr_crr st)) hp" "binheap_elems hp = queued st - {e}"
    using bh.del_ok [of "crr_rank (nr_crr st)" "cn_binheap (crr_net st)" e] assms(1,4)
    by (auto simp: heap_inv_def queued_def heap_ops_rank)
  ultimately show ?thesis using nid cli
    by (auto simp: crrn_take_def Let_def taken_def heap_inv_def queued_def fun_eq_iff cli_set_distinct)
qed

text \<open>The round of the instance after its first request has left.\<close>

lemma next_round_ok:
  assumes "heap_inv st"
  shows "\<exists>net'. crrn_next_round (nr_crr st) (crr_net st) = Some net' \<and>
    (\<exists>r. net' = (crr_net st)\<lparr>cn_round := r\<rparr> \<and>
       (if queued st = {} then r = cn_round (crr_net st) + 1
        else \<exists>e \<in> queued st. r = max (cn_round (crr_net st)) (cr_round (nr_crr st e)) \<and> (\<forall>x \<in> queued st. cr_round (nr_crr st e) \<le> cr_round (nr_crr st x))))"
proof (cases "queued st = {}")
  case True
  then show ?thesis using bh.top_None [of "crr_rank (nr_crr st)" "cn_binheap (crr_net st)"] assms
    by (auto simp: heap_inv_def queued_def crrn_next_round_def)
next
  case False
  then obtain e where e: "cfs_binheap_root (cbh (cn_binheap (crr_net st))) = Some (Some e)" "e \<in> queued st"
    "\<forall>x \<in> queued st. crr_rank (nr_crr st) e \<le> crr_rank (nr_crr st) x"
    using bh.top_min [of "crr_rank (nr_crr st)" "cn_binheap (crr_net st)"] assms by (auto simp: heap_inv_def queued_def)
  have "max (cn_round (crr_net st)) (cr_round (nr_crr st e)) = (if cn_round (crr_net st) < cr_round (nr_crr st e) then cr_round (nr_crr st e) else cn_round (crr_net st))"
    by (auto simp: max_def)
  moreover have "(crr_net st)\<lparr>cn_round := cn_round (crr_net st)\<rparr> = crr_net st" by simp
  ultimately have "crrn_next_round (nr_crr st) (crr_net st) = Some ((crr_net st)\<lparr>cn_round := max (cn_round (crr_net st)) (cr_round (nr_crr st e))\<rparr>)"
    using e(1) by (simp add: crrn_next_round_def)
  moreover have "\<forall>x \<in> queued st. cr_round (nr_crr st e) \<le> cr_round (nr_crr st x)" using e(3) crr_rank_le by blast
  ultimately show ?thesis using e(2) False by auto
qed


text \<open>The instance after a request was taken out: the requests left are of its round or a later one.\<close>

definition round_after :: "crr_state \<Rightarrow> crr_state \<Rightarrow> bool" where
  "round_after st st' \<longleftrightarrow> cn_round (crr_net st) \<le> cn_round (crr_net st') \<and>
     (\<forall>x \<in> queued st'. cn_round (crr_net st') \<le> cr_round (nr_crr st' x)) \<and>
     (cn_round (crr_net st') = cn_round (crr_net st) \<or> cn_round (crr_net st') = cn_round (crr_net st) + 1 \<or>
      (\<exists>x \<in> queued st'. cn_round (crr_net st') = cr_round (nr_crr st' x)))"

lemma word_le_inc: "unat (a :: 'a::len word) + 1 < 2 ^ LENGTH('a) \<Longrightarrow> a \<le> a + 1"
  using unat_plus_no_wrap [of a 1] by (simp add: word_le_nat_alt)

lemma take_next_ok:
  assumes "heap_inv st" "res_inv st" "round_inv st" "e \<in> queued st" "unat (cn_round (crr_net st)) + 1 < 2 ^ 64"
  shows "\<exists>st1 net. crrn_take st e = Some st1 \<and> crrn_next_round (nr_crr st1) (crr_net st1) = Some net \<and>
    taken st e (st1\<lparr>crr_net := net\<rparr>) \<and> round_after st (st1\<lparr>crr_net := net\<rparr>)"
proof -
  obtain st1 where st1: "crrn_take st e = Some st1" "taken st e st1" "cn_round (crr_net st1) = cn_round (crr_net st)"
    using take_ok [OF assms(1-4)] by blast
  have hi: "heap_inv st1" and low: "\<forall>x \<in> queued st1. cn_round (crr_net st1) \<le> cr_round (nr_crr st1 x)"
    using st1(2,3) assms(3) by (auto simp: taken_def round_inv_def)
  obtain net r where net: "crrn_next_round (nr_crr st1) (crr_net st1) = Some net" "net = (crr_net st1)\<lparr>cn_round := r\<rparr>"
    "if queued st1 = {} then r = cn_round (crr_net st1) + 1
     else \<exists>e \<in> queued st1. r = max (cn_round (crr_net st1)) (cr_round (nr_crr st1 e)) \<and> (\<forall>x \<in> queued st1. cr_round (nr_crr st1 e) \<le> cr_round (nr_crr st1 x))"
    using next_round_ok [OF hi] by blast
  have q: "queued (st1\<lparr>crr_net := net\<rparr>) = queued st1" by (simp add: queued_def net(2))
  have "taken st e (st1\<lparr>crr_net := net\<rparr>)" using st1(2) unfolding taken_def heap_inv_def queued_def net(2)
    by (elim conjE, intro conjI) simp_all
  moreover have "round_after st (st1\<lparr>crr_net := net\<rparr>)"
  proof (cases "queued st1 = {}")
    case True
    then show ?thesis using net(2,3) st1(3) word_le_inc [of "cn_round (crr_net st)"] assms(5) q by (simp add: round_after_def)
  next
    case False
    then obtain x where "x \<in> queued st1" "r = max (cn_round (crr_net st1)) (cr_round (nr_crr st1 x))" "\<forall>y \<in> queued st1. cr_round (nr_crr st1 x) \<le> cr_round (nr_crr st1 y)"
      using net(3) by auto
    then show ?thesis using low st1(3) q by (auto simp: round_after_def net(2) max_def)
  qed
  ultimately show ?thesis using st1(1) net(1) by blast
qed

lemma req_get_ok:
  assumes "heap_inv st" "res_inv st" "round_inv st" "unat (cn_round (crr_net st)) + 1 < 2 ^ 64"
  shows "\<exists>r st'. nrs_crrn_req_get st False = Some (r, st') \<and>
    (case r of None \<Rightarrow> queued st = {} \<and> st' = st
     | Some e \<Rightarrow> e \<in> queued st \<and> (\<forall>x \<in> queued st. crr_rank (nr_crr st) e \<le> crr_rank (nr_crr st) x) \<and>
         taken st e st' \<and> round_after st st')"
proof (cases "queued st = {}")
  case True
  then show ?thesis using bh.top_None [of "crr_rank (nr_crr st)" "cn_binheap (crr_net st)"] assms(1)
    by (auto simp: heap_inv_def queued_def nrs_crrn_req_get_def)
next
  case False
  then obtain e where e: "cfs_binheap_root (cbh (cn_binheap (crr_net st))) = Some (Some e)" "e \<in> queued st"
    "\<forall>x \<in> queued st. crr_rank (nr_crr st) e \<le> crr_rank (nr_crr st) x"
    using bh.top_min [of "crr_rank (nr_crr st)" "cn_binheap (crr_net st)"] assms(1) by (auto simp: heap_inv_def queued_def)
  show ?thesis using take_next_ok [OF assms(1-3) e(2) assms(4)] e by (auto simp: nrs_crrn_req_get_def)
qed

lemma req_del_ok:
  assumes "heap_inv st" "res_inv st" "round_inv st" "unat (cn_round (crr_net st)) + 1 < 2 ^ 64" "e \<in> queued st"
  shows "\<exists>st'. nrs_crrn_req_del st e = Some st' \<and> taken st e st' \<and> round_after st st'"
proof -
  obtain root where root: "cfs_binheap_root (cbh (cn_binheap (crr_net st))) = Some root"
    using bh.top_min [of "crr_rank (nr_crr st)" "cn_binheap (crr_net st)"] assms(1,5) by (auto simp: heap_inv_def queued_def)
  show ?thesis
  proof (cases "root = Some e")
    case True
    then show ?thesis using take_next_ok [OF assms(1-3,5,4)] root by (auto simp: nrs_crrn_req_del_def)
  next
    case False
    obtain st1 where st1: "crrn_take st e = Some st1" "taken st e st1" "cn_round (crr_net st1) = cn_round (crr_net st)"
      using take_ok [OF assms(1-3,5)] by blast
    then have "round_after st st1" using assms(3) by (auto simp: round_after_def taken_def round_inv_def)
    then show ?thesis using False root st1 by (simp add: nrs_crrn_req_del_def)
  qed
qed

section \<open>Adding a request\<close>

lemma new_batch_ok:
  assumes "crrn_new_batch net cli = (cli', seq')" "unat (cc_round cli) + 1 < 2 ^ 64" "unat (cn_sequence net) + 1 < 2 ^ 64" "cn_quantum net \<noteq> 0"
  shows "cn_round net \<le> cc_round cli'" "cc_round cli \<le> cc_round cli'"
    "unat (cc_round cli') \<le> max (unat (cc_round cli) + 1) (unat (cn_round net))"
    "cc_quantum cli' \<noteq> 0" "cc_active cli' = cc_active cli" "cc_ref cli' = cc_ref cli"
    "(cli' = cli \<and> seq' = cn_sequence net) \<or>
     (cc_quantum cli' = cn_quantum net \<and> (cc_quantum cli = 0 \<or> cc_round cli < cc_round cli') \<and>
      (cc_sequence cli \<le> cn_sequence net \<longrightarrow> cc_sequence cli' = seq' \<and>
        (cc_sequence cli' = cc_sequence cli \<and> seq' = cn_sequence net \<or> seq' = cn_sequence net + 1)))"
    "unat (cn_sequence net) \<le> unat seq'" "unat seq' \<le> unat (cn_sequence net) + 1"
proof -
  have r: "cc_round cli < cc_round cli + 1" "unat (cc_round cli + 1) = unat (cc_round cli) + 1"
    using unat_plus_no_wrap [of "cc_round cli" 1] assms(2) by (simp_all add: word_less_nat_alt)
  have s: "unat (cn_sequence net + 1) = unat (cn_sequence net) + 1"
    using unat_plus_no_wrap [of "cn_sequence net" 1] assms(3) by simp
  note d = assms(1) [unfolded crrn_new_batch_def Let_def]
  show "cn_round net \<le> cc_round cli'" using d by (auto split: if_splits)
  show "cc_round cli \<le> cc_round cli'" using d r(1) by (auto split: if_splits)
  show "unat (cc_round cli') \<le> max (unat (cc_round cli) + 1) (unat (cn_round net))" using d r(2) by (auto split: if_splits)
  show "cc_quantum cli' \<noteq> 0" "cc_active cli' = cc_active cli" "cc_ref cli' = cc_ref cli" using d assms(4) by (auto split: if_splits)
  show "(cli' = cli \<and> seq' = cn_sequence net) \<or>
     (cc_quantum cli' = cn_quantum net \<and> (cc_quantum cli = 0 \<or> cc_round cli < cc_round cli') \<and>
      (cc_sequence cli \<le> cn_sequence net \<longrightarrow> cc_sequence cli' = seq' \<and>
        (cc_sequence cli' = cc_sequence cli \<and> seq' = cn_sequence net \<or> seq' = cn_sequence net + 1)))"
    using d r(1) by (auto split: if_splits)
  show "unat (cn_sequence net) \<le> unat seq'" "unat seq' \<le> unat (cn_sequence net) + 1" using d s by (auto split: if_splits)
qed


section \<open>The scheduler as a machine\<close>

text \<open>
  The steps of an instance: a request takes a reference on its client, is added, dispatched or
  deleted, and drops the reference; the quantum is changed, to at most \<open>Q\<close> (the \<open>proc\<close> file refuses a quantum
  of 0, on which \<open>nrs_crrn_ctl\<close> asserts). The ghost lists
  \<open>adds\<close> and \<open>disp\<close> record client and round of the requests added and dispatched.
\<close>

record crr_sys =
  sys_st :: crr_state
  adds :: "(u64 \<times> u64) list"
  disp :: "(u64 \<times> u64) list"

definition tag :: "crr_state \<Rightarrow> node \<Rightarrow> u64 \<times> u64" where
  "tag st e = (the (nr_res st e), cr_round (nr_crr st e))"

inductive crr_step :: "nat \<Rightarrow> crr_sys \<Rightarrow> crr_sys \<Rightarrow> bool" for Q where
  res_get: "nr_res st e = None \<Longrightarrow> nrs_crrn_res_get alloc id st e nid = (rc, st') \<Longrightarrow>
    crr_step Q \<lparr>sys_st = st, adds = A, disp = D\<rparr> \<lparr>sys_st = st', adds = A, disp = D\<rparr>"
| res_put: "e \<notin> queued st \<Longrightarrow> nrs_crrn_res_put st e = Some st' \<Longrightarrow>
    crr_step Q \<lparr>sys_st = st, adds = A, disp = D\<rparr> \<lparr>sys_st = st', adds = A, disp = D\<rparr>"
| req_add: "e \<notin> queued st \<Longrightarrow> nr_res st e \<noteq> None \<Longrightarrow> nrs_crrn_req_add ok st e = Some (rc, st') \<Longrightarrow>
    crr_step Q \<lparr>sys_st = st, adds = A, disp = D\<rparr> \<lparr>sys_st = st', adds = (if rc = 0 then tag st' e # A else A), disp = D\<rparr>"
| req_get: "nrs_crrn_req_get st False = Some (r, st') \<Longrightarrow>
    crr_step Q \<lparr>sys_st = st, adds = A, disp = D\<rparr>
      \<lparr>sys_st = st', adds = A, disp = (case r of None \<Rightarrow> D | Some e \<Rightarrow> tag st e # D)\<rparr>"
| req_del: "e \<in> queued st \<Longrightarrow> nrs_crrn_req_del st e = Some st' \<Longrightarrow>
    crr_step Q \<lparr>sys_st = st, adds = A, disp = D\<rparr> \<lparr>sys_st = st', adds = A, disp = D\<rparr>"
| ctl: "nrs_crrn_ctl (crr_net st) NRS_CTL_CRRN_WR_QUANTUM q = Some (rc, q', net') \<Longrightarrow> unat q \<le> Q \<Longrightarrow>
    crr_step Q \<lparr>sys_st = st, adds = A, disp = D\<rparr> \<lparr>sys_st = st\<lparr>crr_net := net'\<rparr>, adds = A, disp = D\<rparr>"

text \<open>
  When another thread changes the state to \<open>st\<close> after the lookup failed in \<open>st0\<close>, with or without adding
  the client, \<open>nrs_crrn_res_get\<close> has the effect of a call in \<open>st\<close> alone: it is a step of the machine from
  \<open>st\<close>, and the other thread has made its own steps before it.
\<close>

lemma res_get_race:
  assumes "cli_get (crr_net st0) nid = None"
  shows "nrs_crrn_res_get True (\<lambda>_. st) st0 e nid = nrs_crrn_res_get True id st e nid"
  using assms by (simp add: nrs_crrn_res_get_def cli_findadd_def Let_def split: option.split)

lemma crr_step_race:
  assumes "nr_res st e = None" "cli_get (crr_net st0) nid = None" "nrs_crrn_res_get True (\<lambda>_. st) st0 e nid = (rc, st')"
  shows "crr_step Q \<lparr>sys_st = st, adds = A, disp = D\<rparr> \<lparr>sys_st = st', adds = A, disp = D\<rparr>"
  using crr_step.res_get [OF assms(1), of True nid rc st'] assms(3) unfolding res_get_race [OF assms(2)] by simp

text \<open>The instance that \<open>nrs_crrn_start\<close> returns, with no request yet.\<close>

definition crr_start :: "nat \<Rightarrow> crr_sys \<Rightarrow> bool" where
  "crr_start Q s \<longleftrightarrow> 8 \<le> Q \<and> adds s = [] \<and> disp s = [] \<and> nr_res (sys_st s) = Map.empty \<and>
     (\<exists>al idx. nrs_crrn_start True True al True idx = Some (0, Some (crr_net (sys_st s))))"

inductive crr_run :: "nat \<Rightarrow> nat \<Rightarrow> crr_sys \<Rightarrow> bool" for Q where
  start: "crr_start Q s \<Longrightarrow> crr_run Q 0 s"
| step: "crr_run Q n s \<Longrightarrow> crr_step Q s s' \<Longrightarrow> crr_run Q (Suc n) s'"

section \<open>Invariants\<close>

definition bound_inv :: "nat \<Rightarrow> nat \<Rightarrow> crr_state \<Rightarrow> bool" where
  "bound_inv Q n st \<longleftrightarrow> unat (cn_round (crr_net st)) \<le> 2 * n \<and> unat (cn_sequence (crr_net st)) \<le> n + 1 \<and>
     0 < cn_sequence (crr_net st) \<and> cn_quantum (crr_net st) \<noteq> 0 \<and> unat (cn_quantum (crr_net st)) \<le> Q \<and>
     (\<forall>nid cli. cli_get (crr_net st) nid = Some cli \<longrightarrow> unat (cc_round cli) \<le> 2 * n \<and> cc_sequence cli \<le> cn_sequence (crr_net st))"

definition cli_quota :: "nat \<Rightarrow> (u64 \<times> u64) list \<Rightarrow> u64 \<Rightarrow> nrs_crrn_client \<Rightarrow> bool" where
  "cli_quota Q A nid cli \<longleftrightarrow>
     (if cc_quantum cli = 0 then \<forall>r. (nid, r) \<in> set A \<longrightarrow> r < cc_round cli
      else (\<forall>r. (nid, r) \<in> set A \<longrightarrow> r \<le> cc_round cli) \<and> count_list A (nid, cc_round cli) + unat (cc_quantum cli) \<le> Q)"

definition quota_inv :: "nat \<Rightarrow> crr_state \<Rightarrow> (u64 \<times> u64) list \<Rightarrow> bool" where
  "quota_inv Q st A \<longleftrightarrow> (\<forall>nid cli. cli_get (crr_net st) nid = Some cli \<longrightarrow> cli_quota Q A nid cli) \<and>
     (\<forall>nid r. (nid, r) \<in> set A \<longrightarrow> cli_get (crr_net st) nid \<noteq> None) \<and> (\<forall>k. count_list A k \<le> Q)"

definition flow_inv :: "crr_state \<Rightarrow> (u64 \<times> u64) list \<Rightarrow> (u64 \<times> u64) list \<Rightarrow> bool" where
  "flow_inv st A D \<longleftrightarrow> (\<forall>k. count_list D k + card {e \<in> queued st. tag st e = k} \<le> count_list A k)"

definition ref_inv :: "crr_state \<Rightarrow> bool" where
  "ref_inv st \<longleftrightarrow> finite {e. nr_res st e \<noteq> None} \<and> distinct (map fst (cn_cli_hash (crr_net st))) \<and>
     (\<forall>nid cli. cli_get (crr_net st) nid = Some cli \<longrightarrow> cc_ref cli = 1 + int (card {e. nr_res st e = Some nid}))"

text \<open>A batch sequence belongs to one client.\<close>

definition seq_inv :: "crr_state \<Rightarrow> bool" where
  "seq_inv st \<longleftrightarrow>
     (\<forall>nid nid' c c'. nid \<noteq> nid' \<longrightarrow> cli_get (crr_net st) nid = Some c \<longrightarrow> cli_get (crr_net st) nid' = Some c' \<longrightarrow>
        cc_sequence c = cc_sequence c' \<longrightarrow> cc_sequence c = 0) \<and>
     (\<forall>nid c. cli_get (crr_net st) nid = Some c \<longrightarrow> cc_quantum c \<noteq> 0 \<longrightarrow> cc_sequence c \<noteq> 0) \<and>
     (\<forall>e \<in> queued st. cr_sequence (nr_crr st e) \<noteq> 0 \<and> cr_sequence (nr_crr st e) \<le> cn_sequence (crr_net st) \<and>
        (\<forall>nid c. nr_res st e \<noteq> Some nid \<longrightarrow> cli_get (crr_net st) nid = Some c \<longrightarrow> cc_sequence c \<noteq> cr_sequence (nr_crr st e)) \<and>
        (\<forall>e' \<in> queued st. nr_res st e \<noteq> nr_res st e' \<longrightarrow> cr_sequence (nr_crr st e) \<noteq> cr_sequence (nr_crr st e')))"

lemmas inv_defs = heap_inv_def res_inv_def round_inv_def bound_inv_def quota_inv_def flow_inv_def ref_inv_def seq_inv_def

definition crr_inv :: "nat \<Rightarrow> nat \<Rightarrow> crr_sys \<Rightarrow> bool" where
  "crr_inv Q n s \<longleftrightarrow> heap_inv (sys_st s) \<and> res_inv (sys_st s) \<and> round_inv (sys_st s) \<and> bound_inv Q n (sys_st s) \<and>
     quota_inv Q (sys_st s) (adds s) \<and> flow_inv (sys_st s) (adds s) (disp s) \<and> ref_inv (sys_st s) \<and> seq_inv (sys_st s)"

subsection \<open>Taking a request out\<close>

lemma taken_get:
  assumes "taken st e st'"
  obtains nid cli where "nr_res st e = Some nid" "cli_get (crr_net st) nid = Some cli"
    "\<And>k. cli_get (crr_net st') k = (if k = nid then Some (cli\<lparr>cc_active := cc_active cli - 1\<rparr>) else cli_get (crr_net st) k)"
proof -
  obtain nid cli where "nr_res st e = Some nid" "cli_get (crr_net st) nid = Some cli"
    and eq: "cli_get (crr_net st') = (cli_get (crr_net st))(nid \<mapsto> cli\<lparr>cc_active := cc_active cli - 1\<rparr>)"
    using assms unfolding taken_def by blast
  then show thesis using that fun_cong [OF eq] by (simp add: fun_upd_def)
qed

lemma taken_cli:
  assumes "taken st e st'" "cli_get (crr_net st') nid = Some c"
  shows "\<exists>c0. cli_get (crr_net st) nid = Some c0 \<and> cc_round c = cc_round c0 \<and> cc_sequence c = cc_sequence c0 \<and>
    cc_quantum c = cc_quantum c0 \<and> cc_ref c = cc_ref c0"
  using assms by (elim taken_get) (auto split: if_splits)

lemma taken_dom: "taken st e st' \<Longrightarrow> cli_get (crr_net st') nid = None \<longleftrightarrow> cli_get (crr_net st) nid = None"
  by (elim taken_get) simp

lemma taken_sel:
  assumes "taken st e st'"
  shows "heap_inv st'" "queued st' = queued st - {e}" "nr_crr st' = nr_crr st" "nr_res st' = nr_res st"
    "cn_sequence (crr_net st') = cn_sequence (crr_net st)" "cn_quantum (crr_net st') = cn_quantum (crr_net st)"
  using assms by (simp_all add: taken_def)

lemma taken_res: "taken st e st' \<Longrightarrow> res_inv st \<Longrightarrow> res_inv st'"
  by (simp add: res_inv_def taken_sel taken_dom)

lemma taken_round:
  assumes t: "taken st e st'" "round_after st st'" and i: "round_inv st"
  shows "round_inv st'"
  unfolding round_inv_def
proof (intro ballI conjI allI impI; (elim conjE)?)
  fix x assume x: "x \<in> queued st'"
  show "cn_round (crr_net st') \<le> cr_round (nr_crr st' x)" using t(2) x by (simp add: round_after_def)
  fix nid cli assume c: "nr_res st' x = Some nid" "cli_get (crr_net st') nid = Some cli"
  obtain c0 where "cli_get (crr_net st) nid = Some c0" "cc_round cli = cc_round c0" using taken_cli [OF t(1) c(2)] by blast
  then show "cr_round (nr_crr st' x) \<le> cc_round cli" using i x c(1) by (simp add: round_inv_def taken_sel [OF t(1)])
qed

lemma unat_inc_le: "unat (a + 1 :: 'a::len word) \<le> unat a + 1"
proof (cases "unat a + 1 < 2 ^ LENGTH('a)")
  case True
  then show ?thesis using unat_plus_no_wrap [of a 1] by simp
next
  case False
  then show ?thesis using unat_lt_bound [of "a + 1"] by linarith
qed

lemma queued_round_bound:
  assumes "res_inv st" "round_inv st" "bound_inv Q n st" "x \<in> queued st"
  shows "unat (cr_round (nr_crr st x)) \<le> 2 * n"
proof -
  obtain nid cli where c: "nr_res st x = Some nid" "cli_get (crr_net st) nid = Some cli"
    using assms(1,4) unfolding res_inv_def by blast
  then have "cr_round (nr_crr st x) \<le> cc_round cli" using assms(2,4) unfolding round_inv_def by blast
  moreover have "unat (cc_round cli) \<le> 2 * n" using assms(3) c(2) unfolding bound_inv_def by blast
  ultimately show ?thesis by (simp add: word_le_nat_alt)
qed

lemma taken_bound:
  assumes t: "taken st e st'" "round_after st st'" and i: "res_inv st" "round_inv st" "bound_inv Q n st"
  shows "bound_inv Q (Suc n) st'"
proof -
  have 1: "unat (cn_round (crr_net st)) \<le> 2 * n" using i(3) by (simp add: bound_inv_def)
  have 2: "unat (cn_round (crr_net st) + 1) \<le> unat (cn_round (crr_net st)) + 1" by (rule unat_inc_le)
  have 3: "unat (cr_round (nr_crr st' x)) \<le> 2 * n" if "x \<in> queued st'" for x
    using queued_round_bound [OF i, of x] that by (simp add: taken_sel [OF t(1)])
  consider "cn_round (crr_net st') = cn_round (crr_net st)" | "cn_round (crr_net st') = cn_round (crr_net st) + 1"
    | x where "x \<in> queued st'" "cn_round (crr_net st') = cr_round (nr_crr st' x)"
    using t(2) unfolding round_after_def by blast
  then have "unat (cn_round (crr_net st')) \<le> 2 * Suc n"
  proof cases
    case 3
    then show ?thesis using \<open>\<And>x. x \<in> queued st' \<Longrightarrow> unat (cr_round (nr_crr st' x)) \<le> 2 * n\<close> by fastforce
  qed (use 1 2 in simp_all)
  moreover have "unat (cc_round cli) \<le> 2 * Suc n \<and> cc_sequence cli \<le> cn_sequence (crr_net st)"
    if "cli_get (crr_net st') nid = Some cli" for nid cli
    using taken_cli [OF t(1) that] i(3) unfolding bound_inv_def by fastforce
  ultimately show ?thesis using i(3) by (simp add: bound_inv_def taken_sel [OF t(1)])
qed

lemma taken_quota:
  assumes t: "taken st e st'" and i: "quota_inv Q st A"
  shows "quota_inv Q st' A"
proof -
  have "cli_quota Q A nid cli" if "cli_get (crr_net st') nid = Some cli" for nid cli
    using taken_cli [OF t that] i by (auto simp: quota_inv_def cli_quota_def)
  then show ?thesis using i taken_dom [OF t] by (simp add: quota_inv_def)
qed


lemma queued_finite: "heap_inv st \<Longrightarrow> finite (queued st)"
  using bh.finite_elems by (auto simp: heap_inv_def queued_def)

lemma taken_tag: "taken st e st' \<Longrightarrow> tag st' = tag st"
  by (simp add: tag_def fun_eq_iff taken_sel)

lemma taken_flow:
  assumes t: "taken st e st'" and h: "heap_inv st" and i: "flow_inv st A D" and e: "e \<in> queued st"
  shows "flow_inv st' A (tag st e # D)" "flow_inv st' A D"
proof -
  have fin: "finite {x \<in> queued st. tag st x = k}" for k using queued_finite [OF h] by simp
  have set: "{x \<in> queued st'. tag st' x = k} = {x \<in> queued st. tag st x = k} - {e}" for k
    by (auto simp: taken_sel [OF t] taken_tag [OF t])
  have c: "card {x \<in> queued st'. tag st' x = k} = card {x \<in> queued st. tag st x = k} - (if tag st e = k then 1 else 0)" for k
    unfolding set using e by (simp add: card_Diff_singleton_if)
  have pos: "0 < card {x \<in> queued st. tag st x = tag st e}" using fin e by (auto simp: card_gt_0_iff)
  have le: "count_list D k + card {x \<in> queued st. tag st x = k} \<le> count_list A k" for k
    using i unfolding flow_inv_def by blast
  show "flow_inv st' A (tag st e # D)" "flow_inv st' A D"
  proof -
    have "count_list (tag st e # D) k + card {x \<in> queued st'. tag st' x = k} \<le> count_list A k" for k
      using le [of k] pos by (cases "tag st e = k") (simp_all add: c)
    then show "flow_inv st' A (tag st e # D)" unfolding flow_inv_def by blast
    have "count_list D k + card {x \<in> queued st'. tag st' x = k} \<le> count_list A k" for k
      using le [of k] by (simp add: c)
    then show "flow_inv st' A D" unfolding flow_inv_def by blast
  qed
qed

lemma taken_ref:
  assumes t: "taken st e st'" and i: "ref_inv st"
  shows "ref_inv st'"
proof -
  have "distinct (map fst (cn_cli_hash (crr_net st')))" using t i unfolding taken_def ref_inv_def by blast
  then show ?thesis using taken_cli [OF t(1)] i by (fastforce simp: ref_inv_def taken_sel [OF t])
qed

lemma taken_seq:
  assumes t: "taken st e st'" and i: "seq_inv st"
  shows "seq_inv st'"
proof -
  have "cc_sequence c = 0" if "nid \<noteq> nid'" "cli_get (crr_net st') nid = Some c" "cli_get (crr_net st') nid' = Some c'" "cc_sequence c = cc_sequence c'" for nid nid' c c'
    using taken_cli [OF t that(2)] taken_cli [OF t that(3)] that(1,4) i unfolding seq_inv_def by metis
  moreover have "cc_sequence c \<noteq> 0" if "cli_get (crr_net st') nid = Some c" "cc_quantum c \<noteq> 0" for nid c
    using taken_cli [OF t that(1)] that(2) i unfolding seq_inv_def by metis
  moreover have "cc_sequence c \<noteq> cr_sequence (nr_crr st x)" if "x \<in> queued st" "nr_res st x \<noteq> Some nid" "cli_get (crr_net st') nid = Some c" for x nid c
    using taken_cli [OF t that(3)] that(1,2) i unfolding seq_inv_def by metis
  moreover have "\<forall>x \<in> queued st. cr_sequence (nr_crr st x) \<noteq> 0 \<and> cr_sequence (nr_crr st x) \<le> cn_sequence (crr_net st) \<and>
      (\<forall>x' \<in> queued st. nr_res st x \<noteq> nr_res st x' \<longrightarrow> cr_sequence (nr_crr st x) \<noteq> cr_sequence (nr_crr st x'))"
    using i unfolding seq_inv_def by blast
  ultimately show ?thesis unfolding seq_inv_def by (simp add: taken_sel [OF t])
qed

subsection \<open>Adding a request\<close>

definition cli_added :: "nrs_crrn_client \<Rightarrow> nrs_crrn_client" where
  "cli_added cli =
     (let cli = cli\<lparr>cc_active := cc_active cli + 1, cc_quantum := cc_quantum cli - 1\<rparr> in
      if cc_quantum cli = 0 then cli\<lparr>cc_round := cc_round cli + 1\<rparr> else cli)"

definition added :: "crr_state \<Rightarrow> node \<Rightarrow> int \<Rightarrow> crr_state \<Rightarrow> u64 \<Rightarrow> nrs_crrn_client \<Rightarrow> u64 \<Rightarrow> bool" where
  "added st e rc st' nid cli seq \<longleftrightarrow> heap_inv st' \<and> queued st' = (if rc = 0 then insert e (queued st) else queued st) \<and>
     nr_crr st' = (nr_crr st)(e := \<lparr>cr_round = cc_round cli, cr_sequence = cc_sequence cli\<rparr>) \<and> nr_res st' = nr_res st \<and>
     cn_round (crr_net st') = cn_round (crr_net st) \<and> cn_sequence (crr_net st') = seq \<and> cn_quantum (crr_net st') = cn_quantum (crr_net st) \<and>
     (distinct (map fst (cn_cli_hash (crr_net st))) \<longrightarrow> distinct (map fst (cn_cli_hash (crr_net st')))) \<and>
     (\<forall>k. cli_get (crr_net st') k = (if k = nid then Some (if rc = 0 then cli_added cli else cli) else cli_get (crr_net st) k))"

lemma add_ok:
  assumes "heap_inv st" "nr_res st e = Some nid" "cli_get (crr_net st) nid = Some cli0" "e \<notin> queued st"
    "crrn_new_batch (crr_net st) cli0 = (cli, seq)"
  shows "\<exists>rc st'. nrs_crrn_req_add ok st e = Some (rc, st') \<and> added st e rc st' nid cli seq"
proof -
  let ?rq = "(nr_crr st)(e := \<lparr>cr_round = cc_round cli, cr_sequence = cc_sequence cli\<rparr>)"
  have "binheap_ok (crr_rank ?rq) (cn_binheap (crr_net st))"
  proof (rule bh.ok_rank)
    show "binheap_ok (crr_rank (nr_crr st)) (cn_binheap (crr_net st))" using assms(1) by (simp add: heap_inv_def)
    show "crr_rank ?rq x = crr_rank (nr_crr st) x" if "x \<in> binheap_elems (cn_binheap (crr_net st))" for x
      using that assms(4) by (auto simp: queued_def crr_rank_def)
  qed
  then obtain rc hp where "cfs_binheap_insert (nrs_crrn_heap_ops ?rq) ok (cn_binheap (crr_net st)) e = Some (rc, hp)"
    "binheap_ok (crr_rank ?rq) hp" "binheap_elems hp = (if rc = 0 then insert e (queued st) else queued st)"
    using bh.ins_ok [of "crr_rank ?rq" "cn_binheap (crr_net st)" e ok] assms(4) by (auto simp: queued_def heap_ops_rank)
  then show ?thesis using assms(2,3,5)
    by (simp add: nrs_crrn_req_add_def added_def heap_inv_def queued_def cli_added_def Let_def cli_set_distinct)
qed

lemma added_sel:
  assumes "added st e rc st' nid cli seq"
  shows "heap_inv st'" "queued st' = (if rc = 0 then insert e (queued st) else queued st)"
    "nr_crr st' = (nr_crr st)(e := \<lparr>cr_round = cc_round cli, cr_sequence = cc_sequence cli\<rparr>)" "nr_res st' = nr_res st"
    "cn_round (crr_net st') = cn_round (crr_net st)" "cn_sequence (crr_net st') = seq" "cn_quantum (crr_net st') = cn_quantum (crr_net st)"
    "cli_get (crr_net st') k = (if k = nid then Some (if rc = 0 then cli_added cli else cli) else cli_get (crr_net st) k)"
  using assms unfolding added_def by blast+

text \<open>What holds when a request is added: the request, its client, and the batch it goes to.\<close>

definition adding :: "nat \<Rightarrow> nat \<Rightarrow> crr_state \<Rightarrow> node \<Rightarrow> u64 \<Rightarrow> nrs_crrn_client \<Rightarrow> nrs_crrn_client \<Rightarrow> u64 \<Rightarrow> int \<Rightarrow> crr_state \<Rightarrow> bool" where
  "adding Q n st e nid cli0 cli seq rc st' \<longleftrightarrow> heap_inv st \<and> res_inv st \<and> round_inv st \<and> bound_inv Q n st \<and> 2 * n + 4 < 2 ^ 64 \<and>
     e \<notin> queued st \<and> nr_res st e = Some nid \<and> cli_get (crr_net st) nid = Some cli0 \<and>
     crrn_new_batch (crr_net st) cli0 = (cli, seq) \<and> added st e rc st' nid cli seq"

lemma addingD:
  assumes "adding Q n st e nid cli0 cli seq rc st'"
  shows "res_inv st" "round_inv st" "bound_inv Q n st" "2 * n + 4 < 2 ^ 64"
    "e \<notin> queued st" "nr_res st e = Some nid" "cli_get (crr_net st) nid = Some cli0" "added st e rc st' nid cli seq"
  using assms by (simp_all add: adding_def)

lemma adding_batch:
  assumes "adding Q n st e nid cli0 cli seq rc st'"
  shows "cn_round (crr_net st) \<le> cc_round cli" "cc_round cli0 \<le> cc_round cli" "unat (cc_round cli) \<le> 2 * n + 1"
    "cc_quantum cli \<noteq> 0" "cc_ref cli = cc_ref cli0" "cn_sequence (crr_net st) \<le> seq" "unat seq \<le> n + 2" "0 < seq" "cc_sequence cli \<le> seq"
    "(cli = cli0 \<and> seq = cn_sequence (crr_net st)) \<or>
     (cc_quantum cli = cn_quantum (crr_net st) \<and> (cc_quantum cli0 = 0 \<or> cc_round cli0 < cc_round cli) \<and>
      cc_sequence cli = seq \<and> (cc_sequence cli = cc_sequence cli0 \<and> seq = cn_sequence (crr_net st) \<or> cn_sequence (crr_net st) < seq))"
proof -
  have a: "bound_inv Q n st" "2 * n + 4 < 2 ^ 64" "cli_get (crr_net st) nid = Some cli0" "crrn_new_batch (crr_net st) cli0 = (cli, seq)"
    using assms by (simp_all add: adding_def)
  have b: "unat (cn_round (crr_net st)) \<le> 2 * n" "unat (cn_sequence (crr_net st)) \<le> n + 1" "cn_quantum (crr_net st) \<noteq> 0"
    "0 < cn_sequence (crr_net st)" "unat (cc_round cli0) \<le> 2 * n" "cc_sequence cli0 \<le> cn_sequence (crr_net st)"
    using a(1,3) by (auto simp: bound_inv_def)
  have s: "unat (cc_round cli0) + 1 < 2 ^ 64" "unat (cn_sequence (crr_net st)) + 1 < 2 ^ 64" using b a(2) by linarith+
  note nb = new_batch_ok [OF a(4) s b(3)]
  show "cn_round (crr_net st) \<le> cc_round cli" "cc_round cli0 \<le> cc_round cli" "cc_quantum cli \<noteq> 0" "cc_ref cli = cc_ref cli0"
    by (fact nb)+
  show "unat (cc_round cli) \<le> 2 * n + 1" using nb(3) b by linarith
  show q: "cn_sequence (crr_net st) \<le> seq" "unat seq \<le> n + 2" using nb(8,9) b(2) by (simp_all add: word_le_nat_alt)
  show "0 < seq" using b(4) q(1) by (rule less_le_trans)
  show "cc_sequence cli \<le> seq" using nb(7) b(6) by auto
  have "cn_sequence (crr_net st) < cn_sequence (crr_net st) + 1" using unat_plus_no_wrap [of "cn_sequence (crr_net st)" 1] s(2) by (simp add: word_less_nat_alt)
  then show "(cli = cli0 \<and> seq = cn_sequence (crr_net st)) \<or>
     (cc_quantum cli = cn_quantum (crr_net st) \<and> (cc_quantum cli0 = 0 \<or> cc_round cli0 < cc_round cli) \<and>
      cc_sequence cli = seq \<and> (cc_sequence cli = cc_sequence cli0 \<and> seq = cn_sequence (crr_net st) \<or> cn_sequence (crr_net st) < seq))"
    using nb(7) b(6) by auto
qed

lemma cli_added_sel:
  "cc_quantum (cli_added cli) = cc_quantum cli - 1" "cc_sequence (cli_added cli) = cc_sequence cli" "cc_ref (cli_added cli) = cc_ref cli"
  "cc_round (cli_added cli) = (if cc_quantum cli = 1 then cc_round cli + 1 else cc_round cli)"
  by (simp_all add: cli_added_def Let_def)

lemma adding_round:
  assumes "adding Q n st e nid cli0 cli seq rc st'"
  shows "cc_round cli \<le> cc_round (cli_added cli)" "unat (cc_round (cli_added cli)) \<le> 2 * n + 2"
    "cc_quantum cli = 1 \<Longrightarrow> cc_round cli < cc_round (cli_added cli)"
proof -
  have i: "unat (cc_round cli + 1) = unat (cc_round cli) + 1"
    using unat_plus_no_wrap [of "cc_round cli" 1] adding_batch(3) [OF assms] addingD(4) [OF assms] by simp
  show "cc_round cli \<le> cc_round (cli_added cli)" "unat (cc_round (cli_added cli)) \<le> 2 * n + 2" "cc_quantum cli = 1 \<Longrightarrow> cc_round cli < cc_round (cli_added cli)"
    using adding_batch(3) [OF assms] i by (auto simp: cli_added_sel word_le_nat_alt word_less_nat_alt)
qed

lemma add_res:
  assumes a: "adding Q n st e nid cli0 cli seq rc st'"
  shows "res_inv st'"
proof -
  note ad = added_sel [OF addingD(8) [OF a]]
  show ?thesis using addingD [OF a] unfolding res_inv_def by (auto simp: ad split: if_splits)
qed

lemma add_round:
  assumes a: "adding Q n st e nid cli0 cli seq rc st'"
  shows "round_inv st'"
  unfolding round_inv_def
proof (intro ballI conjI allI impI; (elim conjE)?)
  note ad = added_sel [OF addingD(8) [OF a]] and h = addingD(2) [OF a] and e = addingD(5-7) [OF a]
  fix x assume x: "x \<in> queued st'"
  show "cn_round (crr_net st') \<le> cr_round (nr_crr st' x)"
    using x h adding_batch(1) [OF a] by (auto simp: ad round_inv_def split: if_splits)
  fix nid' c assume c: "nr_res st' x = Some nid'" "cli_get (crr_net st') nid' = Some c"
  show "cr_round (nr_crr st' x) \<le> cc_round c"
  proof (cases "nid' = nid")
    case True
    have "cc_round cli \<le> cc_round c" using c(2) True adding_round(1) [OF a] by (auto simp: ad split: if_splits)
    moreover have "cr_round (nr_crr st' x) \<le> cc_round cli"
    proof (cases "x = e")
      case False
      then have "cr_round (nr_crr st x) \<le> cc_round cli0" using x c(1) True e(3) h by (auto simp: ad round_inv_def split: if_splits)
      then show ?thesis using adding_batch(2) [OF a] False by (simp add: ad)
    qed (simp add: ad)
    ultimately show ?thesis by simp
  next
    case False
    then have "x \<noteq> e" "x \<in> queued st" "cli_get (crr_net st) nid' = Some c" "nr_res st x = Some nid'"
      using c x e(2) by (auto simp: ad split: if_splits)
    then show ?thesis using h by (simp add: ad round_inv_def)
  qed
qed

lemma add_bound:
  assumes a: "adding Q n st e nid cli0 cli seq rc st'"
  shows "bound_inv Q (Suc n) st'"
proof -
  note ad = added_sel [OF addingD(8) [OF a]] and h = addingD(3) [OF a] and nb = adding_batch [OF a]
  have "unat (cc_round c) \<le> 2 * Suc n \<and> cc_sequence c \<le> seq" if c: "cli_get (crr_net st') k = Some c" for k c
  proof (cases "k = nid")
    case True
    then show ?thesis using c nb(3,9) adding_round(2) [OF a] by (auto simp: ad cli_added_sel(2) split: if_splits)
  next
    case False
    then have "unat (cc_round c) \<le> 2 * n" "cc_sequence c \<le> cn_sequence (crr_net st)"
      using c h by (auto simp: ad bound_inv_def)
    then show ?thesis using nb(6) by simp
  qed
  then show ?thesis using h nb(7,8) by (auto simp: bound_inv_def ad)
qed


lemma add_tag: "adding Q n st e nid cli0 cli seq rc st' \<Longrightarrow> tag st' e = (nid, cc_round cli)"
  by (simp add: tag_def adding_def added_def)

lemma batch_quota:
  assumes a: "adding Q n st e nid cli0 cli seq rc st'" and i: "quota_inv Q st A"
  shows "\<forall>r. (nid, r) \<in> set A \<longrightarrow> r \<le> cc_round cli" "count_list A (nid, cc_round cli) + unat (cc_quantum cli) \<le> Q"
proof -
  note nb = adding_batch [OF a]
  have q0: "cli_quota Q A nid cli0" using i addingD(7) [OF a] by (simp add: quota_inv_def)
  then have r0: "r \<le> cc_round cli0" if "(nid, r) \<in> set A" for r
    using that by (cases "cc_quantum cli0 = 0") (auto simp: cli_quota_def)
  then show "\<forall>r. (nid, r) \<in> set A \<longrightarrow> r \<le> cc_round cli" using nb(2) by (meson order_trans)
  have Q: "unat (cn_quantum (crr_net st)) \<le> Q" using addingD(3) [OF a] by (simp add: bound_inv_def)
  show "count_list A (nid, cc_round cli) + unat (cc_quantum cli) \<le> Q"
    using nb(10)
  proof
    assume "cli = cli0 \<and> seq = cn_sequence (crr_net st)"
    then show ?thesis using q0 nb(4) by (simp add: cli_quota_def)
  next
    assume new: "cc_quantum cli = cn_quantum (crr_net st) \<and> (cc_quantum cli0 = 0 \<or> cc_round cli0 < cc_round cli) \<and>
      cc_sequence cli = seq \<and> (cc_sequence cli = cc_sequence cli0 \<and> seq = cn_sequence (crr_net st) \<or> cn_sequence (crr_net st) < seq)"
    have "(nid, cc_round cli) \<notin> set A"
    proof (cases "cc_quantum cli0 = 0")
      case True
      then show ?thesis using q0 nb(2) by (auto simp: cli_quota_def dest!: spec [of _ "cc_round cli"])
    next
      case False
      then show ?thesis using new r0 by fastforce
    qed
    then show ?thesis using new Q by (simp add: count_list_0_iff)
  qed
qed

lemma add_quota:
  assumes a: "adding Q n st e nid cli0 cli seq rc st'" and i: "quota_inv Q st A"
  shows "quota_inv Q st' (if rc = 0 then tag st' e # A else A)"
proof -
  note ad = added_sel [OF addingD(8) [OF a]] and bq = batch_quota [OF a i] and nb = adding_batch [OF a]
  let ?A = "if rc = 0 then tag st' e # A else A"
  have q: "unat (cc_quantum cli) \<noteq> 0" using nb(4) by (simp add: unat_eq_zero)
  have other: "(k, r) \<in> set ?A \<longleftrightarrow> (k, r) \<in> set A" "count_list ?A (k, r) = count_list A (k, r)" if "k \<noteq> nid" for k r
    using that add_tag [OF a] by auto
  have "cli_quota Q ?A k c" if c: "cli_get (crr_net st') k = Some c" for k c
  proof (cases "k = nid")
    case False
    then have "cli_quota Q A k c" using c i by (simp add: ad quota_inv_def)
    then show ?thesis using other [OF False] by (simp add: cli_quota_def)
  next
    case nid: True
    show ?thesis
    proof (cases "rc = 0")
      case False
      then show ?thesis using c bq nb(4) nid by (simp add: ad cli_quota_def)
    next
      case True
      then have c': "c = cli_added cli" "?A = (nid, cc_round cli) # A" using c nid add_tag [OF a] by (simp_all add: ad)
      show ?thesis
      proof (cases "cc_quantum cli = 1")
        case one: True
        then show ?thesis using bq(1) adding_round(3) [OF a one] unfolding c' nid by (auto simp: cli_quota_def cli_added_sel(1))
      next
        case False
        then have "cc_quantum cli - 1 \<noteq> 0" by simp
        moreover have "unat (cc_quantum cli - 1) = unat (cc_quantum cli) - 1" using unat_minus_one [OF nb(4)] .
        ultimately show ?thesis using bq q False unfolding c' nid by (auto simp: cli_quota_def cli_added_sel)
      qed
    qed
  qed
  moreover have "cli_get (crr_net st') k \<noteq> None" if "(k, r) \<in> set ?A" for k r
    using that i add_tag [OF a] by (auto simp: ad quota_inv_def split: if_splits)
  moreover have "count_list ?A (k, r) \<le> Q" for k r
  proof (cases "rc = 0 \<and> (k, r) = (nid, cc_round cli)")
    case True
    then show ?thesis using bq(2) q add_tag [OF a] by simp
  next
    case False
    then show ?thesis using i add_tag [OF a] by (auto simp: quota_inv_def)
  qed
  ultimately show ?thesis by (simp add: quota_inv_def del: count_list.simps)
qed

lemma add_flow:
  assumes a: "adding Q n st e nid cli0 cli seq rc st'" and h: "heap_inv st" and i: "flow_inv st A D"
  shows "flow_inv st' (if rc = 0 then tag st' e # A else A) D"
proof -
  note ad = added_sel [OF addingD(8) [OF a]]
  have t: "tag st' x = tag st x" if "x \<noteq> e" for x using that by (simp add: tag_def ad)
  have same: "{x \<in> queued st. tag st' x = k} = {x \<in> queued st. tag st x = k}" for k
  proof (intro Collect_cong conj_cong refl)
    fix x assume "x \<in> queued st"
    then have "x \<noteq> e" using addingD(5) [OF a] by blast
    then show "tag st' x = k \<longleftrightarrow> tag st x = k" by (simp add: t)
  qed
  have fin: "finite {x \<in> queued st. tag st x = k}" for k using queued_finite [OF h] by simp
  have le: "count_list D k + card {x \<in> queued st. tag st x = k} \<le> count_list A k" for k
    using i unfolding flow_inv_def by blast
  have "count_list D k + card {x \<in> queued st'. tag st' x = k} \<le> count_list (if rc = 0 then tag st' e # A else A) k" for k
  proof (cases "rc = 0")
    case True
    then have "{x \<in> queued st'. tag st' x = k} = (if tag st' e = k then insert e {x \<in> queued st. tag st x = k} else {x \<in> queued st. tag st x = k})"
      using same [of k] by (auto simp: ad)
    then show ?thesis using True le [of k] fin addingD(5) [OF a] by simp
  next
    case False
    then show ?thesis using le [of k] same by (simp add: ad)
  qed
  then show ?thesis unfolding flow_inv_def by blast
qed

lemma add_ref:
  assumes a: "adding Q n st e nid cli0 cli seq rc st'" and i: "ref_inv st"
  shows "ref_inv st'"
proof -
  note ad = added_sel [OF addingD(8) [OF a]]
  have "distinct (map fst (cn_cli_hash (crr_net st')))" using addingD(8) [OF a] i unfolding added_def ref_inv_def by blast
  moreover have "cc_ref c = 1 + int (card {x. nr_res st x = Some k})" if "cli_get (crr_net st') k = Some c" for k c
    using that i addingD(7) [OF a] adding_batch(5) [OF a] by (auto simp: ad ref_inv_def cli_added_sel split: if_splits)
  ultimately show ?thesis using i by (simp add: ref_inv_def ad)
qed


lemma add_seq_fresh:
  assumes a: "adding Q n st e nid cli0 cli seq rc st'" and i: "seq_inv st"
  shows "cc_sequence cli \<noteq> 0"
    "\<And>k c. k \<noteq> nid \<Longrightarrow> cli_get (crr_net st) k = Some c \<Longrightarrow> cc_sequence c \<noteq> cc_sequence cli"
    "\<And>x. x \<in> queued st \<Longrightarrow> nr_res st x \<noteq> Some nid \<Longrightarrow> cr_sequence (nr_crr st x) \<noteq> cc_sequence cli"
proof -
  note nb = adding_batch [OF a]
  have b: "0 < cn_sequence (crr_net st)" "\<And>k c. cli_get (crr_net st) k = Some c \<Longrightarrow> cc_sequence c \<le> cn_sequence (crr_net st)"
    using addingD(3) [OF a] by (auto simp: bound_inv_def)
  have q: "\<And>x. x \<in> queued st \<Longrightarrow> cr_sequence (nr_crr st x) \<le> cn_sequence (crr_net st)"
    using i unfolding seq_inv_def by blast
  have d: "cc_sequence cli = cc_sequence cli0 \<and> cc_sequence cli \<noteq> 0 \<or> cn_sequence (crr_net st) < cc_sequence cli"
    using nb(10)
  proof
    assume "cli = cli0 \<and> seq = cn_sequence (crr_net st)"
    moreover from this have "cc_sequence cli0 \<noteq> 0" using i addingD(7) [OF a] nb(4) unfolding seq_inv_def by blast
    ultimately show ?thesis by simp
  next
    assume "cc_quantum cli = cn_quantum (crr_net st) \<and> (cc_quantum cli0 = 0 \<or> cc_round cli0 < cc_round cli) \<and>
      cc_sequence cli = seq \<and> (cc_sequence cli = cc_sequence cli0 \<and> seq = cn_sequence (crr_net st) \<or> cn_sequence (crr_net st) < seq)"
    then show ?thesis using b(1) by auto
  qed
  then show "cc_sequence cli \<noteq> 0" by auto
  show "cc_sequence c \<noteq> cc_sequence cli" if "k \<noteq> nid" "cli_get (crr_net st) k = Some c" for k c
    using d
  proof
    assume "cc_sequence cli = cc_sequence cli0 \<and> cc_sequence cli \<noteq> 0"
    then show ?thesis using that i addingD(7) [OF a] unfolding seq_inv_def by metis
  next
    assume "cn_sequence (crr_net st) < cc_sequence cli"
    then show ?thesis using b(2) [OF that(2)] by auto
  qed
  show "cr_sequence (nr_crr st x) \<noteq> cc_sequence cli" if "x \<in> queued st" "nr_res st x \<noteq> Some nid" for x
    using d
  proof
    assume "cc_sequence cli = cc_sequence cli0 \<and> cc_sequence cli \<noteq> 0"
    then show ?thesis using that i addingD(7) [OF a] unfolding seq_inv_def by metis
  next
    assume "cn_sequence (crr_net st) < cc_sequence cli"
    then show ?thesis using q [OF that(1)] by auto
  qed
qed

lemma add_seq:
  assumes a: "adding Q n st e nid cli0 cli seq rc st'" and i: "seq_inv st"
  shows "seq_inv st'"
proof -
  note ad = added_sel [OF addingD(8) [OF a]] and f = add_seq_fresh [OF a i]
  have cn: "cn_sequence (crr_net st) \<le> seq" "cc_sequence cli \<le> seq" using adding_batch [OF a] by simp_all
  have sq: "cc_sequence (if rc = 0 then cli_added cli else cli) = cc_sequence cli" by (simp add: cli_added_sel)
  have c: "cc_sequence c = 0" if "k \<noteq> k'" "cli_get (crr_net st') k = Some c" "cli_get (crr_net st') k' = Some c'" "cc_sequence c = cc_sequence c'" for k k' c c'
  proof (cases "k = nid \<or> k' = nid")
    case True
    then show ?thesis using that f(2) [of k c] f(2) [of k' c'] sq by (auto simp: ad split: if_splits)
  next
    case False
    then show ?thesis using that i unfolding seq_inv_def ad by auto
  qed
  have p: "cc_sequence c \<noteq> 0" if "cli_get (crr_net st') k = Some c" "cc_quantum c \<noteq> 0" for k c
    using that f(1) i sq unfolding seq_inv_def ad by (auto split: if_splits)
  have x0: "cr_sequence (nr_crr st' x) \<noteq> 0 \<and> cr_sequence (nr_crr st' x) \<le> cn_sequence (crr_net st')" if "x \<in> queued st'" for x
    using that f(1) cn i addingD(5) [OF a] unfolding seq_inv_def ad by (auto split: if_splits intro: order_trans)
  have x1: "cc_sequence c \<noteq> cr_sequence (nr_crr st' x)" if x: "x \<in> queued st'" "nr_res st' x \<noteq> Some k" "cli_get (crr_net st') k = Some c" for x k c
  proof (cases "x = e")
    case True
    then show ?thesis using x f(2) [of k c] addingD(6) [OF a] by (auto simp: ad split: if_splits)
  next
    case False
    then have "x \<in> queued st" "nr_res st x \<noteq> Some k" using x by (auto simp: ad split: if_splits)
    moreover from this have "cc_sequence c \<noteq> cr_sequence (nr_crr st x)" if "k \<noteq> nid" "cli_get (crr_net st) k = Some c"
      using that i unfolding seq_inv_def by blast
    ultimately show ?thesis using False f(3) [of x] sq x(3) by (auto simp: ad split: if_splits)
  qed
  have x2: "cr_sequence (nr_crr st' x) \<noteq> cr_sequence (nr_crr st' x')" if x: "x \<in> queued st'" "x' \<in> queued st'" "nr_res st' x \<noteq> nr_res st' x'" for x x'
  proof (cases "x = e \<or> x' = e")
    case True
    then show ?thesis using x f(3) [of x] f(3) [of x'] addingD(6) [OF a] by (auto simp: ad split: if_splits)
  next
    case False
    then show ?thesis using x i unfolding seq_inv_def by (auto simp: ad split: if_splits)
  qed
  show ?thesis unfolding seq_inv_def
  proof (intro conjI allI ballI impI)
    show "cc_sequence c = 0" if "k \<noteq> k'" "cli_get (crr_net st') k = Some c" "cli_get (crr_net st') k' = Some c'" "cc_sequence c = cc_sequence c'" for k k' c c'
      using c that .
  qed (use p x0 x1 x2 in simp_all)
qed

subsection \<open>References and the quantum\<close>

text \<open>A step that changes only the references: one request and the counter of one client.\<close>

definition reref :: "crr_state \<Rightarrow> node \<Rightarrow> u64 option \<Rightarrow> u64 \<Rightarrow> nrs_crrn_client \<Rightarrow> crr_state \<Rightarrow> bool" where
  "reref st e v nid c st' \<longleftrightarrow> cn_binheap (crr_net st') = cn_binheap (crr_net st) \<and> nr_crr st' = nr_crr st \<and> nr_res st' = (nr_res st)(e := v) \<and>
     cn_round (crr_net st') = cn_round (crr_net st) \<and> cn_sequence (crr_net st') = cn_sequence (crr_net st) \<and> cn_quantum (crr_net st') = cn_quantum (crr_net st) \<and>
     (distinct (map fst (cn_cli_hash (crr_net st))) \<longrightarrow> distinct (map fst (cn_cli_hash (crr_net st')))) \<and>
     (\<forall>k. cli_get (crr_net st') k = (if k = nid then Some c else cli_get (crr_net st) k))"

definition cli_new :: nrs_crrn_client where
  "cli_new = \<lparr>cc_round = 0, cc_sequence = 0, cc_ref = 1, cc_quantum = 0, cc_active = 0\<rparr>"

definition cli_or_new :: "crr_state \<Rightarrow> u64 \<Rightarrow> nrs_crrn_client" where
  "cli_or_new st nid = (case cli_get (crr_net st) nid of None \<Rightarrow> cli_new | Some c \<Rightarrow> c)"

lemma res_get_eff:
  assumes "nrs_crrn_res_get alloc id st e nid = (rc, st')"
  shows "st' = st \<or> reref st e (Some nid) nid (nrs_crrn_hop_get (cli_or_new st nid)) st'"
  using assms
  by (auto simp: nrs_crrn_res_get_def reref_def cli_or_new_def cli_findadd_def cli_new_def Let_def cli_set_distinct
      split: option.splits if_splits)

lemma res_put_eff:
  assumes "nrs_crrn_res_put st e = Some st'"
  shows "\<exists>nid c. nr_res st e = Some nid \<and> cli_get (crr_net st) nid = Some c \<and> reref st e None nid (nrs_crrn_hop_put c) st'"
  using assms by (auto simp: nrs_crrn_res_put_def reref_def cli_set_distinct elim!: bind_SomeE)

lemma reref_sel:
  assumes "reref st e v nid c st'"
  shows "heap_inv st' = heap_inv st" "queued st' = queued st" "nr_crr st' = nr_crr st" "nr_res st' = (nr_res st)(e := v)"
    "cn_round (crr_net st') = cn_round (crr_net st)" "cn_sequence (crr_net st') = cn_sequence (crr_net st)"
    "cn_quantum (crr_net st') = cn_quantum (crr_net st)"
    "\<And>k. cli_get (crr_net st') k = (if k = nid then Some c else cli_get (crr_net st) k)"
  using assms by (simp_all add: reref_def heap_inv_def queued_def)

text \<open>The client changed has the scheduling fields it had, or those of a new client.\<close>

definition like :: "crr_state \<Rightarrow> u64 \<Rightarrow> nrs_crrn_client \<Rightarrow> bool" where
  "like st nid c \<longleftrightarrow> (let c0 = cli_or_new st nid in
     cc_round c = cc_round c0 \<and> cc_sequence c = cc_sequence c0 \<and> cc_quantum c = cc_quantum c0)"

lemma like_cases:
  assumes "like st nid c"
  obtains c0 where "cli_get (crr_net st) nid = Some c0" "cc_round c = cc_round c0" "cc_sequence c = cc_sequence c0" "cc_quantum c = cc_quantum c0"
  | "cli_get (crr_net st) nid = None" "cc_round c = 0" "cc_sequence c = 0" "cc_quantum c = 0"
  using assms by (auto simp: like_def cli_or_new_def cli_new_def Let_def split: option.splits)

lemma reref_res:
  assumes r: "reref st e v nid c st'" and v: "v = None \<or> v = Some nid" and e: "e \<notin> queued st" and i: "res_inv st"
  shows "res_inv st'"
  using v e i unfolding res_inv_def by (auto simp: reref_sel [OF r] split: if_splits)

lemma reref_round:
  assumes r: "reref st e v nid c st'" and l: "like st nid c" and e: "e \<notin> queued st" and i: "round_inv st" "res_inv st"
  shows "round_inv st'"
  unfolding round_inv_def
proof (intro ballI conjI allI impI; (elim conjE)?)
  fix x assume "x \<in> queued st'"
  then have x: "x \<in> queued st" "x \<noteq> e" using e by (auto simp: reref_sel [OF r])
  then show "cn_round (crr_net st') \<le> cr_round (nr_crr st' x)" using i(1) by (simp add: reref_sel [OF r] round_inv_def)
  fix k c' assume c': "nr_res st' x = Some k" "cli_get (crr_net st') k = Some c'"
  then have k: "nr_res st x = Some k" using x by (simp add: reref_sel [OF r])
  then obtain c1 where c1: "cli_get (crr_net st) k = Some c1" using i(2) unfolding res_inv_def by blast
  moreover have "cc_round c' = cc_round c1"
    using l c1 c'(2) by (auto elim!: like_cases simp: reref_sel [OF r] split: if_splits)
  ultimately show "cr_round (nr_crr st' x) \<le> cc_round c'" using i(1) x k by (simp add: reref_sel [OF r] round_inv_def)
qed

lemma reref_bound:
  assumes r: "reref st e v nid c st'" and l: "like st nid c" and i: "bound_inv Q n st"
  shows "bound_inv Q (Suc n) st'"
proof -
  have "unat (cc_round c') \<le> 2 * Suc n \<and> cc_sequence c' \<le> cn_sequence (crr_net st)" if "cli_get (crr_net st') k = Some c'" for k c'
  proof -
    have old: "unat (cc_round c0) \<le> 2 * Suc n \<and> cc_sequence c0 \<le> cn_sequence (crr_net st)" if "cli_get (crr_net st) k = Some c0" for k c0
      using i that unfolding bound_inv_def by (metis le_SucI mult_Suc_right add_2_eq_Suc)
    show ?thesis using that l old by (auto elim!: like_cases simp: reref_sel [OF r] split: if_splits)
  qed
  then show ?thesis using i by (auto simp: bound_inv_def reref_sel [OF r])
qed

lemma reref_quota:
  assumes r: "reref st e v nid c st'" and l: "like st nid c" and i: "quota_inv Q st A"
  shows "quota_inv Q st' A"
proof -
  have "cli_quota Q A k c'" if c': "cli_get (crr_net st') k = Some c'" for k c'
  proof (cases "k = nid")
    case True
    then have "c' = c" using c' by (simp add: reref_sel [OF r])
    moreover have "(nid, x) \<notin> set A" if "cli_get (crr_net st) nid = None" for x using that i unfolding quota_inv_def by blast
    ultimately show ?thesis using l i True by (auto elim!: like_cases simp: cli_quota_def quota_inv_def)
  next
    case False
    then show ?thesis using c' i by (simp add: reref_sel [OF r] quota_inv_def)
  qed
  then show ?thesis using i by (auto simp: quota_inv_def reref_sel [OF r])
qed

lemma reref_flow:
  assumes r: "reref st e v nid c st'" and e: "e \<notin> queued st" and i: "flow_inv st A D"
  shows "flow_inv st' A D"
proof -
  have "{x \<in> queued st'. tag st' x = k} = {x \<in> queued st. tag st x = k}" for k
    using e by (auto simp: reref_sel [OF r] tag_def)
  then show ?thesis using i unfolding flow_inv_def by presburger
qed

lemma reref_seq:
  assumes r: "reref st e v nid c st'" and l: "like st nid c" and e: "e \<notin> queued st" and i: "seq_inv st"
  shows "seq_inv st'"
proof -
  have old: "cc_sequence c' = 0 \<and> cc_quantum c' = 0 \<or>
      (\<exists>c0. cli_get (crr_net st) k = Some c0 \<and> cc_sequence c' = cc_sequence c0 \<and> cc_quantum c' = cc_quantum c0)"
    if "cli_get (crr_net st') k = Some c'" for k c'
    using that l by (auto elim!: like_cases simp: reref_sel [OF r] split: if_splits)
  have x: "nr_res st' x = nr_res st x" "cr_sequence (nr_crr st x) \<noteq> 0" if "x \<in> queued st" for x
    using that e i by (auto simp: reref_sel [OF r] seq_inv_def)
  show ?thesis
    unfolding seq_inv_def
  proof (intro conjI allI ballI impI)
    show "cc_sequence c1 = 0" if "k \<noteq> k'" "cli_get (crr_net st') k = Some c1" "cli_get (crr_net st') k' = Some c2" "cc_sequence c1 = cc_sequence c2" for k k' c1 c2
      using old [OF that(2)] old [OF that(3)] that(1,4) i unfolding seq_inv_def by metis
    show "cc_sequence c1 \<noteq> 0" if "cli_get (crr_net st') k = Some c1" "cc_quantum c1 \<noteq> 0" for k c1
      using old [OF that(1)] that(2) i unfolding seq_inv_def by metis
    fix y assume "y \<in> queued st'"
    then have y: "y \<in> queued st" by (simp add: reref_sel [OF r])
    show "cr_sequence (nr_crr st' y) \<noteq> 0" "cr_sequence (nr_crr st' y) \<le> cn_sequence (crr_net st')"
      using y i by (simp_all add: reref_sel [OF r] seq_inv_def)
    show "cc_sequence c1 \<noteq> cr_sequence (nr_crr st' y)" if "nr_res st' y \<noteq> Some k" "cli_get (crr_net st') k = Some c1" for k c1
      using old [OF that(2)] that(1) x [OF y] y i unfolding seq_inv_def reref_sel(3) [OF r] by metis
    show "cr_sequence (nr_crr st' y) \<noteq> cr_sequence (nr_crr st' z)" if "z \<in> queued st'" "nr_res st' y \<noteq> nr_res st' z" for z
      using that x(1) [OF y] x(1) [of z] y i unfolding seq_inv_def reref_sel(2,3) [OF r] by metis
  qed
qed


lemma res_get_like: "like st nid (nrs_crrn_hop_get (cli_or_new st nid))"
  by (simp add: like_def nrs_crrn_hop_get_def)

lemma res_put_like: "cli_get (crr_net st) nid = Some c \<Longrightarrow> like st nid (nrs_crrn_hop_put c)"
  by (simp add: like_def nrs_crrn_hop_put_def cli_or_new_def)

lemma get_ref:
  assumes r: "reref st e (Some nid) nid (nrs_crrn_hop_get (cli_or_new st nid)) st'" and e: "nr_res st e = None" and i: "ref_inv st" "res_inv st"
  shows "ref_inv st'"
proof -
  have fin: "finite {x. nr_res st x = Some k}" for k using i(1) by (auto simp: ref_inv_def intro: rev_finite_subset)
  have set: "{x. nr_res st' x = Some k} = (if k = nid then insert e {x. nr_res st x = Some nid} else {x. nr_res st x = Some k})" for k
    using e by (auto simp: reref_sel [OF r])
  have dom: "{x. nr_res st' x \<noteq> None} = insert e {x. nr_res st x \<noteq> None}" using e by (auto simp: reref_sel [OF r])
  have none: "cli_get (crr_net st) nid = None \<Longrightarrow> {x. nr_res st x = Some nid} = {}" using i(2) unfolding res_inv_def by blast
  have "cc_ref c = 1 + int (card {x. nr_res st' x = Some k})" if "cli_get (crr_net st') k = Some c" for k c
    using that i(1) fin e none unfolding set
    by (cases "cli_get (crr_net st) nid")
       (auto simp: reref_sel [OF r] ref_inv_def nrs_crrn_hop_get_def cli_or_new_def cli_new_def split: if_splits)
  moreover have "distinct (map fst (cn_cli_hash (crr_net st')))" using r i(1) by (simp add: reref_def ref_inv_def)
  ultimately show ?thesis using i(1) unfolding ref_inv_def dom by simp
qed

lemma put_ref:
  assumes r: "reref st e None nid (nrs_crrn_hop_put c) st'" and e: "nr_res st e = Some nid" "cli_get (crr_net st) nid = Some c" and i: "ref_inv st"
  shows "ref_inv st'"
proof -
  have fin: "finite {x. nr_res st x = Some k}" for k using i by (auto simp: ref_inv_def intro: rev_finite_subset)
  have set: "{x. nr_res st' x = Some k} = {x. nr_res st x = Some k} - {e}" for k
    by (auto simp: reref_sel [OF r])
  have dom: "{x. nr_res st' x \<noteq> None} = {x. nr_res st x \<noteq> None} - {e}" by (auto simp: reref_sel [OF r])
  have pos: "0 < card {x. nr_res st x = Some nid}" using fin e(1) by (auto simp: card_gt_0_iff)
  have "cc_ref c' = 1 + int (card {x. nr_res st' x = Some k})" if "cli_get (crr_net st') k = Some c'" for k c'
    using that i fin e pos unfolding set
    by (auto simp: reref_sel [OF r] ref_inv_def nrs_crrn_hop_put_def card_Diff_singleton_if of_nat_diff split: if_splits)
  moreover have "distinct (map fst (cn_cli_hash (crr_net st')))" using r i by (simp add: reref_def ref_inv_def)
  ultimately show ?thesis using i unfolding ref_inv_def dom by simp
qed

lemma crr_inv_reref:
  assumes r: "reref st e v nid c st'" "like st nid c" "v = None \<or> v = Some nid" "e \<notin> queued st" and rf: "ref_inv st'"
    and i: "crr_inv Q n \<lparr>sys_st = st, adds = A, disp = D\<rparr>"
  shows "crr_inv Q (Suc n) \<lparr>sys_st = st', adds = A, disp = D\<rparr>"
proof -
  have j: "heap_inv st" "res_inv st" "round_inv st" "bound_inv Q n st" "quota_inv Q st A" "flow_inv st A D" "seq_inv st"
    using i by (simp_all add: crr_inv_def)
  show ?thesis
    using j(1) reref_res [OF r(1,3,4) j(2)] reref_round [OF r(1,2,4) j(3,2)] reref_bound [OF r(1,2) j(4)]
      reref_quota [OF r(1,2) j(5)] reref_flow [OF r(1,4) j(6)] reref_seq [OF r(1,2,4) j(7)] rf
    by (simp add: crr_inv_def reref_sel(1) [OF r(1)])
qed

lemma bound_inv_Suc: "bound_inv Q n st \<Longrightarrow> bound_inv Q (Suc n) st"
  unfolding bound_inv_def by (intro conjI allI impI; elim conjE) (simp_all, fastforce)

lemma crr_inv_Suc: "crr_inv Q n s \<Longrightarrow> crr_inv Q (Suc n) s"
  using bound_inv_Suc by (simp add: crr_inv_def)

lemma crr_inv_ctl:
  assumes "crr_inv Q n \<lparr>sys_st = st, adds = A, disp = D\<rparr>" "q \<noteq> 0" "unat q \<le> Q"
  shows "crr_inv Q (Suc n) \<lparr>sys_st = st\<lparr>crr_net := (crr_net st)\<lparr>cn_quantum := q\<rparr>\<rparr>, adds = A, disp = D\<rparr>"
proof -
  let ?st = "st\<lparr>crr_net := (crr_net st)\<lparr>cn_quantum := q\<rparr>\<rparr>"
  have q: "queued ?st = queued st" "tag ?st = tag st" by (simp_all add: queued_def tag_def fun_eq_iff)
  have "bound_inv Q (Suc n) st" using assms(1) bound_inv_Suc by (simp add: crr_inv_def)
  then have "bound_inv Q (Suc n) ?st" using assms(2,3) by (simp add: bound_inv_def)
  moreover have "heap_inv ?st = heap_inv st" "res_inv ?st = res_inv st" "round_inv ?st = round_inv st" "quota_inv Q ?st A = quota_inv Q st A"
    "flow_inv ?st A D = flow_inv st A D" "ref_inv ?st = ref_inv st" "seq_inv ?st = seq_inv st"
    by (simp_all add: heap_inv_def res_inv_def round_inv_def quota_inv_def flow_inv_def ref_inv_def seq_inv_def q)
  ultimately show ?thesis using assms(1) by (simp add: crr_inv_def)
qed

lemma crr_inv_taken:
  assumes t: "taken st e st'" "round_after st st'" "e \<in> queued st" and i: "crr_inv Q n \<lparr>sys_st = st, adds = A, disp = D\<rparr>"
  shows "crr_inv Q (Suc n) \<lparr>sys_st = st', adds = A, disp = D\<rparr>" "crr_inv Q (Suc n) \<lparr>sys_st = st', adds = A, disp = tag st e # D\<rparr>"
proof -
  have j: "heap_inv st" "res_inv st" "round_inv st" "bound_inv Q n st" "quota_inv Q st A" "flow_inv st A D" "ref_inv st" "seq_inv st"
    using i by (simp_all add: crr_inv_def)
  show "crr_inv Q (Suc n) \<lparr>sys_st = st', adds = A, disp = D\<rparr>" "crr_inv Q (Suc n) \<lparr>sys_st = st', adds = A, disp = tag st e # D\<rparr>"
    using taken_sel(1) [OF t(1)] taken_res [OF t(1) j(2)] taken_round [OF t(1,2) j(3)] taken_bound [OF t(1,2) j(2-4)] taken_quota [OF t(1) j(5)]
      taken_flow [OF t(1) j(1,6) t(3)] taken_ref [OF t(1) j(7)] taken_seq [OF t(1) j(8)]
    by (simp_all add: crr_inv_def)
qed

lemma crr_inv_added:
  assumes i: "crr_inv Q n \<lparr>sys_st = st, adds = A, disp = D\<rparr>" and n: "2 * n + 4 < 2 ^ 64"
    and e: "e \<notin> queued st" "nr_res st e = Some nid" and ad: "nrs_crrn_req_add ok st e = Some (rc, st')"
  shows "crr_inv Q (Suc n) \<lparr>sys_st = st', adds = (if rc = 0 then tag st' e # A else A), disp = D\<rparr>"
proof -
  have j: "heap_inv st" "res_inv st" "round_inv st" "bound_inv Q n st" "quota_inv Q st A" "flow_inv st A D" "ref_inv st" "seq_inv st"
    using i by (simp_all add: crr_inv_def)
  obtain cli0 where c0: "cli_get (crr_net st) nid = Some cli0" using j(2) e(2) unfolding res_inv_def by blast
  obtain cli seq where nb: "crrn_new_batch (crr_net st) cli0 = (cli, seq)" by fastforce
  have "added st e rc st' nid cli seq" using add_ok [OF j(1) e(2) c0 e(1) nb, of ok] ad by auto
  then have a: "adding Q n st e nid cli0 cli seq rc st'" using j n e c0 nb by (simp add: adding_def)
  show ?thesis
    using added_sel(1) [OF addingD(8) [OF a]] add_res [OF a] add_round [OF a] add_bound [OF a] add_quota [OF a j(5)] add_flow [OF a j(1,6)]
      add_ref [OF a j(7)] add_seq [OF a j(8)]
    by (simp add: crr_inv_def del: count_list.simps)
qed

subsection \<open>All steps\<close>

inductive_cases crr_stepE: "crr_step Q s s'"

lemma crr_inv_start:
  assumes "crr_start Q s"
  shows "crr_inv Q 0 s"
proof -
  obtain st where s: "s = \<lparr>sys_st = st, adds = [], disp = []\<rparr>" and res: "nr_res st = Map.empty" and Q: "8 \<le> Q"
    using assms by (cases s) (auto simp: crr_start_def)
  obtain h idx where net: "crr_net st = \<lparr>cn_binheap = \<lparr>cbh = h, chn_index = idx, cbh_exits = []\<rparr>, cn_cli_hash = [],
      cn_round = 0, cn_sequence = 1, cn_quantum = OBD_MAX_RIF_DEFAULT\<rparr>" and h: "shape h" "cbh_nelements h = 0"
  proof -
    obtain al idx where st: "nrs_crrn_start True True al True idx = Some (0, Some (crr_net st))" using assms s by (auto simp: crr_start_def)
    obtain rc h' where p: "cbh_preallocate al 0 4096 cbh_new = Some (rc, h')" "shape h'" "cbh_nelements h' = 0"
      using preallocate_ok [OF shape_new] by blast
    then show thesis using st that [of h' idx] destroy_ok [OF p(2)]
      by (auto simp: nrs_crrn_start_def cfs_binheap_create_def ENOMEM_def split: if_splits)
  qed
  have q: "queued st = {}" using h by (simp add: queued_def net binheap_elems_def)
  have "heap_inv st"
    using h by (auto simp: heap_inv_def net binheap_ok_def rep_def heap_list_def intro!: exI [of _ "[]"])
  then show ?thesis
    using q Q res unfolding s crr_inv_def
    by (simp add: res_inv_def round_inv_def bound_inv_def quota_inv_def flow_inv_def ref_inv_def seq_inv_def net cli_get_def OBD_MAX_RIF_DEFAULT_def)
qed

lemma crr_inv_get:
  assumes i: "crr_inv Q n \<lparr>sys_st = st, adds = A, disp = D\<rparr>" and n: "2 * n + 4 < 2 ^ 64" and g: "nrs_crrn_req_get st False = Some (r, st')"
  shows "case r of None \<Rightarrow> st' = st | Some e \<Rightarrow> e \<in> queued st \<and> (\<forall>x \<in> queued st. crr_rank (nr_crr st) e \<le> crr_rank (nr_crr st) x) \<and>
    taken st e st' \<and> round_after st st'"
proof -
  have "unat (cn_round (crr_net st)) + 1 < 2 ^ 64" using i n by (simp add: crr_inv_def bound_inv_def)
  then show ?thesis using req_get_ok [of st] i g by (auto simp: crr_inv_def split: option.splits)
qed

lemma crr_inv_del:
  assumes i: "crr_inv Q n \<lparr>sys_st = st, adds = A, disp = D\<rparr>" and n: "2 * n + 4 < 2 ^ 64"
    and d: "e \<in> queued st" "nrs_crrn_req_del st e = Some st'"
  shows "taken st e st' \<and> round_after st st'"
proof -
  have "unat (cn_round (crr_net st)) + 1 < 2 ^ 64" using i n by (simp add: crr_inv_def bound_inv_def)
  then show ?thesis using req_del_ok [of st e] i d by (auto simp: crr_inv_def)
qed

lemma crr_inv_step:
  assumes "crr_step Q s s'" "crr_inv Q n s" "2 * n + 4 < 2 ^ 64"
  shows "crr_inv Q (Suc n) s'"
  using assms(1)
proof cases
  case (res_get st e alloc nid rc st' A D)
  have i: "crr_inv Q n \<lparr>sys_st = st, adds = A, disp = D\<rparr>" using assms(2) res_get by simp
  have e: "e \<notin> queued st" using i res_get by (auto simp: crr_inv_def res_inv_def)
  from res_get_eff [OF res_get(4)] show ?thesis
  proof
    assume "st' = st"
    then show ?thesis using crr_inv_Suc [OF i] res_get by simp
  next
    assume r: "reref st e (Some nid) nid (nrs_crrn_hop_get (cli_or_new st nid)) st'"
    have "ref_inv st'" using get_ref [OF r res_get(3)] i by (simp add: crr_inv_def)
    then show ?thesis using crr_inv_reref [OF r res_get_like _ e _ i] res_get by simp
  qed
next
  case (res_put e st st' A D)
  have i: "crr_inv Q n \<lparr>sys_st = st, adds = A, disp = D\<rparr>" using assms(2) res_put by simp
  obtain nid c where r: "nr_res st e = Some nid" "cli_get (crr_net st) nid = Some c" "reref st e None nid (nrs_crrn_hop_put c) st'"
    using res_put_eff [OF res_put(4)] by blast
  have "ref_inv st'" using put_ref [OF r(3,1,2)] i by (simp add: crr_inv_def)
  then show ?thesis using crr_inv_reref [OF r(3) res_put_like [OF r(2)] _ res_put(3) _ i] res_put by simp
next
  case (req_add e st ok rc st' A D)
  have i: "crr_inv Q n \<lparr>sys_st = st, adds = A, disp = D\<rparr>" using assms(2) req_add by simp
  obtain nid where "nr_res st e = Some nid" using req_add by blast
  then show ?thesis using crr_inv_added [OF i assms(3) req_add(3) _ req_add(5)] req_add(2) by simp
next
  case (req_get st r st' A D)
  have i: "crr_inv Q n \<lparr>sys_st = st, adds = A, disp = D\<rparr>" using assms(2) req_get by simp
  show ?thesis
    using crr_inv_get [OF i assms(3) req_get(3)] crr_inv_taken(2) [OF _ _ _ i] crr_inv_Suc [OF i] req_get(2) by (cases r) auto
next
  case (req_del e st st' A D)
  have i: "crr_inv Q n \<lparr>sys_st = st, adds = A, disp = D\<rparr>" using assms(2) req_del by simp
  show ?thesis using crr_inv_del [OF i assms(3) req_del(3,4)] crr_inv_taken(1) [OF _ _ req_del(3) i] req_del(2) by auto
next
  case (ctl st q rc q' net' A D)
  then show ?thesis using crr_inv_ctl [of Q n st A D q] assms(2) by (auto split: if_splits)
qed

lemma crr_inv_run: "crr_run Q n s \<Longrightarrow> n < 2 ^ 62 \<Longrightarrow> crr_inv Q n s"
proof (induction rule: crr_run.induct)
  case (start s)
  then show ?case by (simp add: crr_inv_start)
next
  case (step n s s')
  then show ?case using crr_inv_step [of Q s s' n] by simp
qed


section \<open>Properties\<close>

definition crr_batch :: "crr_state \<Rightarrow> u64 \<Rightarrow> u64 \<Rightarrow> node set" where
  "crr_batch st r q = {e \<in> queued st. cr_round (nr_crr st e) = r \<and> cr_sequence (nr_crr st e) = q}"

text \<open>
  C25. A batch of requests is small and belongs to one client: in every state of a scheduler whose
  quantum never exceeded \<open>Q\<close>, at most \<open>Q\<close> queued requests share a round and a sequence number,
  and they all come from the same client.
\<close>

theorem crrn_batch_bound:
  assumes "crr_run Q n s" "n < 2 ^ 62"
  shows "card (crr_batch (sys_st s) r q) \<le> Q \<and> (\<forall>e \<in> crr_batch (sys_st s) r q. \<forall>e' \<in> crr_batch (sys_st s) r q. nr_res (sys_st s) e = nr_res (sys_st s) e')"
proof -
  let ?st = "sys_st s"
  have i: "heap_inv ?st" "quota_inv Q ?st (adds s)" "flow_inv ?st (adds s) (disp s)" "seq_inv ?st"
    using crr_inv_run [OF assms(1,2)] by (simp_all add: crr_inv_def)
  have sq: "cr_sequence (nr_crr ?st e) \<noteq> cr_sequence (nr_crr ?st e')" if "e \<in> queued ?st" "e' \<in> queued ?st" "nr_res ?st e \<noteq> nr_res ?st e'" for e e'
    using that i(4) unfolding seq_inv_def by blast
  have same: "nr_res ?st e = nr_res ?st e'" if "e \<in> crr_batch (sys_st s) r q" "e' \<in> crr_batch (sys_st s) r q" for e e'
    using that sq [of e e'] by (auto simp: crr_batch_def)
  have "card (crr_batch (sys_st s) r q) \<le> Q"
  proof (cases "crr_batch (sys_st s) r q = {}")
    case False
    then obtain e where e: "e \<in> crr_batch (sys_st s) r q" by blast
    have "crr_batch (sys_st s) r q \<subseteq> {x \<in> queued ?st. tag ?st x = tag ?st e}"
    proof
      fix x assume x: "x \<in> crr_batch (sys_st s) r q"
      show "x \<in> {x \<in> queued ?st. tag ?st x = tag ?st e}" using x e same [OF x e] by (simp add: crr_batch_def tag_def)
    qed
    then have "card (crr_batch (sys_st s) r q) \<le> card {x \<in> queued ?st. tag ?st x = tag ?st e}"
      using queued_finite [OF i(1)] by (intro card_mono) auto
    moreover have "count_list (disp s) k + card {x \<in> queued ?st. tag ?st x = k} \<le> count_list (adds s) k" "count_list (adds s) k \<le> Q" for k
      using i(2,3) unfolding flow_inv_def quota_inv_def by blast+
    ultimately show ?thesis by (meson add_leD2 le_trans)
  qed simp
  then show ?thesis using same by blast
qed

text \<open>
  C26. The assertions of the scheduler never fail: in every reachable state a request can be
  polled, every queued request can be deleted, and a request that holds its client and is not
  queued can be added and can drop the client.
\<close>

theorem crrn_no_assert:
  assumes "crr_run Q n s" "n < 2 ^ 62"
  shows "nrs_crrn_req_get (sys_st s) peek \<noteq> None \<and>
    (if e \<in> queued (sys_st s) then nrs_crrn_req_del (sys_st s) e \<noteq> None
     else nr_res (sys_st s) e \<noteq> None \<longrightarrow> nrs_crrn_req_add ok (sys_st s) e \<noteq> None \<and> nrs_crrn_res_put (sys_st s) e \<noteq> None)"
proof -
  let ?st = "sys_st s"
  have i: "heap_inv ?st" "res_inv ?st" "round_inv ?st" "bound_inv Q n ?st"
    using crr_inv_run [OF assms(1,2)] by (simp_all add: crr_inv_def)
  have b: "unat (cn_round (crr_net ?st)) + 1 < 2 ^ 64" using i(4) assms(2) by (simp add: bound_inv_def)
  have "nrs_crrn_req_get ?st True \<noteq> None"
    using bh.top_None [of "crr_rank (nr_crr ?st)" "cn_binheap (crr_net ?st)"] bh.top_min [of "crr_rank (nr_crr ?st)" "cn_binheap (crr_net ?st)"] i(1)
    by (cases "queued ?st = {}") (auto simp: heap_inv_def queued_def nrs_crrn_req_get_def)
  moreover have "nrs_crrn_req_get ?st False \<noteq> None" using req_get_ok [OF i(1-3) b] by auto
  moreover have "nrs_crrn_req_del ?st e \<noteq> None" if "e \<in> queued ?st" using req_del_ok [OF i(1-3) b that] by auto
  moreover have "nrs_crrn_req_add ok ?st e \<noteq> None \<and> nrs_crrn_res_put ?st e \<noteq> None"
    if eq: "e \<notin> queued ?st" and er: "nr_res ?st e = Some nid" for nid
  proof -
    obtain c where c: "cli_get (crr_net ?st) nid = Some c" using i(2) er unfolding res_inv_def by blast
    obtain cli seq where "crrn_new_batch (crr_net ?st) c = (cli, seq)" by fastforce
    then show ?thesis using add_ok [OF i(1) er c eq, of _ _ ok] er c by (auto simp: nrs_crrn_res_put_def)
  qed
  ultimately show ?thesis by (cases peek) auto
qed

lemma hash_destroy_ok: "(\<And>c. c \<in> set cs \<Longrightarrow> cc_ref (snd c) = 1) \<Longrightarrow> crrn_hash_destroy cs = Some ()"
  by (induction cs) (simp_all add: nrs_crrn_hop_exit_def nrs_crrn_hop_put_def LASSERT_def)

text \<open>
  When the last request has dropped its client, the instance can be stopped: no request is
  queued and the reference counts of all clients are those of the hash, so no assertion fails.
\<close>

theorem crrn_stop_ok:
  assumes "crr_run Q n s" "n < 2 ^ 62" "nr_res (sys_st s) = Map.empty"
  shows "nrs_crrn_stop (crr_net (sys_st s)) = Some ()"
proof -
  let ?st = "sys_st s" let ?net = "crr_net ?st"
  have i: "heap_inv ?st" "res_inv ?st" "ref_inv ?st" using crr_inv_run [OF assms(1,2)] by (simp_all add: crr_inv_def)
  have q: "queued ?st = {}" using i(2) assms(3) by (auto simp: res_inv_def)
  obtain xs where xs: "rep (cn_binheap ?net) xs" using i(1) by (auto simp: heap_inv_def binheap_ok_def)
  have "xs = []" using q rep_elems [OF xs] by (simp add: queued_def)
  then have "cfs_binheap_is_empty (cbh (cn_binheap ?net))" using xs by (simp add: rep_def cfs_binheap_is_empty_def)
  moreover obtain bs where "cfs_binheap_destroy (cbh (cn_binheap ?net)) = Some bs" using destroy_ok [of "cbh (cn_binheap ?net)"] xs by (auto simp: rep_def)
  moreover have "cc_ref (snd c) = 1" if "c \<in> set (cn_cli_hash ?net)" for c
  proof -
    have "cli_get ?net (fst c) = Some (snd c)" using that i(3) by (simp add: cli_get_def ref_inv_def)
    then show ?thesis using i(3) assms(3) by (simp add: ref_inv_def)
  qed
  then have "crrn_hash_destroy (cn_cli_hash ?net) = Some ()" by (rule hash_destroy_ok)
  ultimately show ?thesis by (simp add: nrs_crrn_stop_def LASSERT_def)
qed


subsection \<open>Fairness\<close>

text \<open>The steps of a run during which the request \<open>e\<close> stays queued.\<close>

inductive crr_wait :: "nat \<Rightarrow> node \<Rightarrow> crr_sys \<Rightarrow> nat \<Rightarrow> crr_sys \<Rightarrow> bool" for Q e s where
  wait_start: "e \<in> queued (sys_st s) \<Longrightarrow> crr_wait Q e s 0 s"
| wait_step: "crr_wait Q e s m s1 \<Longrightarrow> crr_step Q s1 s2 \<Longrightarrow> e \<in> queued (sys_st s2) \<Longrightarrow> crr_wait Q e s (Suc m) s2"

lemma wait_step_inv:
  assumes "crr_step Q s1 s2" "crr_inv Q n s1" "2 * n + 4 < 2 ^ 64" "e \<in> queued (sys_st s1)" "e \<in> queued (sys_st s2)"
  shows "cr_round (nr_crr (sys_st s2) e) = cr_round (nr_crr (sys_st s1) e) \<and>
    cn_round (crr_net (sys_st s1)) \<le> cn_round (crr_net (sys_st s2)) \<and>
    (disp s2 = disp s1 \<or> (\<exists>k. disp s2 = k # disp s1 \<and> cn_round (crr_net (sys_st s1)) \<le> snd k \<and> snd k \<le> cr_round (nr_crr (sys_st s1) e)))"
  using assms(1)
proof cases
  case (res_get st x alloc nid rc st' A D)
  then show ?thesis using res_get_eff [OF res_get(4)] reref_sel [of st x _ nid _ st'] by auto
next
  case (res_put x st st' A D)
  obtain nid c where "reref st x None nid (nrs_crrn_hop_put c) st'" using res_put_eff [OF res_put(4)] by blast
  then show ?thesis using res_put reref_sel [of st x _ nid _ st'] by simp
next
  case (req_add x st ok rc st' A D)
  have i: "heap_inv st" "res_inv st" using assms(2) req_add by (simp_all add: crr_inv_def)
  obtain nid where nid: "nr_res st x = Some nid" using req_add by blast
  obtain c where c: "cli_get (crr_net st) nid = Some c" using i(2) nid unfolding res_inv_def by blast
  obtain cli seq where nb: "crrn_new_batch (crr_net st) c = (cli, seq)" by fastforce
  have "added st x rc st' nid cli seq" using add_ok [OF i(1) nid c req_add(3) nb, of ok] req_add by auto
  moreover have "x \<noteq> e" using req_add assms(4) by auto
  ultimately show ?thesis using req_add added_sel [of st x rc st' nid cli seq] by simp
next
  case (req_get st r st' A D)
  have i: "crr_inv Q n \<lparr>sys_st = st, adds = A, disp = D\<rparr>" using assms(2) req_get by simp
  show ?thesis
  proof (cases r)
    case None
    then show ?thesis using crr_inv_get [OF i assms(3) req_get(3)] req_get by simp
  next
    case (Some d)
    then have d: "d \<in> queued st" "\<forall>x \<in> queued st. crr_rank (nr_crr st) d \<le> crr_rank (nr_crr st) x" "taken st d st'" "round_after st st'"
      using crr_inv_get [OF i assms(3) req_get(3)] by simp_all
    have "cr_round (nr_crr st d) \<le> cr_round (nr_crr st e)" using d(2) assms(4) req_get(1) crr_rank_le by simp
    moreover have "cn_round (crr_net st) \<le> cr_round (nr_crr st d)" using i d(1) by (simp add: crr_inv_def round_inv_def)
    ultimately show ?thesis using req_get Some taken_sel [OF d(3)] d(4) by (simp add: tag_def round_after_def)
  qed
next
  case (req_del x st st' A D)
  have i: "crr_inv Q n \<lparr>sys_st = st, adds = A, disp = D\<rparr>" using assms(2) req_del by simp
  show ?thesis using crr_inv_del [OF i assms(3) req_del(3,4)] req_del taken_sel [of st x st'] by (simp add: round_after_def)
next
  case (ctl st q rc q' net' A D)
  then show ?thesis by (auto split: if_splits)
qed

lemma wait_inv:
  assumes "crr_wait Q e s m s'" "crr_run Q n s" "n + m < 2 ^ 62"
  shows "crr_run Q (n + m) s' \<and> e \<in> queued (sys_st s') \<and> cr_round (nr_crr (sys_st s') e) = cr_round (nr_crr (sys_st s) e) \<and>
    cn_round (crr_net (sys_st s)) \<le> cn_round (crr_net (sys_st s')) \<and>
    (\<exists>new. disp s' = new @ disp s \<and> (\<forall>k \<in> set new. cn_round (crr_net (sys_st s)) \<le> snd k \<and> snd k \<le> cr_round (nr_crr (sys_st s) e)))"
  using assms(1,3)
proof (induction rule: crr_wait.induct)
  case wait_start
  then show ?case using assms(2) by simp
next
  case (wait_step m s1 s2)
  then have r: "crr_run Q (n + m) s1" "e \<in> queued (sys_st s1)" and eq: "cr_round (nr_crr (sys_st s1) e) = cr_round (nr_crr (sys_st s) e)"
    and le: "cn_round (crr_net (sys_st s)) \<le> cn_round (crr_net (sys_st s1))" by simp_all
  obtain new where new: "disp s1 = new @ disp s" "\<forall>k \<in> set new. cn_round (crr_net (sys_st s)) \<le> snd k \<and> snd k \<le> cr_round (nr_crr (sys_st s) e)"
    using wait_step by auto
  have inv: "crr_inv Q (n + m) s1" using crr_inv_run [OF r(1)] wait_step.prems by simp
  have st: "cr_round (nr_crr (sys_st s2) e) = cr_round (nr_crr (sys_st s1) e)" "cn_round (crr_net (sys_st s1)) \<le> cn_round (crr_net (sys_st s2))"
    "disp s2 = disp s1 \<or> (\<exists>k. disp s2 = k # disp s1 \<and> cn_round (crr_net (sys_st s1)) \<le> snd k \<and> snd k \<le> cr_round (nr_crr (sys_st s1) e))"
    using wait_step_inv [OF wait_step.hyps(2) inv _ r(2) wait_step.hyps(3)] wait_step.prems by simp_all
  have "\<exists>new. disp s2 = new @ disp s \<and> (\<forall>k \<in> set new. cn_round (crr_net (sys_st s)) \<le> snd k \<and> snd k \<le> cr_round (nr_crr (sys_st s) e))"
    using st(3)
  proof
    assume "\<exists>k. disp s2 = k # disp s1 \<and> cn_round (crr_net (sys_st s1)) \<le> snd k \<and> snd k \<le> cr_round (nr_crr (sys_st s1) e)"
    then obtain k where "disp s2 = (k # new) @ disp s" "cn_round (crr_net (sys_st s)) \<le> snd k" "snd k \<le> cr_round (nr_crr (sys_st s) e)"
      using new(1) le eq by auto
    then show ?thesis using new(2) by (metis set_ConsD)
  qed (use new in auto)
  moreover have "crr_run Q (n + Suc m) s2" using crr_run.step [OF r(1) wait_step.hyps(2)] by simp
  ultimately show ?case using wait_step.hyps(3) st(1,2) eq le by (auto intro: order_trans)
qed


lemma card_word_interval: "finite {a..b :: 'a::len word}" "card {a..b} \<le> unat b - unat a + 1"
proof -
  have inj: "inj_on unat {a..b}" by (simp add: inj_on_def word_unat_eq_iff)
  have sub: "unat ` {a..b} \<subseteq> {unat a..unat b}" by (auto simp: word_le_nat_alt)
  then show "finite {a..b}" using inj by (metis finite_atLeastAtMost finite_imageD finite_subset)
  have "card {a..b} = card (unat ` {a..b})" by (simp add: card_image inj)
  also have "\<dots> \<le> card {unat a..unat b}" using sub by (intro card_mono) simp_all
  finally show "card {a..b} \<le> unat b - unat a + 1" by simp
qed

text \<open>
  C10. Bounded waiting: while a request is queued, at most \<open>Q\<close> requests per client and round are
  dispatched before it, for the rounds from the current one of the instance to its own. With
  more dispatches than that it has been served (or deleted), whatever requests arrive meanwhile.
\<close>

theorem crrn_fair:
  assumes "crr_run Q n s" "crr_wait Q e s m s'" "n + m < 2 ^ 62"
  shows "length (disp s') - length (disp s) \<le>
    length (cn_cli_hash (crr_net (sys_st s'))) *
    (unat (cr_round (nr_crr (sys_st s) e)) - unat (cn_round (crr_net (sys_st s))) + 1) * Q"
proof -
  let ?R = "{cn_round (crr_net (sys_st s))..cr_round (nr_crr (sys_st s) e)}"
  let ?C = "set (map fst (cn_cli_hash (crr_net (sys_st s'))))"
  obtain new where new: "disp s' = new @ disp s" "\<forall>k \<in> set new. snd k \<in> ?R" and run: "crr_run Q (n + m) s'"
    using wait_inv [OF assms(2,1,3)] by auto
  have i: "quota_inv Q (sys_st s') (adds s')" "flow_inv (sys_st s') (adds s') (disp s')"
    using crr_inv_run [OF run assms(3)] by (simp_all add: crr_inv_def)
  have "count_list (disp s') k + card {x \<in> queued (sys_st s'). tag (sys_st s') x = k} \<le> count_list (adds s') k" for k
    using i(2) unfolding flow_inv_def by blast
  then have le: "count_list (disp s') k \<le> count_list (adds s') k" "count_list (adds s') k \<le> Q" for k
    using i(1) unfolding quota_inv_def by (blast intro: add_leD1)+
  have cnt: "count_list new k \<le> Q" for k using le [of k] by (simp add: new(1))
  have "fst k \<in> ?C" if "k \<in> set new" for k
  proof -
    have "count_list (disp s') k \<noteq> 0" using that by (simp add: new(1) count_list_0_iff)
    then have "k \<in> set (adds s')" using le(1) [of k] by (metis count_list_0_iff le_zero_eq)
    then have "cli_get (crr_net (sys_st s')) (fst k) \<noteq> None" using i(1) unfolding quota_inv_def by (metis prod.collapse)
    then show ?thesis by (simp add: cli_get_def map_of_eq_None_iff)
  qed
  then have sub: "set new \<subseteq> ?C \<times> ?R" using new(2) by (auto simp: mem_Times_iff)
  have fin: "finite (?C \<times> ?R)" using card_word_interval(1) by blast
  have "length new = sum (count_list new) (?C \<times> ?R)" using sum_count_set [OF sub fin] by simp
  also have "\<dots> \<le> card (?C \<times> ?R) * Q" using sum_bounded_above [of "?C \<times> ?R" "count_list new" Q] cnt by simp
  finally have l: "length new \<le> card (?C \<times> ?R) * Q" .
  have "card (?C \<times> ?R) \<le> length (cn_cli_hash (crr_net (sys_st s'))) * (unat (cr_round (nr_crr (sys_st s) e)) - unat (cn_round (crr_net (sys_st s))) + 1)"
    unfolding card_cartesian_product
    by (intro mult_le_mono card_word_interval(2)) (metis card_length length_map)
  then show ?thesis using new(1) order_trans [OF l mult_le_mono1] by simp
qed


section \<open>Concrete runs\<close>

lemma binheap_insert_succeeds:
  assumes "binheap_ok rank s" "e \<notin> binheap_elems s" "card (binheap_elems s) < 134480384"
  shows "\<exists>s'. cfs_binheap_insert (rank_ops rank) (\<lambda>_. True) s e = Some (0, s')"
proof -
  obtain xs where xs: "rep s xs" using assms(1) by (auto simp: binheap_ok_def)
  have "length xs < 134480384" using assms(3) rep_elems [OF xs] rep_distinct [OF xs] by (simp add: distinct_card)
  then show ?thesis using insert_refines [OF xs, of e "rank_ops rank" "\<lambda>_. True"] assms(2) rep_elems [OF xs] by (auto simp: rank_ops_def)
qed

lemma ex_start: "\<exists>s. crr_run 8 0 s \<and> queued (sys_st s) = {} \<and> nr_res (sys_st s) = Map.empty"
proof -
  obtain h where h: "cfs_binheap_create True (\<lambda>_ _. True) 4096 = Some (Some h)" "rep (cbh_init h) []" using create_ok [of 4096] by auto
  let ?net = "\<lparr>cn_binheap = \<lparr>cbh = h, chn_index = (\<lambda>_. 0), cbh_exits = []\<rparr>, cn_cli_hash = [],
      cn_round = 0, cn_sequence = 1, cn_quantum = OBD_MAX_RIF_DEFAULT\<rparr>"
  let ?s = "\<lparr>sys_st = \<lparr>crr_net = ?net, nr_crr = (\<lambda>_. \<lparr>cr_round = 0, cr_sequence = 0\<rparr>), nr_res = Map.empty\<rparr>, adds = [], disp = []\<rparr>"
  have "nrs_crrn_start True True (\<lambda>_ _. True) True (\<lambda>_. 0) = Some (0, Some ?net)" using h(1) by (simp add: nrs_crrn_start_def)
  then have "crr_start 8 ?s" unfolding crr_start_def by auto
  moreover have "queued (sys_st ?s) = {}" using rep_elems [OF h(2)] by (simp add: queued_def cbh_init_def)
  ultimately show ?thesis using crr_run.start by fastforce
qed

lemma run_add:
  assumes "crr_run Q n s" "n + 2 < 2 ^ 62" "nr_res (sys_st s) e = None" "card (queued (sys_st s)) < 134480384"
  shows "\<exists>s'. crr_run Q (n + 2) s' \<and> queued (sys_st s') = insert e (queued (sys_st s)) \<and> nr_res (sys_st s') = (nr_res (sys_st s))(e \<mapsto> 7)"
proof -
  obtain st A D where s: "s = \<lparr>sys_st = st, adds = A, disp = D\<rparr>" by (cases s) auto
  obtain rc st1 where g: "nrs_crrn_res_get True id st e 7 = (rc, st1)" by fastforce
  then have r: "reref st e (Some 7) 7 (nrs_crrn_hop_get (cli_or_new st 7)) st1"
    by (auto simp: nrs_crrn_res_get_def reref_def cli_or_new_def cli_findadd_def cli_new_def Let_def cli_set_distinct split: option.splits)
  have run1: "crr_run Q (Suc n) \<lparr>sys_st = st1, adds = A, disp = D\<rparr>"
    using crr_run.step [OF assms(1)] crr_step.res_get [OF _ g, of Q A D] assms(3) s by simp
  have i: "heap_inv st1" "res_inv st1" using crr_inv_run [OF run1] assms(2) by (simp_all add: crr_inv_def)
  have e: "nr_res st1 e = Some 7" "e \<notin> queued st1" "queued st1 = queued st"
    using reref_sel [OF r] crr_inv_run [OF assms(1)] assms(2,3) s by (auto simp: crr_inv_def res_inv_def)
  obtain c where c: "cli_get (crr_net st1) 7 = Some c" using i(2) e(1) unfolding res_inv_def by blast
  obtain cli seq where nb: "crrn_new_batch (crr_net st1) c = (cli, seq)" by fastforce
  obtain rc' st2 where a: "nrs_crrn_req_add (\<lambda>_. True) st1 e = Some (rc', st2)" "added st1 e rc' st2 7 cli seq"
    using add_ok [OF i(1) e(1) c e(2) nb] by blast
  let ?rq = "(nr_crr st1)(e := \<lparr>cr_round = cc_round cli, cr_sequence = cc_sequence cli\<rparr>)"
  have "binheap_ok (crr_rank ?rq) (cn_binheap (crr_net st1))"
    using bh.ok_rank [of "crr_rank (nr_crr st1)" "cn_binheap (crr_net st1)" "crr_rank ?rq"] i(1) e(2)
    by (metis crr_rank_def fun_upd_apply heap_inv_def queued_def)
  from binheap_insert_succeeds [OF this, of e]
  obtain hp where "cfs_binheap_insert (nrs_crrn_heap_ops ?rq) (\<lambda>_. True) (cn_binheap (crr_net st1)) e = Some (0, hp)"
    using e assms(4) s by (auto simp: queued_def heap_ops_rank)
  then have "rc' = 0" using a(1) e(1) c nb by (auto simp: nrs_crrn_req_add_def Let_def)
  then have "crr_run Q (Suc (Suc n)) \<lparr>sys_st = st2, adds = tag st2 e # A, disp = D\<rparr>"
    using crr_run.step [OF run1 crr_step.req_add [OF e(2) _ a(1)]] e(1) by simp
  then show ?thesis using added_sel [OF a(2)] \<open>rc' = 0\<close> e(3) reref_sel [OF r] s
    by (intro exI [of _ "\<lparr>sys_st = st2, adds = tag st2 e # A, disp = D\<rparr>"]) simp
qed

lemma ex_two: "\<exists>s. crr_run 8 (0 + 2 + 2) s \<and> queued (sys_st s) = {11, 12} \<and> nr_res (sys_st s) = [11 \<mapsto> 7, 12 \<mapsto> 7]"
proof -
  obtain s0 where s0: "crr_run 8 0 s0" "queued (sys_st s0) = {}" "nr_res (sys_st s0) = Map.empty" using ex_start by blast
  obtain s1 where s1: "crr_run 8 (0 + 2) s1" "queued (sys_st s1) = {11}" "nr_res (sys_st s1) = [11 \<mapsto> 7]"
    using run_add [OF s0(1), of 11] s0(2,3) by auto
  show ?thesis using run_add [OF s1(1), of 12] s1(2,3) by (auto simp: insert_commute)
qed

lemma ex_wait: "\<exists>s e s'. crr_run 8 (0 + 2 + 2) s \<and> crr_wait 8 e s 1 s' \<and> length (disp s') = Suc (length (disp s))"
proof -
  obtain s where s: "crr_run 8 (0 + 2 + 2) s" "queued (sys_st s) = {11, 12}" using ex_two by blast
  obtain st A D where eq: "s = \<lparr>sys_st = st, adds = A, disp = D\<rparr>" by (cases s) auto
  have i: "heap_inv st" "res_inv st" "round_inv st" "bound_inv 8 (0 + 2 + 2) st"
    using crr_inv_run [OF s(1)] eq by (simp_all add: crr_inv_def)
  have b: "unat (cn_round (crr_net st)) + 1 < 2 ^ 64" using i(4) unfolding bound_inv_def by simp
  obtain d st' where g: "nrs_crrn_req_get st False = Some (Some d, st')" "d \<in> queued st" "queued st' = queued st - {d}"
    using req_get_ok [OF i(1-3) b] s(2) eq by (auto simp: taken_def split: option.splits)
  define e :: node where "e = (if d = 11 then 12 else 11)"
  have e: "e \<in> queued st" "e \<in> queued st'" using g(2,3) s(2) eq by (auto simp: e_def)
  have "crr_wait 8 e s (Suc 0) \<lparr>sys_st = st', adds = A, disp = tag st d # D\<rparr>"
    using crr_wait.wait_step [OF crr_wait.wait_start, of e s 8] crr_step.req_get [OF g(1), of 8 A D] e eq by simp
  then show ?thesis using s(1) eq by fastforce
qed

theorem crrn_fair_witness:
  "\<exists>s e s'. crr_run 8 (0 + 2 + 2) s \<and> crr_wait 8 e s 1 s' \<and> length (disp s') = Suc (length (disp s)) \<and>
     Suc 0 \<le> length (cn_cli_hash (crr_net (sys_st s'))) *
       (unat (cr_round (nr_crr (sys_st s) e)) - unat (cn_round (crr_net (sys_st s))) + 1) * 8"
proof -
  obtain s e s' where w: "crr_run 8 (0 + 2 + 2) s" "crr_wait 8 e s 1 s'" "length (disp s') = Suc (length (disp s))"
    using ex_wait by blast
  show ?thesis using crrn_fair [OF w(1,2)] w by fastforce
qed

theorem crrn_batch_bound_witness:
  "\<exists>s. crr_run 8 (0 + 2 + 2) s \<and> 11 \<in> crr_batch (sys_st s) (cr_round (nr_crr (sys_st s) 11)) (cr_sequence (nr_crr (sys_st s) 11)) \<and>
     card (crr_batch (sys_st s) (cr_round (nr_crr (sys_st s) 11)) (cr_sequence (nr_crr (sys_st s) 11))) \<le> 8"
proof -
  obtain s where s: "crr_run 8 (0 + 2 + 2) s" "queued (sys_st s) = {11, 12}" using ex_two by blast
  have "11 \<in> crr_batch (sys_st s) (cr_round (nr_crr (sys_st s) 11)) (cr_sequence (nr_crr (sys_st s) 11))"
    using s(2) by (simp add: crr_batch_def)
  then show ?thesis using crrn_batch_bound [OF s(1), of "cr_round (nr_crr (sys_st s) 11)" "cr_sequence (nr_crr (sys_st s) 11)"] s(1)
    by (intro exI [of _ s]) simp
qed

theorem crrn_no_assert_witness:
  "\<exists>s. crr_run 8 (0 + 2 + 2) s \<and> queued (sys_st s) = {11, 12} \<and>
     nrs_crrn_req_get (sys_st s) False \<noteq> None \<and> nrs_crrn_req_del (sys_st s) 11 \<noteq> None"
proof -
  obtain s where s: "crr_run 8 (0 + 2 + 2) s" "queued (sys_st s) = {11, 12}" using ex_two by blast
  show ?thesis using crrn_no_assert [OF s(1), of False 11 "\<lambda>_. True"] s by (intro exI [of _ s]) simp
qed

theorem crrn_stop_ok_witness:
  "\<exists>s. crr_run 8 0 s \<and> nr_res (sys_st s) = Map.empty \<and> nrs_crrn_stop (crr_net (sys_st s)) = Some ()"
proof -
  obtain s where s: "crr_run 8 0 s" "nr_res (sys_st s) = Map.empty" using ex_start by blast
  show ?thesis using crrn_stop_ok [OF s(1) _ s(2)] s by auto
qed

end
