(* ===== verification/Tgt_Grant.thy ===== *)
theory Tgt_Grant
  imports Lustre_Prelude
begin

text \<open>
  The grant accounting of a target (\<open>lustre/target/tgt_grant.c\<close>). A client may cache as much
  dirty data as it has been granted; the target keeps, per export and in total, the space that is
  granted, the space of writes in progress (pending) and the dirty data the clients report, and
  never grants more than the backend file system has left.

  The counters keep the types of the C code: the totals are \<open>u64\<close>, the counters of an export
  are \<open>long\<close>, 64-bit words whose sign \<open>sint\<close> reads. A comparison of a \<open>long\<close> with a
  \<open>u64\<close> is one of unsigned values, as the conversion of C makes it. An export is a number, its
  structure is found under it in the device; the reply of the backend to \<open>dt_statfs\<close> and the
  clock are arguments. The code under \<open>tgd_grant_lock\<close> is one function each
  (\<open>\<dots>_locked\<close>), so that sequences of them are the interleavings of the service threads.
\<close>

section \<open>Constants\<close>

definition COMPAT_BSIZE_SHIFT :: nat where [const_defs]: "COMPAT_BSIZE_SHIFT = 12"
definition OBD_STATFS_CACHE_SECONDS :: int where [const_defs]: "OBD_STATFS_CACHE_SECONDS = 1"
definition OBD_MAX_GRANT :: u64 where [const_defs]: "OBD_MAX_GRANT = 0x7fffffff"
definition OST_MAX_PRECREATE :: int where [const_defs]: "OST_MAX_PRECREATE = 20000"
definition ONE_MB_BRW_SIZE :: u32 where [const_defs]: "ONE_MB_BRW_SIZE = push_bit 20 1"
definition OBD_CONNECT_RDONLY :: u64 where [const_defs]: "OBD_CONNECT_RDONLY = 0x1"
definition OBD_CONNECT_GRANT :: u64 where [const_defs]: "OBD_CONNECT_GRANT = 0x8"
definition OBD_CONNECT_BRW_SIZE :: u64 where [const_defs]: "OBD_CONNECT_BRW_SIZE = 0x40000"
definition OBD_CONNECT_GRANT_PARAM :: u64 where [const_defs]: "OBD_CONNECT_GRANT_PARAM = 0x100000000000"
definition OBD_FL_SHRINK_GRANT :: u32 where [const_defs]: "OBD_FL_SHRINK_GRANT = 0x00020000"
definition OBD_FL_RECOV_RESEND :: u32 where [const_defs]: "OBD_FL_RECOV_RESEND = 0x00080000"
definition OBD_MD_FLBLOCKS :: u64 where [const_defs]: "OBD_MD_FLBLOCKS = 0x00000020"
definition OBD_MD_FLFLAGS :: u64 where [const_defs]: "OBD_MD_FLFLAGS = 0x00000800"
definition OBD_MD_FLGRANT :: u64 where [const_defs]: "OBD_MD_FLGRANT = 0x08000000"
definition OBD_BRW_FROM_GRANT :: u32 where [const_defs]: "OBD_BRW_FROM_GRANT = 0x20"
definition OBD_BRW_GRANTED :: u32 where [const_defs]: "OBD_BRW_GRANTED = 0x40"
definition NAME_MAX :: u32 where [const_defs]: "NAME_MAX = 255"

section \<open>Data\<close>

record obd_statfs =
  os_type :: u64
  os_blocks :: u64
  os_bfree :: u64
  os_bavail :: u64
  os_files :: u64
  os_ffree :: u64
  os_bsize :: u32
  os_namelen :: u32
  os_maxbytes :: u64
  os_state :: u32
  os_fprecreated :: u32
  os_granted :: u32

record tg_grants_data =
  tgd_tot_dirty :: u64
  tgd_tot_granted :: u64
  tgd_tot_pending :: u64
  tgd_reserved_pcnt :: u64
  tgd_tot_granted_clients :: u32
  tgd_grant_compat_disable :: bool
  tgd_osfs_age :: int
  tgd_blockbits :: nat
  tgd_statfs_inflight :: u32
  tgd_osfs_unstable :: u64
  tgd_osfs_inflight :: u64
  tgd_osfs :: obd_statfs

text \<open>The grant counters of an export, and of the export what this file reads.\<close>

record tg_export_data =
  ted_dirty :: u64
  ted_grant :: u64
  ted_pending :: u64

record obd_export =
  exp_target_data :: tg_export_data
  exp_connect_flags :: u64
  exp_brw_size :: u32
  exp_failed :: bool

text \<open>The fields of \<open>struct dt_device_param\<close> that describe the space consumption.\<close>

record dt_device_param =
  ddp_inodespace :: u16
  ddp_max_extent_blks :: u32
  ddp_extent_tax :: u32

record obd_device =
  lut_tgd :: tg_grants_data
  lut_dt_conf :: dt_device_param
  obd_recovering :: bool
  obd_self_export :: nat
  obd_exports :: "nat list"
  obd_unlinked_exports :: "nat list"
  obd_num_exports :: int
  obd_exp :: "nat \<Rightarrow> obd_export"

text \<open>The fields of \<open>struct obdo\<close> of a bulk request, under the names the grant code uses:
  \<open>o_dirty\<close> is \<open>o_blocks\<close>, \<open>o_undirty\<close> is \<open>o_mode\<close>, \<open>o_dropped\<close> is \<open>o_misc\<close> and
  \<open>o_grant_used\<close> is \<open>o_data_version\<close>.\<close>

record obdo =
  o_valid :: u64
  o_dirty :: u64
  o_grant :: u64
  o_undirty :: u32
  o_flags :: u32
  o_dropped :: u32
  o_grant_used :: u64

record niobuf_remote =
  rnb_offset :: u64
  rnb_len :: u32
  rnb_flags :: u32

record obd_connect_data =
  ocd_connect_flags :: u64
  ocd_grant :: u32

definition ted_of :: "obd_device \<Rightarrow> nat \<Rightarrow> tg_export_data" where
  "ted_of d e = exp_target_data (obd_exp d e)"

definition upd_ted :: "nat \<Rightarrow> (tg_export_data \<Rightarrow> tg_export_data) \<Rightarrow> obd_device \<Rightarrow> obd_device" where
  "upd_ted e f d = d\<lparr>obd_exp := (obd_exp d)(e := (obd_exp d e)\<lparr>exp_target_data := f (ted_of d e)\<rparr>)\<rparr>"

definition upd_tgd :: "(tg_grants_data \<Rightarrow> tg_grants_data) \<Rightarrow> obd_device \<Rightarrow> obd_device" where
  "upd_tgd f d = d\<lparr>lut_tgd := f (lut_tgd d)\<rparr>"

definition has :: "'a::len word \<Rightarrow> 'a word \<Rightarrow> bool" where
  "has flags f \<longleftrightarrow> flags AND f \<noteq> 0"

definition exp_max_brw_size :: "obd_export \<Rightarrow> u32" where
  "exp_max_brw_size exp = (if has (exp_connect_flags exp) OBD_CONNECT_BRW_SIZE then exp_brw_size exp else ONE_MB_BRW_SIZE)"

definition exp_grant_param_supp :: "obd_export \<Rightarrow> bool" where
  "exp_grant_param_supp exp = has (exp_connect_flags exp) OBD_CONNECT_GRANT_PARAM"

section \<open>Sizes\<close>

definition TGT_GRANT_SHRINK_LIMIT :: "obd_export \<Rightarrow> u64" where
  "TGT_GRANT_SHRINK_LIMIT exp = 2 * 8 * scast (exp_max_brw_size exp)"

definition tgt_grant_inflate :: "tg_grants_data \<Rightarrow> u64 \<Rightarrow> u64" where
  "tgt_grant_inflate tgd val =
     (if tgd_blockbits tgd > COMPAT_BSIZE_SHIFT then push_bit (tgd_blockbits tgd - COMPAT_BSIZE_SHIFT) val else val)"

definition tgt_grant_deflate :: "tg_grants_data \<Rightarrow> u64 \<Rightarrow> u64" where
  "tgt_grant_deflate tgd val =
     (if tgd_blockbits tgd > COMPAT_BSIZE_SHIFT then drop_bit (tgd_blockbits tgd - COMPAT_BSIZE_SHIFT) val else val)"

text \<open>Enough for a big precreate request: half of \<open>OST_MAX_PRECREATE\<close> inodes.\<close>

definition precreate_space :: "dt_device_param \<Rightarrow> u64" where
  "precreate_space conf = word_of_int (OST_MAX_PRECREATE * sint (ddp_inodespace conf) div 2)"

definition tgt_grant_chunk :: "obd_device \<Rightarrow> nat \<Rightarrow> obd_connect_data option \<Rightarrow> u64" where
  "tgt_grant_chunk d e data =
     (let tgd = lut_tgd d; conf = lut_dt_conf d; chunk = scast (exp_max_brw_size (obd_exp d e)) :: u64 in
      if obd_self_export d = e then precreate_space conf
      else if (case data of None \<Rightarrow> \<not> exp_grant_param_supp (obd_exp d e)
               | Some ocd \<Rightarrow> \<not> has (ocd_connect_flags ocd) OBD_CONNECT_GRANT_PARAM)
      then push_bit 1 (tgt_grant_inflate tgd chunk)
      else let tax = push_bit (tgd_blockbits tgd) 1;
               tax = tax * ucast (ddp_max_extent_blks conf);
               tax = (chunk + tax - 1) div tax;
               tax = tax * ucast (ddp_extent_tax conf)
           in (chunk + tax) * 2)"

section \<open>Sanity check\<close>

datatype grant_error =
  TotGrantedDiffers | TotPendingDiffers | TotDirtyDiffers | PendingOverGranted | GrantedOverSize | DirtyOverSize

text \<open>The sums are \<open>(dirty, pending, granted)\<close>; \<open>Inl\<close> is a negative return code.\<close>

definition tgt_check_export_grants :: "tg_export_data \<Rightarrow> u64 \<times> u64 \<times> u64 \<Rightarrow> u64 \<Rightarrow> int + u64 \<times> u64 \<times> u64" where
  "tgt_check_export_grants ted sums maxsize =
     (case sums of (dirty, pending, granted) \<Rightarrow>
      if ted_grant ted + ted_pending ted > maxsize then Inl (- EFAULT)
      else if ted_dirty ted > maxsize then Inl (- EFAULT)
      else Inr (dirty + ted_dirty ted, pending + ted_pending ted, granted + (ted_grant ted + ted_pending ted)))"

fun check_exports :: "obd_device \<Rightarrow> nat list \<Rightarrow> u64 \<times> u64 \<times> u64 \<Rightarrow> u64 \<Rightarrow> (u64 \<times> u64 \<times> u64) option" where
  "check_exports d [] sums maxsize = Some sums"
| "check_exports d (e # es) sums maxsize =
     (case tgt_check_export_grants (ted_of d e) sums maxsize of
        Inl rc \<Rightarrow> None
      | Inr sums \<Rightarrow> check_exports d es sums maxsize)"

text \<open>The result is the list of the errors printed.\<close>

definition tgt_grant_sanity_check :: "obd_device \<Rightarrow> grant_error list option" where
  "tgt_grant_sanity_check d =
     (if obd_exports d = [] then Some []
      else if obd_num_exports d > 100 then Some []
      else
        let tgd = lut_tgd d; maxsize = push_bit (tgd_blockbits tgd) (os_blocks (tgd_osfs tgd)); ted = ted_of d (obd_self_export d) in do {
          sums \<leftarrow> check_exports d (obd_exports d) (ted_dirty ted, ted_pending ted, ted_grant ted + ted_pending ted) maxsize;
          (tot_dirty, tot_pending, tot_granted) \<leftarrow> check_exports d (obd_unlinked_exports d) sums maxsize;
          Some ((if tot_granted \<noteq> tgd_tot_granted tgd then [TotGrantedDiffers] else []) @
                (if tot_pending \<noteq> tgd_tot_pending tgd then [TotPendingDiffers] else []) @
                (if tot_dirty \<noteq> tgd_tot_dirty tgd then [TotDirtyDiffers] else []) @
                (if tot_pending > tot_granted then [PendingOverGranted] else []) @
                (if tot_granted > maxsize then [GrantedOverSize] else []) @
                (if tot_dirty > maxsize then [DirtyOverSize] else []))
        })"

section \<open>Cached statfs data\<close>

text \<open>
  \<open>tgt_statfs_internal\<close> drops \<open>tgd_osfs_lock\<close> around \<open>dt_statfs\<close>: the part before the call
  returns the value of the in-flight counter, the part after it takes that value back.
\<close>

definition tgt_statfs_begin :: "tg_grants_data \<Rightarrow> u64 \<times> tg_grants_data" where
  "tgt_statfs_begin tgd =
     (let tgd = (if tgd_statfs_inflight tgd = 0 then tgd\<lparr>tgd_osfs_inflight := 0\<rparr> else tgd);
          tgd = tgd\<lparr>tgd_statfs_inflight := tgd_statfs_inflight tgd + 1\<rparr>
      in (tgd_osfs_inflight tgd, tgd))"

definition tgt_statfs_end :: "u64 \<Rightarrow> obd_statfs \<Rightarrow> int \<Rightarrow> tg_grants_data \<Rightarrow> obd_statfs \<times> tg_grants_data" where
  "tgt_statfs_end unstable osfs now tgd =
     (let osfs = osfs\<lparr>os_namelen := min (os_namelen osfs) NAME_MAX\<rparr>;
          unstable = tgd_osfs_inflight tgd - unstable;
          tgd = tgd\<lparr>tgd_osfs_unstable := 0\<rparr>;
          (osfs, tgd) =
            (if unstable \<noteq> 0 then
               (osfs\<lparr>os_bavail := os_bavail osfs - min (os_bavail osfs) (drop_bit (tgd_blockbits tgd) unstable)\<rparr>,
                tgd\<lparr>tgd_osfs_unstable := tgd_osfs_unstable tgd + unstable\<rparr>)
             else (osfs, tgd));
          tgd = tgd\<lparr>tgd_osfs_unstable := tgd_osfs_unstable tgd + tgd_tot_pending tgd\<rparr>;
          tgd = tgd\<lparr>tgd_osfs := osfs, tgd_osfs_age := now\<rparr>;
          tgd = tgd\<lparr>tgd_statfs_inflight := tgd_statfs_inflight tgd - 1\<rparr>;
          tgd = (if tgd_statfs_inflight tgd = 0 then tgd\<lparr>tgd_osfs_inflight := 0\<rparr> else tgd)
      in (osfs, tgd))"

text \<open>What one call needs from outside: the clock at its start and at its end, and the answer of
  \<open>dt_statfs\<close>.\<close>

record statfs_reply =
  sr_start :: int
  sr_rc :: int
  sr_osfs :: obd_statfs
  sr_end :: int

text \<open>The result is the return code, whether the cache was used (\<open>None\<close>: not set), and the
  target.\<close>

definition tgt_statfs_internal :: "statfs_reply \<Rightarrow> int \<Rightarrow> tg_grants_data \<Rightarrow> int \<times> obd_statfs \<times> bool option \<times> tg_grants_data" where
  "tgt_statfs_internal r max_age tgd =
     (if tgd_osfs_age tgd < max_age \<or> max_age = 0 then
        let (unstable, tgd) = tgt_statfs_begin tgd in
        if sr_rc r \<noteq> 0 then (sr_rc r, sr_osfs r, None, tgd)
        else let (osfs, tgd) = tgt_statfs_end unstable (sr_osfs r) (sr_end r) tgd in (0, osfs, Some False, tgd)
      else (0, tgd_osfs tgd, Some True, tgd))"

definition tgt_grant_statfs :: "statfs_reply \<Rightarrow> bool \<Rightarrow> obd_device \<Rightarrow> bool \<times> obd_device" where
  "tgt_grant_statfs r force d =
     (let max_age = (if force then 0 else sr_start r - OBD_STATFS_CACHE_SECONDS);
          (rc, osfs, from_cache, tgd) = tgt_statfs_internal r max_age (lut_tgd d)
      in (if rc \<noteq> 0 then False else from_cache = Some True, d\<lparr>lut_tgd := tgd\<rparr>))"

definition tgt_grant_space_left :: "tg_grants_data \<Rightarrow> u64" where
  "tgt_grant_space_left tgd =
     (let left = push_bit (tgd_blockbits tgd) (os_bavail (tgd_osfs tgd));
          reserved = left * tgd_reserved_pcnt tgd div 100;
          tot_granted = tgd_tot_granted tgd + reserved
      in if left < tot_granted then 0
         else (left - tot_granted) AND NOT (push_bit (tgd_blockbits tgd) 1 - 1))"

section \<open>Grant information of a request\<close>

definition negative :: "tg_export_data \<Rightarrow> bool" where
  "negative ted \<longleftrightarrow> sint (ted_dirty ted) < 0 \<or> sint (ted_grant ted) < 0 \<or> sint (ted_pending ted) < 0"

definition obdo_inflate :: "tg_grants_data \<Rightarrow> obdo \<Rightarrow> obdo" where
  "obdo_inflate tgd oa = oa\<lparr>
     o_grant := tgt_grant_inflate tgd (o_grant oa),
     o_dirty := tgt_grant_inflate tgd (o_dirty oa),
     o_dropped := ucast (tgt_grant_inflate tgd (ucast (o_dropped oa))),
     o_undirty := ucast (tgt_grant_inflate tgd (ucast (o_undirty oa)))\<rparr>"

text \<open>The counters of the request, and the dirty and dropped amounts accepted of them.\<close>

definition incoming_counts :: "obd_device \<Rightarrow> nat \<Rightarrow> obdo \<Rightarrow> u64 \<Rightarrow> obdo \<times> u64 \<times> u64" where
  "incoming_counts d e oa chunk =
     (let ted = ted_of d e; tgd = lut_tgd d;
          oa = (if sint (o_dirty oa) < 0 then oa\<lparr>o_dirty := 0\<rparr> else oa);
          oa = (if \<not> exp_grant_param_supp (obd_exp d e) then obdo_inflate tgd oa else oa);
          dirty = o_dirty oa;
          dropped = ucast (o_dropped oa);
          dirty = (if sint dirty > sint (ted_grant ted + 4 * chunk) then ted_grant ted + 4 * chunk else dirty);
          dropped = (if sint (ted_grant ted) < sint dropped then 0 else dropped);
          dropped = (if tgd_tot_granted tgd < dropped then 0 else dropped)
      in (oa, dirty, dropped))"

definition tgt_grant_incoming :: "obd_device \<Rightarrow> nat \<Rightarrow> obdo \<Rightarrow> u64 \<Rightarrow> (obd_device \<times> obdo) option" where
  "tgt_grant_incoming d e oa chunk =
     (if o_valid oa AND (OBD_MD_FLBLOCKS OR OBD_MD_FLGRANT) \<noteq> OBD_MD_FLBLOCKS OR OBD_MD_FLGRANT
      then Some (d, oa\<lparr>o_valid := o_valid oa AND NOT OBD_MD_FLGRANT\<rparr>)
      else
        let (oa, dirty, dropped) = incoming_counts d e oa chunk;
            d = upd_tgd (\<lambda>tgd. tgd\<lparr>tgd_tot_dirty := tgd_tot_dirty tgd + (dirty - ted_dirty (ted_of d e)),
                                  tgd_tot_granted := tgd_tot_granted tgd - dropped\<rparr>)
                  (upd_ted e (\<lambda>ted. ted\<lparr>ted_grant := ted_grant ted - dropped, ted_dirty := dirty\<rparr>) d)
        in if negative (ted_of d e) then None else Some (d, oa))"

definition tgt_grant_shrink :: "obd_device \<Rightarrow> nat \<Rightarrow> obdo \<Rightarrow> u64 \<Rightarrow> obd_device \<times> obdo" where
  "tgt_grant_shrink d e oa left_space =
     (if left_space \<ge> scast (tgd_tot_granted_clients (lut_tgd d)) * TGT_GRANT_SHRINK_LIMIT (obd_exp d e)
      then (d, oa)
      else
        let grant_shrink = o_grant oa in
        (upd_tgd (\<lambda>tgd. tgd\<lparr>tgd_tot_granted := tgd_tot_granted tgd - grant_shrink\<rparr>)
           (upd_ted e (\<lambda>ted. ted\<lparr>ted_grant := ted_grant ted - grant_shrink\<rparr>) d),
         oa\<lparr>o_grant := 0\<rparr>))"

text \<open>The export is \<open>None\<close> when the size is estimated for a server-side allocation.\<close>

definition tgt_grant_rnb_size :: "obd_export option \<Rightarrow> tg_grants_data \<Rightarrow> dt_device_param \<Rightarrow> niobuf_remote \<Rightarrow> u64" where
  "tgt_grant_rnb_size exp tgd conf rnb =
     (let param = (case exp of None \<Rightarrow> True | Some ex \<Rightarrow> exp_grant_param_supp ex);
          blksize = (if \<not> param \<and> tgd_blockbits tgd > COMPAT_BSIZE_SHIFT
                     then push_bit COMPAT_BSIZE_SHIFT 1 else push_bit (tgd_blockbits tgd) 1) :: u64;
          bytes = rnb_offset rnb AND (blksize - 1);
          bytes = bytes + ucast (rnb_len rnb);
          end = bytes AND (blksize - 1);
          bytes = (if end \<noteq> 0 then bytes + (blksize - end) else bytes)
      in if param then
           let max_ext = blksize * ucast (ddp_max_extent_blks conf);
               nr_ext = ucast ((bytes + max_ext - 1) div max_ext) :: u32
           in bytes + ucast (nr_ext * ddp_extent_tax conf)
         else tgt_grant_inflate tgd bytes)"

text \<open>The loop over the buffers: what is taken from the grant of the client and from the free
  space, the free space left, and the buffers.\<close>

fun check_rnbs :: "obd_device \<Rightarrow> nat \<Rightarrow> bool \<Rightarrow> niobuf_remote list \<Rightarrow> u64 \<Rightarrow> u64 \<Rightarrow> u64 \<Rightarrow>
    u64 \<times> u64 \<times> u64 \<times> niobuf_remote list" where
  "check_rnbs d e skip [] granted ungranted left = (granted, ungranted, left, [])"
| "check_rnbs d e skip (rnb # rnbs) granted ungranted left =
     (let put = (\<lambda>rnb (g, u, l, rs). (g, u, l, rnb # rs));
          ok = rnb\<lparr>rnb_flags := rnb_flags rnb OR OBD_BRW_GRANTED\<rparr>;
          bytes = ucast (tgt_grant_rnb_size (Some (obd_exp d e)) (lut_tgd d) (lut_dt_conf d) rnb) :: u32;
          bytes0 = ucast (tgt_grant_rnb_size None (lut_tgd d) (lut_dt_conf d) rnb) :: u32 in
      if has (rnb_flags rnb) OBD_BRW_FROM_GRANT \<and> skip
      then put ok (check_rnbs d e skip rnbs granted ungranted left)
      else if has (rnb_flags rnb) OBD_BRW_FROM_GRANT \<and> ted_grant (ted_of d e) \<ge> granted + scast bytes
      then put ok (check_rnbs d e skip rnbs (granted + scast bytes) ungranted left)
      else if left > scast bytes0
      then put ok (check_rnbs d e skip rnbs granted (ungranted + scast bytes0) (left - scast bytes0))
      else put (rnb\<lparr>rnb_flags := rnb_flags rnb AND NOT OBD_BRW_GRANTED\<rparr>)
             (check_rnbs d e skip rnbs granted ungranted left))"

text \<open>The decision before the loop: whether the buffers with \<open>OBD_BRW_FROM_GRANT\<close> need no
  accounting, what the client has used, and the free space left.\<close>

definition check_used :: "obd_device \<Rightarrow> nat \<Rightarrow> obdo \<Rightarrow> u64 \<Rightarrow> bool \<times> u64 \<times> u64 \<times> u64" where
  "check_used d e oa left =
     (let grant = ted_grant (ted_of d e) in
      if obd_recovering d then (True, 0, 0, left)
      else if has (o_valid oa) OBD_MD_FLFLAGS \<and> has (o_flags oa) OBD_FL_RECOV_RESEND then (True, 0, 0, left)
      else if exp_grant_param_supp (obd_exp d e) \<and> o_grant_used oa > 0 then
        (if grant \<ge> o_grant_used oa then (True, o_grant_used oa, 0, left)
         else if left > o_grant_used oa - grant
         then (True, grant, o_grant_used oa - grant, left - (o_grant_used oa - grant))
         else (False, 0, 0, left))
      else (False, 0, 0, left))"

definition tgt_grant_check :: "obd_device \<Rightarrow> nat \<Rightarrow> obdo \<Rightarrow> niobuf_remote list \<Rightarrow> u64 \<Rightarrow>
    (obd_device \<times> obdo \<times> niobuf_remote list \<times> u64) option" where
  "tgt_grant_check d e oa rnb left =
     (let (skip, granted, ungranted, left) = check_used d e oa left;
          (granted, ungranted, left, rnb) = check_rnbs d e skip rnb granted ungranted left;
          oa = oa\<lparr>o_grant_used := granted + ungranted\<rparr>;
          d = upd_tgd (\<lambda>tgd. tgd\<lparr>tgd_tot_granted := tgd_tot_granted tgd + ungranted,
                                tgd_tot_pending := tgd_tot_pending tgd + o_grant_used oa\<rparr>)
                (upd_ted e (\<lambda>ted. ted\<lparr>ted_grant := ted_grant ted - granted,
                                     ted_pending := ted_pending ted + o_grant_used oa\<rparr>) d)
      in if obd_recovering d \<or> \<not> has (o_valid oa) OBD_MD_FLGRANT then Some (d, oa, rnb, left)
         else
           let granted = (if ted_dirty (ted_of d e) < granted then ted_dirty (ted_of d e) else granted);
               d = upd_tgd (\<lambda>tgd. tgd\<lparr>tgd_tot_dirty := tgd_tot_dirty tgd - granted\<rparr>)
                     (upd_ted e (\<lambda>ted. ted\<lparr>ted_dirty := ted_dirty ted - granted\<rparr>) d)
           in if negative (ted_of d e) then None else Some (d, oa, rnb, left))"

text \<open>The amount to grant, \<open>None\<close> where \<open>tgt_grant_alloc\<close> returns early.\<close>

definition alloc_amount :: "obd_device \<Rightarrow> nat \<Rightarrow> u64 \<Rightarrow> u64 \<Rightarrow> u64 \<Rightarrow> u64 \<Rightarrow> bool \<Rightarrow> u64 option" where
  "alloc_amount d e curgrant want left chunk conservative =
     (let tgd = lut_tgd d; ted = ted_of d e; bb = tgd_blockbits tgd in
      if obd_self_export d \<noteq> e \<and> \<not> exp_grant_param_supp (obd_exp d e) \<and> tgd_grant_compat_disable tgd
         \<or> left = 0 \<or> exp_failed (obd_exp d e) then None
      else if want > OBD_MAX_GRANT then None
      else if curgrant \<ge> want \<or> curgrant \<ge> ted_grant ted + chunk then None
      else
        let conservative = (if obd_recovering d then False else conservative);
            left = (if conservative then drop_bit 3 left else left);
            grant = min (want - curgrant) left;
            grant = (grant + scast (push_bit bb 1 :: u32) - 1) AND NOT (push_bit bb 1 - 1)
        in if grant = 0 then None
           else
             let grant = (if grant > chunk \<and> conservative then chunk else grant)
             in Some (if ted_grant ted + grant > want + chunk then want + chunk - ted_grant ted else grant))"

text \<open>The value returned is the amount granted, a \<open>long\<close>.\<close>

definition tgt_grant_alloc :: "obd_device \<Rightarrow> nat \<Rightarrow> u64 \<Rightarrow> u64 \<Rightarrow> u64 \<Rightarrow> u64 \<Rightarrow> bool \<Rightarrow> (u64 \<times> obd_device) option" where
  "tgt_grant_alloc d e curgrant want left chunk conservative =
     (case alloc_amount d e curgrant want left chunk conservative of
        None \<Rightarrow> Some (0, d)
      | Some grant \<Rightarrow>
          let d = upd_tgd (\<lambda>tgd. tgd\<lparr>tgd_tot_granted := tgd_tot_granted tgd + grant\<rparr>)
                    (upd_ted e (\<lambda>ted. ted\<lparr>ted_grant := ted_grant ted + grant\<rparr>) d)
          in if sint (ted_grant (ted_of d e)) < 0 then None else Some (grant, d))"

section \<open>Connection\<close>

definition tgt_grant_connect_locked :: "obd_device \<Rightarrow> nat \<Rightarrow> obd_connect_data \<Rightarrow> bool \<Rightarrow> u64 \<Rightarrow> u64 \<Rightarrow> u64 \<Rightarrow>
    (obd_device \<times> obd_connect_data) option" where
  "tgt_grant_connect_locked d e data new_conn want chunk left = do {
     d \<leftarrow> map_option snd (tgt_grant_alloc d e (ted_grant (ted_of d e)) want left chunk new_conn);
     let data = data\<lparr>ocd_grant :=
       (if has (ocd_connect_flags data) OBD_CONNECT_GRANT_PARAM then ucast (ted_grant (ted_of d e))
        else ucast (tgt_grant_deflate (lut_tgd d) (ted_grant (ted_of d e))))\<rparr>;
     let d = upd_ted e (\<lambda>ted. ted\<lparr>ted_dirty := 0\<rparr>)
       (upd_tgd (\<lambda>tgd. tgd\<lparr>tgd_tot_dirty := tgd_tot_dirty tgd - ted_dirty (ted_of d e)\<rparr>) d);
     let d = (if new_conn \<and> has (ocd_connect_flags data) OBD_CONNECT_GRANT
       then upd_tgd (\<lambda>tgd. tgd\<lparr>tgd_tot_granted_clients := tgd_tot_granted_clients tgd + 1\<rparr>) d else d);
     Some (d, data)
   }"

text \<open>The \<open>refresh\<close> loops take the \<open>n\<close>-th reply of the backend for the \<open>n\<close>-th call of
  \<open>dt_statfs\<close>; the outer option is \<open>None\<close> when \<open>fuel\<close> iterations are not enough.\<close>

fun connect_refresh :: "nat \<Rightarrow> (nat \<Rightarrow> statfs_reply) \<Rightarrow> nat \<Rightarrow> bool \<Rightarrow> obd_device \<Rightarrow> u64 \<Rightarrow> (obd_device \<times> u64) option" where
  "connect_refresh 0 os n force d chunk = None"
| "connect_refresh (Suc fuel) os n force d chunk =
     (let (from_cache, d) = tgt_grant_statfs (os n) force d; left = tgt_grant_space_left (lut_tgd d) in
      if from_cache \<and> left < 32 * chunk then connect_refresh fuel os (n + 1) True d chunk
      else Some (d, left))"

definition tgt_grant_connect :: "(nat \<Rightarrow> statfs_reply) \<Rightarrow> obd_device \<Rightarrow> nat \<Rightarrow> obd_connect_data \<Rightarrow> bool \<Rightarrow>
    (obd_device \<times> obd_connect_data) option" where
  "tgt_grant_connect os d e data new_conn =
     (let tgd = lut_tgd d in
      if has (ocd_connect_flags data) OBD_CONNECT_RDONLY \<or>
         \<not> has (ocd_connect_flags data) OBD_CONNECT_GRANT_PARAM \<and> tgd_grant_compat_disable tgd
      then Some (d, data\<lparr>ocd_grant := 0,
                         ocd_connect_flags := ocd_connect_flags data AND NOT (OBD_CONNECT_GRANT OR OBD_CONNECT_GRANT_PARAM)\<rparr>)
      else
        let want = (if has (ocd_connect_flags data) OBD_CONNECT_GRANT_PARAM then ucast (ocd_grant data)
                    else tgt_grant_inflate tgd (ucast (ocd_grant data)));
            chunk = tgt_grant_chunk d e (Some data)
        in do {
          (d, left) \<leftarrow> connect_refresh 2 os 0 False d chunk;
          tgt_grant_connect_locked d e data new_conn want chunk left
        })"

definition tgt_grant_discard :: "obd_device \<Rightarrow> nat \<Rightarrow> obd_device option" where
  "tgt_grant_discard d e = do {
     LASSERT (tgd_tot_granted (lut_tgd d) \<ge> ted_grant (ted_of d e));
     let d = upd_ted e (\<lambda>ted. ted\<lparr>ted_grant := 0\<rparr>)
       (upd_tgd (\<lambda>tgd. tgd\<lparr>tgd_tot_granted := tgd_tot_granted tgd - ted_grant (ted_of d e)\<rparr>) d);
     LASSERT (tgd_tot_pending (lut_tgd d) \<ge> ted_pending (ted_of d e));
     LASSERT (tgd_tot_dirty (lut_tgd d) \<ge> ted_dirty (ted_of d e));
     let d = upd_ted e (\<lambda>ted. ted\<lparr>ted_dirty := 0\<rparr>)
       (upd_tgd (\<lambda>tgd. tgd\<lparr>tgd_tot_dirty := tgd_tot_dirty tgd - ted_dirty (ted_of d e)\<rparr>) d);
     Some d
   }"

section \<open>Bulk reads and writes\<close>

definition shrinking :: "obdo \<Rightarrow> bool" where
  "shrinking oa \<longleftrightarrow> has (o_valid oa) OBD_MD_FLFLAGS \<and> has (o_flags oa) OBD_FL_SHRINK_GRANT"

definition reply_deflate :: "obd_device \<Rightarrow> nat \<Rightarrow> obdo \<Rightarrow> obdo" where
  "reply_deflate d e oa =
     (if \<not> exp_grant_param_supp (obd_exp d e) then oa\<lparr>o_grant := tgt_grant_deflate (lut_tgd d) (o_grant oa)\<rparr> else oa)"

definition tgt_grant_read_locked :: "obd_device \<Rightarrow> nat \<Rightarrow> obdo \<Rightarrow> (obd_device \<times> obdo) option" where
  "tgt_grant_read_locked d e oa = do {
     let do_shrink = shrinking oa;
     let left = tgt_grant_space_left (lut_tgd d);
     (d, oa) \<leftarrow> tgt_grant_incoming d e oa (tgt_grant_chunk d e None);
     let (d, oa) = (if do_shrink then tgt_grant_shrink d e oa left else (d, oa\<lparr>o_grant := 0\<rparr>));
     Some (d, reply_deflate d e oa)
   }"

definition tgt_grant_prepare_read :: "(nat \<Rightarrow> statfs_reply) \<Rightarrow> obd_device \<Rightarrow> nat \<Rightarrow> obdo option \<Rightarrow> (obd_device \<times> obdo option) option" where
  "tgt_grant_prepare_read os d e oa =
     (case oa of
        None \<Rightarrow> Some (d, None)
      | Some oa \<Rightarrow>
          if \<not> has (o_valid oa) OBD_MD_FLGRANT then Some (d, Some oa)
          else do {
            let d = (if shrinking oa then snd (tgt_grant_statfs (os 0) True d) else d);
            (d, oa) \<leftarrow> tgt_grant_read_locked d e oa;
            Some (d, Some oa)
          })"

definition tgt_grant_write_locked :: "obd_device \<Rightarrow> nat \<Rightarrow> obdo \<Rightarrow> niobuf_remote list \<Rightarrow> u64 \<Rightarrow> u64 \<Rightarrow>
    (obd_device \<times> obdo \<times> niobuf_remote list) option" where
  "tgt_grant_write_locked d e oa rnb left chunk = do {
     (d, oa) \<leftarrow> tgt_grant_incoming d e oa chunk;
     (d, oa, rnb, left) \<leftarrow> tgt_grant_check d e oa rnb left;
     if \<not> has (o_valid oa) OBD_MD_FLGRANT then Some (d, oa, rnb)
     else do {
       (d, oa) \<leftarrow>
         (if shrinking oa then Some (tgt_grant_shrink d e oa left)
          else do {
            (grant, d) \<leftarrow> tgt_grant_alloc d e (o_grant oa) (ucast (o_undirty oa)) left chunk True;
            Some (d, oa\<lparr>o_grant := grant\<rparr>)
          });
       Some (d, reply_deflate d e oa, rnb)
     }
   }"

text \<open>\<open>force\<close> is 0, 1 or 2 as in the code; a sync happens before the third value.\<close>

fun write_refresh :: "nat \<Rightarrow> (nat \<Rightarrow> statfs_reply) \<Rightarrow> nat \<Rightarrow> nat \<Rightarrow> obd_device \<Rightarrow> niobuf_remote list \<Rightarrow> u64 \<Rightarrow> (obd_device \<times> u64) option" where
  "write_refresh 0 os n force d rnb chunk = None"
| "write_refresh (Suc fuel) os n force d rnb chunk =
     (let (from_cache, d) = tgt_grant_statfs (os n) (force \<noteq> 0) d; left = tgt_grant_space_left (lut_tgd d) in
      if from_cache \<and> left < 32 * chunk then write_refresh fuel os (n + 1) 1 d rnb chunk
      else if \<not> obd_recovering d \<and> force \<noteq> 2 \<and> left < chunk \<and> (\<exists>r \<in> set rnb. \<not> has (rnb_flags r) OBD_BRW_FROM_GRANT)
      then write_refresh fuel os (n + 1) 2 d rnb chunk
      else Some (d, left))"

definition tgt_grant_prepare_write :: "(nat \<Rightarrow> statfs_reply) \<Rightarrow> obd_device \<Rightarrow> nat \<Rightarrow> obdo \<Rightarrow> niobuf_remote list \<Rightarrow>
    (obd_device \<times> obdo \<times> niobuf_remote list) option" where
  "tgt_grant_prepare_write os d e oa rnb = do {
     let chunk = tgt_grant_chunk d e None;
     (d, left) \<leftarrow> write_refresh 3 os 0 0 d rnb chunk;
     tgt_grant_write_locked d e oa rnb left chunk
   }"

section \<open>Object creation\<close>

text \<open>\<open>Inl\<close> is the error code; a success has the space granted and the number of objects.\<close>

definition create_take :: "obd_device \<Rightarrow> nat \<Rightarrow> u64 \<Rightarrow> u64 \<Rightarrow> obd_device \<times> u64" where
  "create_take d e wanted left =
     (let grant = ted_grant (ted_of d e);
          (d, left) =
            (if wanted \<le> grant then (upd_ted e (\<lambda>ted. ted\<lparr>ted_grant := ted_grant ted - wanted\<rparr>) d, left)
             else (upd_ted e (\<lambda>ted. ted\<lparr>ted_grant := 0\<rparr>)
                     (upd_tgd (\<lambda>tgd. tgd\<lparr>tgd_tot_granted := tgd_tot_granted tgd + (wanted - grant)\<rparr>) d),
                   left - (wanted - grant)))
      in (upd_tgd (\<lambda>tgd. tgd\<lparr>tgd_tot_pending := tgd_tot_pending tgd + wanted\<rparr>)
            (upd_ted e (\<lambda>ted. ted\<lparr>ted_pending := ted_pending ted + wanted\<rparr>) d), left))"

definition tgt_grant_create_locked :: "obd_device \<Rightarrow> nat \<Rightarrow> u64 \<Rightarrow> (obd_device \<times> (int + u64 \<times> u64)) option" where
  "tgt_grant_create_locked d e nr =
     (let tgd = lut_tgd d; grant = ted_grant (ted_of d e); inode = scast (ddp_inodespace (lut_dt_conf d)) :: u64 in
      if os_bavail (tgd_osfs tgd) - signed_drop_bit (tgd_blockbits tgd) grant < drop_bit 10 (os_blocks (tgd_osfs tgd))
      then Some (d, Inl (- ENOSPC))
      else
        let left = tgt_grant_space_left tgd;
            over = nr * inode > grant + left;
            nr = (if over then (grant + left) div inode else nr);
            wanted = nr * inode
        in if over \<and> nr = 0 then Some (d, Inl (- ENOSPC))
           else do {
             LASSERT (wanted \<le> grant + left);
             let (d, left) = create_take d e wanted left;
             let more = precreate_space (lut_dt_conf d);
             let grant = ted_grant (ted_of d e);
             d \<leftarrow>
               (if more > grant
                then map_option snd (tgt_grant_alloc d e grant (more - grant) left (tgt_grant_chunk d e None) False)
                else Some d);
             Some (d, Inr (wanted, nr))
           })"

definition tgt_grant_create :: "(nat \<Rightarrow> statfs_reply) \<Rightarrow> obd_device \<Rightarrow> nat \<Rightarrow> u64 \<Rightarrow> (obd_device \<times> (int + u64 \<times> u64)) option" where
  "tgt_grant_create os d e nr =
     (if obd_recovering d \<or> ddp_inodespace (lut_dt_conf d) = 0 then Some (d, Inr (0, nr))
      else tgt_grant_create_locked (snd (tgt_grant_statfs (os 0) True d)) e nr)"

section \<open>Commit\<close>

definition tgt_grant_commit :: "obd_device \<Rightarrow> nat \<Rightarrow> u64 \<Rightarrow> int \<Rightarrow> obd_device option" where
  "tgt_grant_commit d e pending rc =
     (if pending = 0 then Some d
      else do {
        let d = (if rc = 0 then
            upd_tgd (\<lambda>tgd. tgd\<lparr>
              tgd_osfs := (tgd_osfs tgd)\<lparr>os_bavail := os_bavail (tgd_osfs tgd) -
                min (os_bavail (tgd_osfs tgd)) (drop_bit (tgd_blockbits tgd) pending)\<rparr>,
              tgd_osfs_inflight :=
                (if tgd_statfs_inflight tgd \<noteq> 0 then tgd_osfs_inflight tgd + pending else tgd_osfs_inflight tgd)\<rparr>) d
          else d);
        LASSERT (\<not> ted_pending (ted_of d e) < pending);
        let d = upd_ted e (\<lambda>ted. ted\<lparr>ted_pending := ted_pending ted - pending\<rparr>) d;
        LASSERT (\<not> tgd_tot_granted (lut_tgd d) < pending);
        let d = upd_tgd (\<lambda>tgd. tgd\<lparr>tgd_tot_granted := tgd_tot_granted tgd - pending\<rparr>) d;
        LASSERT (\<not> tgd_tot_pending (lut_tgd d) < pending);
        Some (upd_tgd (\<lambda>tgd. tgd\<lparr>tgd_tot_pending := tgd_tot_pending tgd - pending\<rparr>) d)
      })"

text \<open>The commit callback of a transaction. The callbacks of the transaction are a list; the
  references that callbacks hold on the exports (\<open>exp_cb_count\<close>) are a function of the
  export.\<close>

record tgt_grant_cb =
  tgc_exp :: nat
  tgc_granted :: u64

definition tgt_grant_commit_cb :: "obd_device \<Rightarrow> (nat \<Rightarrow> int) \<Rightarrow> tgt_grant_cb \<Rightarrow> int \<Rightarrow> (obd_device \<times> (nat \<Rightarrow> int)) option" where
  "tgt_grant_commit_cb d cb_count tgc err = do {
     d \<leftarrow> tgt_grant_commit d (tgc_exp tgc) (tgc_granted tgc) err;
     Some (d, cb_count(tgc_exp tgc := cb_count (tgc_exp tgc) - 1))
   }"

definition tgt_grant_commit_cb_add :: "bool \<Rightarrow> int \<Rightarrow> tgt_grant_cb list \<Rightarrow> (nat \<Rightarrow> int) \<Rightarrow> nat \<Rightarrow> u64 \<Rightarrow>
    int \<times> tgt_grant_cb list \<times> (nat \<Rightarrow> int)" where
  "tgt_grant_commit_cb_add alloc trans_rc th cb_count e granted =
     (if \<not> alloc then (- ENOMEM, th, cb_count)
      else let cb_count' = cb_count(e := cb_count e + 1) in
           if trans_rc \<noteq> 0 then (trans_rc, th, cb_count'(e := cb_count' e - 1))
           else (0, th @ [\<lparr>tgc_exp = e, tgc_granted = granted\<rparr>], cb_count'))"

text \<open>\<open>val\<close> is the boolean the kernel parses from the buffer, \<open>Inl\<close> its error.\<close>

definition tgt_grant_compat_disable_seq_write :: "int + bool \<Rightarrow> int \<Rightarrow> obd_device \<Rightarrow> int \<times> obd_device" where
  "tgt_grant_compat_disable_seq_write val len d =
     (case val of
        Inl rc \<Rightarrow> (rc, d)
      | Inr b \<Rightarrow> (len, upd_tgd (\<lambda>tgd. tgd\<lparr>tgd_grant_compat_disable := b\<rparr>) d))"

section \<open>Accounting\<close>

lemma ted_of_upd_ted [simp]: "ted_of (upd_ted e f d) x = (if x = e then f (ted_of d e) else ted_of d x)"
  by (simp add: ted_of_def upd_ted_def)

lemma ted_of_upd_tgd [simp]: "ted_of (upd_tgd f d) = ted_of d"
  by (simp add: ted_of_def upd_tgd_def fun_eq_iff)

lemma upd_sel [simp]:
  "lut_tgd (upd_ted e f d) = lut_tgd d" "lut_tgd (upd_tgd g d) = g (lut_tgd d)"
  "lut_dt_conf (upd_ted e f d) = lut_dt_conf d" "lut_dt_conf (upd_tgd g d) = lut_dt_conf d"
  "obd_recovering (upd_ted e f d) = obd_recovering d" "obd_recovering (upd_tgd g d) = obd_recovering d"
  "obd_self_export (upd_ted e f d) = obd_self_export d" "obd_self_export (upd_tgd g d) = obd_self_export d"
  "obd_exports (upd_ted e f d) = obd_exports d" "obd_exports (upd_tgd g d) = obd_exports d"
  "obd_unlinked_exports (upd_ted e f d) = obd_unlinked_exports d" "obd_unlinked_exports (upd_tgd g d) = obd_unlinked_exports d"
  "exp_grant_param_supp (obd_exp (upd_ted e f d) x) = exp_grant_param_supp (obd_exp d x)" "obd_exp (upd_tgd g d) = obd_exp d"
  "exp_failed (obd_exp (upd_ted e f d) x) = exp_failed (obd_exp d x)"
  "exp_max_brw_size (obd_exp (upd_ted e f d) x) = exp_max_brw_size (obd_exp d x)"
  by (simp_all add: upd_ted_def upd_tgd_def exp_grant_param_supp_def exp_max_brw_size_def)

text \<open>
  An operation on the export \<open>e\<close> changes the counters of \<open>e\<close> and the totals by the same
  amounts, and no other export. The amounts are words, so this holds whatever overflows.
\<close>

definition keeps :: "nat \<Rightarrow> obd_device \<Rightarrow> obd_device \<Rightarrow> bool" where
  "keeps e d d' \<longleftrightarrow>
     obd_self_export d' = obd_self_export d \<and> obd_exports d' = obd_exports d \<and> obd_unlinked_exports d' = obd_unlinked_exports d \<and>
     (\<forall>x. x \<noteq> e \<longrightarrow> ted_of d' x = ted_of d x) \<and>
     tgd_tot_granted (lut_tgd d') - (ted_grant (ted_of d' e) + ted_pending (ted_of d' e)) =
       tgd_tot_granted (lut_tgd d) - (ted_grant (ted_of d e) + ted_pending (ted_of d e)) \<and>
     tgd_tot_pending (lut_tgd d') - ted_pending (ted_of d' e) = tgd_tot_pending (lut_tgd d) - ted_pending (ted_of d e) \<and>
     tgd_tot_dirty (lut_tgd d') - ted_dirty (ted_of d' e) = tgd_tot_dirty (lut_tgd d) - ted_dirty (ted_of d e)"

lemma keeps_refl [simp]: "keeps e d d"
  by (simp add: keeps_def)

lemma keeps_trans [trans]: "keeps e d d1 \<Longrightarrow> keeps e d1 d2 \<Longrightarrow> keeps e d d2"
  by (simp add: keeps_def)

lemma statfs_begin_sel [simp]:
  "tgd_tot_granted (snd (tgt_statfs_begin t)) = tgd_tot_granted t" "tgd_tot_pending (snd (tgt_statfs_begin t)) = tgd_tot_pending t"
  "tgd_tot_dirty (snd (tgt_statfs_begin t)) = tgd_tot_dirty t" "tgd_blockbits (snd (tgt_statfs_begin t)) = tgd_blockbits t"
  "tgd_osfs (snd (tgt_statfs_begin t)) = tgd_osfs t"
  by (simp_all add: tgt_statfs_begin_def Let_def)

lemma statfs_end_sel [simp]:
  "tgd_tot_granted (snd (tgt_statfs_end u os now t)) = tgd_tot_granted t" "tgd_tot_pending (snd (tgt_statfs_end u os now t)) = tgd_tot_pending t"
  "tgd_tot_dirty (snd (tgt_statfs_end u os now t)) = tgd_tot_dirty t" "tgd_blockbits (snd (tgt_statfs_end u os now t)) = tgd_blockbits t"
  by (simp_all add: tgt_statfs_end_def Let_def)

lemma keeps_statfs: "keeps e d (snd (tgt_grant_statfs r force d))"
  by (simp add: keeps_def tgt_grant_statfs_def tgt_statfs_internal_def ted_of_def Let_def case_prod_beta)

lemma keeps_incoming: "tgt_grant_incoming d e oa chunk = Some (d', oa') \<Longrightarrow> keeps e d d'"
  by (auto simp: tgt_grant_incoming_def Let_def keeps_def split: if_split_asm prod.split_asm)

lemma keeps_shrink: "keeps e d (fst (tgt_grant_shrink d e oa left))"
  by (simp add: tgt_grant_shrink_def Let_def keeps_def)

lemma keeps_check: "tgt_grant_check d e oa rnb left = Some (d', r) \<Longrightarrow> keeps e d d'"
  by (auto simp: tgt_grant_check_def Let_def keeps_def split: if_split_asm prod.split_asm)

lemma keeps_alloc: "tgt_grant_alloc d e cur want left chunk cons = Some (g, d') \<Longrightarrow> keeps e d d'"
  by (auto simp: tgt_grant_alloc_def Let_def keeps_def split: if_split_asm option.split_asm)

lemma keeps_connect_locked: "tgt_grant_connect_locked d e data new want chunk left = Some (d', data') \<Longrightarrow> keeps e d d'"
  unfolding tgt_grant_connect_locked_def Let_def
  by (erule bind_SomeE) (auto simp: keeps_def dest!: keeps_alloc)

lemma keeps_discard:
  assumes "tgt_grant_discard d e = Some d'"
  shows "keeps e d d'"
proof -
  have "d' = upd_ted e (\<lambda>ted. ted\<lparr>ted_dirty := 0\<rparr>) (upd_tgd (\<lambda>tgd. tgd\<lparr>tgd_tot_dirty := tgd_tot_dirty tgd - ted_dirty (ted_of d e)\<rparr>)
      (upd_ted e (\<lambda>ted. ted\<lparr>ted_grant := 0\<rparr>) (upd_tgd (\<lambda>tgd. tgd\<lparr>tgd_tot_granted := tgd_tot_granted tgd - ted_grant (ted_of d e)\<rparr>) d)))"
    using assms by (simp add: tgt_grant_discard_def Let_def split: if_split_asm)
  then show ?thesis by (simp add: keeps_def)
qed

lemma read_locked_inv:
  assumes "tgt_grant_read_locked d e oa = Some (d', oa')"
  shows "\<exists>d1 oa1. tgt_grant_incoming d e oa (tgt_grant_chunk d e None) = Some (d1, oa1) \<and>
    d' = (if shrinking oa then fst (tgt_grant_shrink d1 e oa1 (tgt_grant_space_left (lut_tgd d))) else d1)"
proof (cases "tgt_grant_incoming d e oa (tgt_grant_chunk d e None)")
  case None
  then show ?thesis using assms by (simp add: tgt_grant_read_locked_def)
next
  case (Some r)
  obtain d1 oa1 where r: "r = (d1, oa1)" by (cases r)
  obtain d2 oa2 where s: "tgt_grant_shrink d1 e oa1 (tgt_grant_space_left (lut_tgd d)) = (d2, oa2)" by fastforce
  show ?thesis using assms Some r s by (auto simp: tgt_grant_read_locked_def)
qed

lemma keeps_read_locked: "tgt_grant_read_locked d e oa = Some (d', oa') \<Longrightarrow> keeps e d d'"
  using read_locked_inv keeps_incoming keeps_shrink keeps_trans by (metis (no_types, lifting))

lemma write_locked_inv:
  assumes "tgt_grant_write_locked d e oa rnb left chunk = Some (d', oa', rnb')"
  shows "\<exists>d1 oa1 d2 oa2 left2. tgt_grant_incoming d e oa chunk = Some (d1, oa1) \<and>
    tgt_grant_check d1 e oa1 rnb left = Some (d2, oa2, rnb', left2) \<and> o_grant_used oa' = o_grant_used oa2 \<and>
    (if \<not> has (o_valid oa2) OBD_MD_FLGRANT then d' = d2
     else if shrinking oa2 then d' = fst (tgt_grant_shrink d2 e oa2 left2)
     else \<exists>g. tgt_grant_alloc d2 e (o_grant oa2) (ucast (o_undirty oa2)) left2 chunk True = Some (g, d'))"
proof -
  obtain d1 oa1 d2 oa2 rnb2 left2 where 1: "tgt_grant_incoming d e oa chunk = Some (d1, oa1)"
    and 2: "tgt_grant_check d1 e oa1 rnb left = Some (d2, oa2, rnb2, left2)"
    and 3: "(if \<not> has (o_valid oa2) OBD_MD_FLGRANT then Some (d2, oa2, rnb2)
     else do {
       (d, oa) \<leftarrow>
         (if shrinking oa2 then Some (tgt_grant_shrink d2 e oa2 left2)
          else do {
            (grant, d) \<leftarrow> tgt_grant_alloc d2 e (o_grant oa2) (ucast (o_undirty oa2)) left2 chunk True;
            Some (d, oa2\<lparr>o_grant := grant\<rparr>)
          });
       Some (d, reply_deflate d e oa, rnb2)
     }) = Some (d', oa', rnb')"
    using assms unfolding tgt_grant_write_locked_def by (auto elim!: bind_SomeE)
  have u: "o_grant_used (reply_deflate x e y) = o_grant_used y" for x y by (simp add: reply_deflate_def)
  have v: "o_grant_used (snd (tgt_grant_shrink d2 e oa2 left2)) = o_grant_used oa2" by (simp add: tgt_grant_shrink_def Let_def)
  have "rnb' = rnb2 \<and> o_grant_used oa' = o_grant_used oa2 \<and>
    (if \<not> has (o_valid oa2) OBD_MD_FLGRANT then d' = d2
     else if shrinking oa2 then d' = fst (tgt_grant_shrink d2 e oa2 left2)
     else \<exists>g. tgt_grant_alloc d2 e (o_grant oa2) (ucast (o_undirty oa2)) left2 chunk True = Some (g, d'))"
    using 3 u v by (cases "tgt_grant_shrink d2 e oa2 left2"; cases "tgt_grant_alloc d2 e (o_grant oa2) (ucast (o_undirty oa2)) left2 chunk True")
      (auto split: if_split_asm)
  then show ?thesis using 1 2 by blast
qed

lemma keeps_write_locked:
  assumes "tgt_grant_write_locked d e oa rnb left chunk = Some (d', oa', rnb')"
  shows "keeps e d d'"
proof -
  obtain d1 oa1 d2 oa2 left2 where w: "tgt_grant_incoming d e oa chunk = Some (d1, oa1)"
    "tgt_grant_check d1 e oa1 rnb left = Some (d2, oa2, rnb', left2)"
    "if \<not> has (o_valid oa2) OBD_MD_FLGRANT then d' = d2
     else if shrinking oa2 then d' = fst (tgt_grant_shrink d2 e oa2 left2)
     else \<exists>g. tgt_grant_alloc d2 e (o_grant oa2) (ucast (o_undirty oa2)) left2 chunk True = Some (g, d')"
    using write_locked_inv [OF assms] by blast
  have "keeps e d2 d'" using w(3) keeps_shrink keeps_alloc by (auto split: if_split_asm)
  then show ?thesis using keeps_incoming [OF w(1)] keeps_check [OF w(2)] keeps_trans by blast
qed

lemma keeps_take: "keeps e d (fst (create_take d e wanted left))"
  by (simp add: create_take_def Let_def keeps_def)

text \<open>A successful creation: the space is taken, then more is granted to the export.\<close>

lemma create_locked_inv:
  assumes "tgt_grant_create_locked d e nr = Some (d', Inr (granted, nr'))"
  shows "\<exists>d1 left1. create_take d e granted (tgt_grant_space_left (lut_tgd d)) = (d1, left1) \<and>
    granted \<le> ted_grant (ted_of d e) + tgt_grant_space_left (lut_tgd d) \<and> granted = nr' * scast (ddp_inodespace (lut_dt_conf d)) \<and>
    nr' = (if nr * scast (ddp_inodespace (lut_dt_conf d)) > ted_grant (ted_of d e) + tgt_grant_space_left (lut_tgd d)
           then (ted_grant (ted_of d e) + tgt_grant_space_left (lut_tgd d)) div scast (ddp_inodespace (lut_dt_conf d)) else nr) \<and>
    (d' = d1 \<or> (\<exists>want g. tgt_grant_alloc d1 e (ted_grant (ted_of d1 e)) want left1 (tgt_grant_chunk d1 e None) False = Some (g, d')))"
  (is "\<exists>d1 left1. ?P d1 left1")
proof -
  obtain d1 left1 where t: "create_take d e granted (tgt_grant_space_left (lut_tgd d)) = (d1, left1)" by fastforce
  have "?P d1 left1"
    using assms t unfolding tgt_grant_create_locked_def Let_def
    by (auto split: if_split_asm prod.split_asm elim!: bind_SomeE)
  then show ?thesis by blast
qed

lemma create_locked_fails:
  assumes "tgt_grant_create_locked d e nr = Some (d', Inl rc)"
  shows "d' = d \<and> rc = - ENOSPC"
  using assms unfolding tgt_grant_create_locked_def Let_def by (auto split: if_split_asm prod.split_asm elim!: bind_SomeE)

lemma keeps_create_locked:
  assumes "tgt_grant_create_locked d e nr = Some (d', r)"
  shows "keeps e d d'"
proof (cases r)
  case (Inl rc)
  then show ?thesis using create_locked_fails [of d e nr d' rc] assms by simp
next
  case (Inr p)
  obtain d1 left1 where t: "create_take d e (fst p) (tgt_grant_space_left (lut_tgd d)) = (d1, left1)"
    "d' = d1 \<or> (\<exists>want g. tgt_grant_alloc d1 e (ted_grant (ted_of d1 e)) want left1 (tgt_grant_chunk d1 e None) False = Some (g, d'))"
    using create_locked_inv [of d e nr d' "fst p" "snd p"] assms Inr by auto
  show ?thesis using keeps_take [of e d "fst p" "tgt_grant_space_left (lut_tgd d)"] t keeps_alloc keeps_trans by (metis fst_conv)
qed

lemma keeps_commit:
  assumes "tgt_grant_commit d e p rc = Some d'"
  shows "keeps e d d'"
proof (cases "p = 0")
  case False
  have "\<exists>f. d' = upd_tgd f (upd_ted e (\<lambda>ted. ted\<lparr>ted_pending := ted_pending ted - p\<rparr>) d) \<and>
    (\<forall>t. tgd_tot_granted (f t) = tgd_tot_granted t - p \<and> tgd_tot_pending (f t) = tgd_tot_pending t - p \<and> tgd_tot_dirty (f t) = tgd_tot_dirty t)"
    using assms False by (auto simp: tgt_grant_commit_def Let_def upd_tgd_def upd_ted_def ted_of_def split: if_split_asm)
  then show ?thesis by (auto simp: keeps_def)
qed (use assms in \<open>simp add: tgt_grant_commit_def\<close>)

section \<open>Pending space\<close>

lemma incoming_pending: "tgt_grant_incoming d e oa chunk = Some (d', oa') \<Longrightarrow> ted_pending (ted_of d' x) = ted_pending (ted_of d x)"
  by (auto simp: tgt_grant_incoming_def Let_def split: if_split_asm prod.split_asm)

lemma shrink_pending: "ted_pending (ted_of (fst (tgt_grant_shrink d e oa left)) x) = ted_pending (ted_of d x)"
  by (simp add: tgt_grant_shrink_def Let_def)

lemma alloc_pending: "tgt_grant_alloc d e cur want left chunk cons = Some (g, d') \<Longrightarrow> ted_pending (ted_of d' x) = ted_pending (ted_of d x)"
  by (auto simp: tgt_grant_alloc_def Let_def split: if_split_asm option.split_asm)

lemma connect_inv:
  assumes "tgt_grant_connect_locked d e data new want chunk left = Some (d', data')"
  shows "\<exists>g d1 f. tgt_grant_alloc d e (ted_grant (ted_of d e)) want left chunk new = Some (g, d1) \<and>
    d' = upd_tgd f (upd_ted e (\<lambda>ted. ted\<lparr>ted_dirty := 0\<rparr>) d1) \<and>
    (\<forall>t. tgd_tot_granted (f t) = tgd_tot_granted t \<and> tgd_osfs (f t) = tgd_osfs t \<and> tgd_blockbits (f t) = tgd_blockbits t)"
proof -
  have c: "upd_ted e g (upd_tgd f x) = upd_tgd f (upd_ted e g x)" for f g x
    by (simp add: upd_ted_def upd_tgd_def ted_of_def)
  have cc: "upd_tgd f (upd_tgd g x) = upd_tgd (\<lambda>t. f (g t)) x" for f g x
    by (simp add: upd_tgd_def)
  show ?thesis using assms unfolding tgt_grant_connect_locked_def Let_def c
    by (erule_tac bind_SomeE) (fastforce simp: cc split: if_split_asm)
qed

lemma connect_pending:
  assumes "tgt_grant_connect_locked d e data new want chunk left = Some (d', data')"
  shows "ted_pending (ted_of d' x) = ted_pending (ted_of d x)"
proof -
  obtain g d1 f where 1: "tgt_grant_alloc d e (ted_grant (ted_of d e)) want left chunk new = Some (g, d1)"
    "d' = upd_tgd f (upd_ted e (\<lambda>ted. ted\<lparr>ted_dirty := 0\<rparr>) d1)" using connect_inv [OF assms] by blast
  show ?thesis using alloc_pending [OF 1(1)] 1(2) by simp
qed

lemma discard_pending: "tgt_grant_discard d e = Some d' \<Longrightarrow> ted_pending (ted_of d' x) = ted_pending (ted_of d x)"
  by (auto simp: tgt_grant_discard_def Let_def split: if_split_asm)

lemma discard_zero: "tgt_grant_discard d e = Some d' \<Longrightarrow> ted_grant (ted_of d' e) = 0 \<and> ted_dirty (ted_of d' e) = 0"
  by (auto simp: tgt_grant_discard_def Let_def split: if_split_asm)

lemma check_pending:
  "tgt_grant_check d e oa rnb left = Some (d', oa', rnb', left') \<Longrightarrow>
   ted_pending (ted_of d' x) = ted_pending (ted_of d x) + (if x = e then o_grant_used oa' else 0)"
  by (auto simp: tgt_grant_check_def Let_def split: if_split_asm prod.split_asm)

lemma read_pending: "tgt_grant_read_locked d e oa = Some (d', oa') \<Longrightarrow> ted_pending (ted_of d' x) = ted_pending (ted_of d x)"
  by (drule read_locked_inv) (auto dest: incoming_pending simp: shrink_pending)

lemma write_pending:
  assumes "tgt_grant_write_locked d e oa rnb left chunk = Some (d', oa', rnb')"
  shows "ted_pending (ted_of d' x) = ted_pending (ted_of d x) + (if x = e then o_grant_used oa' else 0)"
proof -
  obtain d1 oa1 d2 oa2 left2 where w: "tgt_grant_incoming d e oa chunk = Some (d1, oa1)"
    "tgt_grant_check d1 e oa1 rnb left = Some (d2, oa2, rnb', left2)" "o_grant_used oa' = o_grant_used oa2"
    "if \<not> has (o_valid oa2) OBD_MD_FLGRANT then d' = d2
     else if shrinking oa2 then d' = fst (tgt_grant_shrink d2 e oa2 left2)
     else \<exists>g. tgt_grant_alloc d2 e (o_grant oa2) (ucast (o_undirty oa2)) left2 chunk True = Some (g, d')"
    using write_locked_inv [OF assms] by blast
  have "ted_pending (ted_of d' x) = ted_pending (ted_of d2 x)"
    using w(4) shrink_pending alloc_pending by (auto split: if_split_asm)
  then show ?thesis using incoming_pending [OF w(1)] check_pending [OF w(2)] w(3) by simp
qed

lemma take_pending: "ted_pending (ted_of (fst (create_take d e w left)) x) = ted_pending (ted_of d x) + (if x = e then w else 0)"
  by (simp add: create_take_def Let_def)

lemma create_pending:
  assumes "tgt_grant_create_locked d e nr = Some (d', Inr (g, nr'))"
  shows "ted_pending (ted_of d' x) = ted_pending (ted_of d x) + (if x = e then g else 0)"
proof -
  obtain d1 left1 where t: "create_take d e g (tgt_grant_space_left (lut_tgd d)) = (d1, left1)"
    "d' = d1 \<or> (\<exists>want g. tgt_grant_alloc d1 e (ted_grant (ted_of d1 e)) want left1 (tgt_grant_chunk d1 e None) False = Some (g, d'))"
    using create_locked_inv [OF assms] by blast
  have "ted_pending (ted_of d' x) = ted_pending (ted_of d1 x)" using t(2) alloc_pending by auto
  then show ?thesis using take_pending [of d e g "tgt_grant_space_left (lut_tgd d)" x] t(1) by simp
qed

lemma commit_pending:
  "tgt_grant_commit d e p rc = Some d' \<Longrightarrow> ted_pending (ted_of d' x) = ted_pending (ted_of d x) - (if x = e then p else 0)"
  by (auto simp: tgt_grant_commit_def Let_def split: if_split_asm)

section \<open>The service threads\<close>

definition all_exps :: "obd_device \<Rightarrow> nat list" where
  "all_exps d = obd_self_export d # obd_exports d @ obd_unlinked_exports d"

text \<open>
  A running call of \<open>dt_statfs\<close>: the value of the in-flight counter that it noted, the bytes of the writes that have
  committed since, and the answer of the backend once it is there.
\<close>

record statfs_call =
  sc_unstable :: u64
  sc_committed :: nat
  sc_osfs :: "obd_statfs option"

text \<open>
  The device, the space that writes and creations in progress have reserved and will release
  with one \<open>tgt_grant_commit\<close> each, the running calls of \<open>dt_statfs\<close>, and the bytes that the backend
  has available. The blocks that a write in progress has been given count as available until its commit.
  \<open>sc_committed\<close> and \<open>gs_avail\<close> are no data of the target: no operation reads them.
\<close>

record grant_sys =
  gs_dev :: obd_device
  gs_out :: "(nat \<times> u64) list"
  gs_statfs :: "statfs_call list"
  gs_avail :: nat

text \<open>
  A client is fair when it does not give back more grant than the target has on record for it.
\<close>

definition fair_read :: "obd_device \<Rightarrow> nat \<Rightarrow> obdo \<Rightarrow> bool" where
  "fair_read d e oa \<longleftrightarrow> shrinking oa \<longrightarrow>
     (case tgt_grant_incoming d e oa (tgt_grant_chunk d e None) of
        None \<Rightarrow> True | Some (d1, oa1) \<Rightarrow> o_grant oa1 \<le> ted_grant (ted_of d1 e))"

definition fair_write :: "obd_device \<Rightarrow> nat \<Rightarrow> obdo \<Rightarrow> niobuf_remote list \<Rightarrow> u64 \<Rightarrow> bool" where
  "fair_write d e oa rnb left \<longleftrightarrow>
     (case Option.bind (tgt_grant_incoming d e oa (tgt_grant_chunk d e None)) (\<lambda>(d1, oa1). tgt_grant_check d1 e oa1 rnb left) of
        None \<Rightarrow> True | Some (d2, oa2, _) \<Rightarrow> shrinking oa2 \<longrightarrow> o_grant oa2 \<le> ted_grant (ted_of d2 e))"

text \<open>
  One step is one section under \<open>tgd_grant_lock\<close> or \<open>tgd_osfs_lock\<close>, so every interleaving of the service threads
  is a sequence of steps. Any operation may come with any argument; a commit takes \<open>c\<close> bytes from the backend.
  With \<open>fair\<close> the steps are those of fair clients on a backend that keeps its word: it reports no more than it has
  available when it is asked, a write that commits takes whole blocks and at most what it reserved, one that fails takes
  none, nobody else takes space, and there are never more than \<open>B\<close> bytes available. So a client does not claim
  less for a request than its buffers take, and a replayed or resent write, which reserves nothing, overwrites blocks that the
  file has already. Moreover the chunks have at
  most \<open>2 ^ 40\<close> bytes, there are fewer than \<open>2 ^ 20\<close> exports, \<open>tgd_statfs_inflight\<close> does not wrap around and
  fewer than \<open>2 ^ 64\<close> bytes commit during one call of \<open>dt_statfs\<close>.
\<close>

inductive grant_step :: "bool \<Rightarrow> nat \<Rightarrow> grant_sys \<Rightarrow> grant_sys \<Rightarrow> bool" for fair B where
  statfs_begin: "tgt_statfs_begin (lut_tgd d) = (u, tgd) \<Longrightarrow> (fair \<Longrightarrow> tgd_statfs_inflight (lut_tgd d) + 1 \<noteq> 0) \<Longrightarrow>
    grant_step fair B \<lparr>gs_dev = d, gs_out = out, gs_statfs = sf, gs_avail = av\<rparr>
      \<lparr>gs_dev = d\<lparr>lut_tgd := tgd\<rparr>, gs_out = out, gs_statfs = \<lparr>sc_unstable = u, sc_committed = 0, sc_osfs = None\<rparr> # sf, gs_avail = av\<rparr>"
| statfs_sample: "call \<in> set sf \<Longrightarrow> (fair \<Longrightarrow> unat (os_bavail osfs) * 2 ^ tgd_blockbits (lut_tgd d) \<le> av) \<Longrightarrow>
    grant_step fair B \<lparr>gs_dev = d, gs_out = out, gs_statfs = sf, gs_avail = av\<rparr>
      \<lparr>gs_dev = d, gs_out = out, gs_statfs = call\<lparr>sc_osfs := Some osfs\<rparr> # remove1 call sf, gs_avail = av\<rparr>"
| statfs_end: "call \<in> set sf \<Longrightarrow> sc_osfs call = Some osfs \<Longrightarrow> tgt_statfs_end (sc_unstable call) osfs now (lut_tgd d) = (osfs', tgd) \<Longrightarrow>
    (fair \<Longrightarrow> sc_committed call < 2 ^ 64) \<Longrightarrow>
    grant_step fair B \<lparr>gs_dev = d, gs_out = out, gs_statfs = sf, gs_avail = av\<rparr>
      \<lparr>gs_dev = d\<lparr>lut_tgd := tgd\<rparr>, gs_out = out, gs_statfs = remove1 call sf, gs_avail = av\<rparr>"
| statfs_fail: "call \<in> set sf \<Longrightarrow>
    grant_step fair B \<lparr>gs_dev = d, gs_out = out, gs_statfs = sf, gs_avail = av\<rparr> \<lparr>gs_dev = d, gs_out = out, gs_statfs = remove1 call sf, gs_avail = av\<rparr>"
| new_export: "e \<notin> set (all_exps d) \<Longrightarrow> exp_target_data ex = \<lparr>ted_dirty = 0, ted_grant = 0, ted_pending = 0\<rparr> \<Longrightarrow>
    (fair \<Longrightarrow> length (all_exps d) < 2 ^ 20) \<Longrightarrow>
    grant_step fair B \<lparr>gs_dev = d, gs_out = out, gs_statfs = sf, gs_avail = av\<rparr>
      \<lparr>gs_dev = d\<lparr>obd_exp := (obd_exp d)(e := ex), obd_exports := e # obd_exports d\<rparr>, gs_out = out, gs_statfs = sf, gs_avail = av\<rparr>"
| connect: "e \<in> set (all_exps d) \<Longrightarrow>
    tgt_grant_connect_locked d e data new_conn want (tgt_grant_chunk d e (Some data)) (tgt_grant_space_left (lut_tgd d)) = Some (d', data') \<Longrightarrow>
    (fair \<Longrightarrow> unat (tgt_grant_chunk d e (Some data)) \<le> 2 ^ 40) \<Longrightarrow>
    grant_step fair B \<lparr>gs_dev = d, gs_out = out, gs_statfs = sf, gs_avail = av\<rparr> \<lparr>gs_dev = d', gs_out = out, gs_statfs = sf, gs_avail = av\<rparr>"
| bulk_read: "e \<in> set (all_exps d) \<Longrightarrow> tgt_grant_read_locked d e oa = Some (d', oa') \<Longrightarrow>
    (fair \<Longrightarrow> unat (tgt_grant_chunk d e None) \<le> 2 ^ 40 \<and> fair_read d e oa) \<Longrightarrow>
    grant_step fair B \<lparr>gs_dev = d, gs_out = out, gs_statfs = sf, gs_avail = av\<rparr> \<lparr>gs_dev = d', gs_out = out, gs_statfs = sf, gs_avail = av\<rparr>"
| bulk_write: "e \<in> set (all_exps d) \<Longrightarrow>
    tgt_grant_write_locked d e oa rnb (tgt_grant_space_left (lut_tgd d)) (tgt_grant_chunk d e None) = Some (d', oa', rnb') \<Longrightarrow>
    (fair \<Longrightarrow> unat (tgt_grant_chunk d e None) \<le> 2 ^ 40 \<and> fair_write d e oa rnb (tgt_grant_space_left (lut_tgd d))) \<Longrightarrow>
    grant_step fair B \<lparr>gs_dev = d, gs_out = out, gs_statfs = sf, gs_avail = av\<rparr> \<lparr>gs_dev = d', gs_out = (e, o_grant_used oa') # out, gs_statfs = sf, gs_avail = av\<rparr>"
| create: "tgt_grant_create_locked d (obd_self_export d) nr = Some (d', r) \<Longrightarrow>
    (fair \<Longrightarrow> unat (tgt_grant_chunk d (obd_self_export d) None) \<le> 2 ^ 40) \<Longrightarrow>
    grant_step fair B \<lparr>gs_dev = d, gs_out = out, gs_statfs = sf, gs_avail = av\<rparr>
      \<lparr>gs_dev = d', gs_out = (case r of Inl _ \<Rightarrow> out | Inr (g, _) \<Rightarrow> (obd_self_export d, g) # out), gs_statfs = sf, gs_avail = av\<rparr>"
| commit: "(e, p) \<in> set out \<Longrightarrow> tgt_grant_commit d e p rc = Some d' \<Longrightarrow>
    (fair \<Longrightarrow> c \<le> unat p \<and> 2 ^ tgd_blockbits (lut_tgd d) dvd c \<and> c \<le> av \<and> (rc \<noteq> 0 \<longrightarrow> c = 0)) \<Longrightarrow>
    grant_step fair B \<lparr>gs_dev = d, gs_out = out, gs_statfs = sf, gs_avail = av\<rparr>
      \<lparr>gs_dev = d', gs_out = remove1 (e, p) out,
       gs_statfs = (if rc = 0 then map (\<lambda>call. call\<lparr>sc_committed := sc_committed call + unat p\<rparr>) sf else sf), gs_avail = av - c\<rparr>"
| disconnect: "e \<in> set (obd_exports d) \<Longrightarrow> tgt_grant_discard d e = Some d' \<Longrightarrow>
    grant_step fair B \<lparr>gs_dev = d, gs_out = out, gs_statfs = sf, gs_avail = av\<rparr>
      \<lparr>gs_dev = d'\<lparr>obd_exports := remove1 e (obd_exports d'), obd_unlinked_exports := e # obd_unlinked_exports d'\<rparr>, gs_out = out, gs_statfs = sf, gs_avail = av\<rparr>"
| destroy: "e \<in> set (obd_unlinked_exports d) \<Longrightarrow> e \<notin> fst ` set out \<Longrightarrow> tgt_grant_discard d e = Some d' \<Longrightarrow>
    grant_step fair B \<lparr>gs_dev = d, gs_out = out, gs_statfs = sf, gs_avail = av\<rparr>
      \<lparr>gs_dev = d'\<lparr>obd_unlinked_exports := remove1 e (obd_unlinked_exports d')\<rparr>, gs_out = out, gs_statfs = sf, gs_avail = av\<rparr>"
| tunable: "tgt_grant_compat_disable_seq_write val len d = (rc, d') \<Longrightarrow>
    grant_step fair B \<lparr>gs_dev = d, gs_out = out, gs_statfs = sf, gs_avail = av\<rparr> \<lparr>gs_dev = d', gs_out = out, gs_statfs = sf, gs_avail = av\<rparr>"
| export_state: "grant_step fair B \<lparr>gs_dev = d, gs_out = out, gs_statfs = sf, gs_avail = av\<rparr>
      \<lparr>gs_dev = d\<lparr>obd_exp := (obd_exp d)(e := (obd_exp d e)\<lparr>exp_connect_flags := flags, exp_brw_size := brw, exp_failed := failed\<rparr>)\<rparr>,
       gs_out = out, gs_statfs = sf, gs_avail = av\<rparr>"
| device_state: "grant_step fair B \<lparr>gs_dev = d, gs_out = out, gs_statfs = sf, gs_avail = av\<rparr>
      \<lparr>gs_dev = d\<lparr>obd_recovering := rec, obd_num_exports := num,
                 lut_tgd := (lut_tgd d)\<lparr>tgd_tot_granted_clients := clients, tgd_reserved_pcnt := pcnt\<rparr>\<rparr>,
       gs_out = out, gs_statfs = sf, gs_avail = av\<rparr>"
| space_freed: "(fair \<Longrightarrow> av + n \<le> B) \<Longrightarrow> grant_step fair B \<lparr>gs_dev = d, gs_out = out, gs_statfs = sf, gs_avail = av\<rparr> \<lparr>gs_dev = d, gs_out = out, gs_statfs = sf, gs_avail = av + n\<rparr>"

text \<open>
  \<open>export_state\<close> and \<open>device_state\<close> are what other code does between the sections: a client reconnects with other
  flags or another bulk size or is evicted, the recovery begins or ends, exports and granted clients are counted, the reserved
  percentage is set.
\<close>

text \<open>A target that has just been set up: only the self export, and no space granted.\<close>

definition grant_start :: "bool \<Rightarrow> nat \<Rightarrow> grant_sys \<Rightarrow> bool" where
  "grant_start fair B s \<longleftrightarrow>
     (let d = gs_dev s; tgd = lut_tgd d in
      gs_out s = [] \<and> gs_statfs s = [] \<and> obd_exports d = [] \<and> obd_unlinked_exports d = [] \<and>
      tgd_tot_granted tgd = 0 \<and> tgd_tot_pending tgd = 0 \<and> tgd_tot_dirty tgd = 0 \<and>
      ted_of d (obd_self_export d) = \<lparr>ted_dirty = 0, ted_grant = 0, ted_pending = 0\<rparr> \<and>
      (fair \<longrightarrow> gs_avail s \<le> B \<and> B \<le> 2 ^ 61 \<and> tgd_blockbits tgd \<le> 30 \<and>
         unat (os_bavail (tgd_osfs tgd)) * 2 ^ tgd_blockbits tgd \<le> gs_avail s))"

inductive grant_run :: "bool \<Rightarrow> nat \<Rightarrow> grant_sys \<Rightarrow> bool" for fair B where
  start: "grant_start fair B s \<Longrightarrow> grant_run fair B s"
| step: "grant_run fair B s \<Longrightarrow> grant_step fair B s s' \<Longrightarrow> grant_run fair B s'"

definition reserved :: "(nat \<times> u64) list \<Rightarrow> nat \<Rightarrow> u64" where
  "reserved out e = sum_list (map snd (filter (\<lambda>p. fst p = e) out))"

definition acct :: "grant_sys \<Rightarrow> bool" where
  "acct s \<longleftrightarrow>
     (let d = gs_dev s; tgd = lut_tgd d in
      distinct (all_exps d) \<and> fst ` set (gs_out s) \<subseteq> set (all_exps d) \<and>
      tgd_tot_granted tgd = (\<Sum>e \<leftarrow> all_exps d. ted_grant (ted_of d e) + ted_pending (ted_of d e)) \<and>
      tgd_tot_pending tgd = (\<Sum>e \<leftarrow> all_exps d. ted_pending (ted_of d e)) \<and>
      tgd_tot_dirty tgd = (\<Sum>e \<leftarrow> all_exps d. ted_dirty (ted_of d e)) \<and>
      (\<forall>e \<in> set (all_exps d). ted_pending (ted_of d e) = reserved (gs_out s) e))"

lemma sum_list_upd:
  fixes f g :: "'a \<Rightarrow> 'b::ab_group_add"
  assumes "distinct xs" "e \<in> set xs" "\<And>x. x \<noteq> e \<Longrightarrow> g x = f x"
  shows "sum_list (map g xs) = sum_list (map f xs) + (g e - f e)"
proof -
  have "sum g (set xs - {e}) = sum f (set xs - {e})" using assms(3) by (intro sum.cong) auto
  then show ?thesis using assms(1,2) sum.remove [of "set xs" e g] sum.remove [of "set xs" e f]
    by (simp add: sum_list_distinct_conv_sum_set algebra_simps)
qed

lemma sum_list_keep:
  fixes f g :: "'a \<Rightarrow> 'b::ab_group_add"
  assumes "distinct xs" "e \<in> set xs" "\<And>x. x \<noteq> e \<Longrightarrow> g x = f x" "t = sum_list (map f xs)" "t' - g e = t - f e"
  shows "t' = sum_list (map g xs)"
proof -
  have "t' = t - f e + g e" using assms(5) by (metis diff_add_cancel)
  moreover have "sum_list (map g xs) = t + (g e - f e)" using sum_list_upd [OF assms(1,2), of g f] assms(3,4) by simp
  ultimately show ?thesis by simp
qed

lemma keeps_all_exps: "keeps e d d' \<Longrightarrow> all_exps d' = all_exps d"
  by (simp add: keeps_def all_exps_def)

lemma reserved_Cons [simp]: "reserved ((x, p) # out) e = (if x = e then p else 0) + reserved out e"
  by (simp add: reserved_def)

lemma reserved_remove1: "(x, p) \<in> set out \<Longrightarrow> reserved (remove1 (x, p) out) e = reserved out e - (if x = e then p else 0)"
  by (induction out) (auto simp: reserved_def)

text \<open>Any operation that \<open>keeps\<close> and whose reservations are noted preserves the accounting.\<close>

lemma acct_keeps:
  assumes "acct \<lparr>gs_dev = d, gs_out = out, gs_statfs = sf, gs_avail = av\<rparr>" "keeps e d d'" "e \<in> set (all_exps d)"
    and "fst ` set out' \<subseteq> set (all_exps d)"
    and "\<And>x. ted_pending (ted_of d' x) - ted_pending (ted_of d x) = reserved out' x - reserved out x"
  shows "acct \<lparr>gs_dev = d', gs_out = out', gs_statfs = sf', gs_avail = av'\<rparr>"
proof -
  note a = assms(1) [unfolded acct_def Let_def, simplified]
  note k = assms(2) [unfolded keeps_def]
  have dis: "distinct (all_exps d)" using a by blast
  have same: "ted_of d' x = ted_of d x" if "x \<noteq> e" for x using k that by blast
  have t: "tgd_tot_granted (lut_tgd d) = (\<Sum>e \<leftarrow> all_exps d. ted_grant (ted_of d e) + ted_pending (ted_of d e))"
    "tgd_tot_pending (lut_tgd d) = (\<Sum>e \<leftarrow> all_exps d. ted_pending (ted_of d e))"
    "tgd_tot_dirty (lut_tgd d) = (\<Sum>e \<leftarrow> all_exps d. ted_dirty (ted_of d e))"
    using a by blast+
  have eq: "tgd_tot_granted (lut_tgd d') - (ted_grant (ted_of d' e) + ted_pending (ted_of d' e)) =
       tgd_tot_granted (lut_tgd d) - (ted_grant (ted_of d e) + ted_pending (ted_of d e))"
     "tgd_tot_pending (lut_tgd d') - ted_pending (ted_of d' e) = tgd_tot_pending (lut_tgd d) - ted_pending (ted_of d e)"
     "tgd_tot_dirty (lut_tgd d') - ted_dirty (ted_of d' e) = tgd_tot_dirty (lut_tgd d) - ted_dirty (ted_of d e)"
    using k by blast+
  have "tgd_tot_granted (lut_tgd d') = (\<Sum>e \<leftarrow> all_exps d. ted_grant (ted_of d' e) + ted_pending (ted_of d' e))"
    by (rule sum_list_keep [OF dis assms(3) _ t(1)]) (simp_all only: same eq not_False_eq_True)
  moreover have "tgd_tot_pending (lut_tgd d') = (\<Sum>e \<leftarrow> all_exps d. ted_pending (ted_of d' e))"
    by (rule sum_list_keep [OF dis assms(3) _ t(2)]) (simp_all only: same eq not_False_eq_True)
  moreover have "tgd_tot_dirty (lut_tgd d') = (\<Sum>e \<leftarrow> all_exps d. ted_dirty (ted_of d' e))"
    by (rule sum_list_keep [OF dis assms(3) _ t(3)]) (simp_all only: same eq not_False_eq_True)
  moreover have "ted_pending (ted_of d' x) = reserved out' x" if "x \<in> set (all_exps d)" for x
  proof -
    have "ted_pending (ted_of d x) = reserved out x" using a that by blast
    then show ?thesis using assms(5) [of x] by simp
  qed
  ultimately show ?thesis using dis assms(4) keeps_all_exps [OF assms(2)] by (simp add: acct_def)
qed

lemma acct_out: "acct \<lparr>gs_dev = d, gs_out = out, gs_statfs = sf, gs_avail = av\<rparr> \<Longrightarrow> fst ` set out \<subseteq> set (all_exps d)"
  by (simp add: acct_def Let_def)

lemma acct_same:
  assumes "acct \<lparr>gs_dev = d, gs_out = out, gs_statfs = sf, gs_avail = av\<rparr>" "keeps e d d'" "e \<in> set (all_exps d)"
    "\<And>x. ted_pending (ted_of d' x) = ted_pending (ted_of d x)"
  shows "acct \<lparr>gs_dev = d', gs_out = out, gs_statfs = sf', gs_avail = av'\<rparr>"
  by (rule acct_keeps [OF assms(1-3) acct_out [OF assms(1)]]) (simp add: assms(4))

lemma acct_start: "grant_start fair B s \<Longrightarrow> acct s"
  by (simp add: grant_start_def acct_def all_exps_def reserved_def Let_def)

lemma keeps_tgd:
  assumes "tgd_tot_granted t = tgd_tot_granted (lut_tgd d)" "tgd_tot_pending t = tgd_tot_pending (lut_tgd d)" "tgd_tot_dirty t = tgd_tot_dirty (lut_tgd d)"
  shows "keeps e d (d\<lparr>lut_tgd := t\<rparr>)"
  using assms by (simp add: keeps_def ted_of_def)

text \<open>The list of the exports may be reordered, and an export with zero counters may come or go.\<close>

lemma sum_list_mset: "mset xs = mset ys \<Longrightarrow> sum_list (map f xs) = (sum_list (map f ys) :: 'b::comm_monoid_add)"
  by (metis mset_map sum_mset_sum_list)

lemma acct_perm:
  assumes "acct \<lparr>gs_dev = d, gs_out = out, gs_statfs = sf, gs_avail = av\<rparr>" "mset (all_exps d') = mset (all_exps d)" "lut_tgd d' = lut_tgd d" "ted_of d' = ted_of d"
  shows "acct \<lparr>gs_dev = d', gs_out = out, gs_statfs = sf', gs_avail = av'\<rparr>"
proof -
  have "sum_list (map f (all_exps d')) = sum_list (map f (all_exps d))" for f :: "nat \<Rightarrow> u64"
    using assms(2) by (rule sum_list_mset)
  moreover have "set (all_exps d') = set (all_exps d)" using assms(2) by (rule mset_eq_setD)
  moreover have "distinct (all_exps d') = distinct (all_exps d)" using assms(2) by (rule mset_eq_imp_distinct_iff)
  ultimately show ?thesis using assms by (simp add: acct_def Let_def)
qed

lemma sum_list_remove1': "e \<in> set xs \<Longrightarrow> sum_list (map f (remove1 e xs)) = sum_list (map f xs) - (f e :: 'a::ab_group_add)"
  by (induction xs) (auto simp: algebra_simps)

lemma acct_destroy:
  assumes "acct \<lparr>gs_dev = d, gs_out = out, gs_statfs = sf, gs_avail = av\<rparr>" "e \<in> set (obd_unlinked_exports d)" "e \<notin> fst ` set out"
    "ted_grant (ted_of d e) = 0" "ted_dirty (ted_of d e) = 0"
  shows "acct \<lparr>gs_dev = d\<lparr>obd_unlinked_exports := remove1 e (obd_unlinked_exports d)\<rparr>, gs_out = out, gs_statfs = sf', gs_avail = av'\<rparr>"
proof -
  note a = assms(1) [unfolded acct_def Let_def, simplified]
  let ?d = "d\<lparr>obd_unlinked_exports := remove1 e (obd_unlinked_exports d)\<rparr>"
  have ne: "e \<noteq> obd_self_export d" "e \<notin> set (obd_exports d)" using a assms(2) by (auto simp: all_exps_def)
  then have l: "all_exps ?d = remove1 e (all_exps d)" by (simp add: all_exps_def remove1_append)
  have in': "e \<in> set (all_exps d)" using assms(2) by (simp add: all_exps_def)
  have "reserved out e = 0" using assms(3) by (induction out) (auto simp: reserved_def)
  then have p: "ted_pending (ted_of d e) = 0" using a in' by simp
  have t: "ted_of ?d = ted_of d" by (simp add: ted_of_def fun_eq_iff)
  have "set (all_exps ?d) = set (all_exps d) - {e}" using a l by (simp add: set_remove1_eq)
  moreover have "fst ` set out \<subseteq> set (all_exps d) - {e}" using a assms(3) by auto
  ultimately show ?thesis using a l t in' p assms(4,5) by (simp add: acct_def Let_def sum_list_remove1')
qed

lemma acct_new:
  assumes "acct \<lparr>gs_dev = d, gs_out = out, gs_statfs = sf, gs_avail = av\<rparr>" "e \<notin> set (all_exps d)"
    "exp_target_data ex = \<lparr>ted_dirty = 0, ted_grant = 0, ted_pending = 0\<rparr>"
  shows "acct \<lparr>gs_dev = d\<lparr>obd_exp := (obd_exp d)(e := ex), obd_exports := e # obd_exports d\<rparr>, gs_out = out, gs_statfs = sf', gs_avail = av'\<rparr>"
proof -
  note a = assms(1) [unfolded acct_def Let_def, simplified]
  let ?d = "d\<lparr>obd_exp := (obd_exp d)(e := ex), obd_exports := e # obd_exports d\<rparr>"
  let ?z = "\<lparr>ted_dirty = 0, ted_grant = 0, ted_pending = 0\<rparr>"
  have m: "mset (all_exps ?d) = mset (e # all_exps d)" by (simp add: all_exps_def)
  have t: "ted_of ?d x = (if x = e then ?z else ted_of d x)" for x using assms(3) by (simp add: ted_of_def)
  have s: "sum_list (map (\<lambda>x. f (ted_of ?d x)) (all_exps ?d)) = f ?z + sum_list (map (\<lambda>x. f (ted_of d x)) (all_exps d))" for f :: "tg_export_data \<Rightarrow> u64"
  proof -
    have "sum_list (map (\<lambda>x. f (ted_of ?d x)) (all_exps d)) = sum_list (map (\<lambda>x. f (ted_of d x)) (all_exps d))"
      using t assms(2) by (intro arg_cong [of _ _ sum_list] map_cong) auto
    then show ?thesis using sum_list_mset [OF m, of "\<lambda>x. f (ted_of ?d x)"] t [of e] by simp
  qed
  have "e \<notin> fst ` set out" using a assms(2) by blast
  then have r: "reserved out e = 0" by (induction out) (auto simp: reserved_def)
  have d: "distinct (all_exps ?d)" "set (all_exps ?d) = insert e (set (all_exps d))"
    using a assms(2) m mset_eq_imp_distinct_iff [OF m] mset_eq_setD [OF m] by simp_all
  have "fst ` set out \<subseteq> set (all_exps ?d)" using a d(2) by blast
  moreover have "\<forall>x \<in> set (all_exps ?d). ted_pending (ted_of ?d x) = reserved out x"
    unfolding d(2) t using r a by simp
  moreover have "tgd_tot_granted (lut_tgd ?d) = (\<Sum>x \<leftarrow> all_exps ?d. ted_grant (ted_of ?d x) + ted_pending (ted_of ?d x))"
    unfolding s [of "\<lambda>x. ted_grant x + ted_pending x"] using a by simp
  moreover have "tgd_tot_pending (lut_tgd ?d) = (\<Sum>x \<leftarrow> all_exps ?d. ted_pending (ted_of ?d x))" unfolding s [of ted_pending] using a by simp
  moreover have "tgd_tot_dirty (lut_tgd ?d) = (\<Sum>x \<leftarrow> all_exps ?d. ted_dirty (ted_of ?d x))" unfolding s [of ted_dirty] using a by simp
  ultimately show ?thesis using d(1) unfolding acct_def Let_def grant_sys.select_convs by blast
qed

lemma self_in [simp]: "obd_self_export d \<in> set (all_exps d)"
  by (simp add: all_exps_def)

lemma acct_step:
  assumes "grant_step fair B s s'" "acct s"
  shows "acct s'"
  using assms(1)
proof cases
  case (statfs_begin d u tgd out sf av)
  have "keeps (obd_self_export d) d (d\<lparr>lut_tgd := tgd\<rparr>)"
    using statfs_begin_sel [of "lut_tgd d"] statfs_begin(3) by (intro keeps_tgd) simp_all
  from acct_same [OF assms(2) [unfolded statfs_begin(1)] this self_in] show ?thesis unfolding statfs_begin(2) by (simp add: ted_of_def)
next
  case (statfs_sample call sf osfs d av out)
  show ?thesis using assms(2) unfolding statfs_sample by (simp add: acct_def)
next
  case (statfs_end call sf osfs now d osfs' tgd out av)
  have "keeps (obd_self_export d) d (d\<lparr>lut_tgd := tgd\<rparr>)"
    using statfs_end_sel [of "sc_unstable call" osfs now "lut_tgd d"] statfs_end(5) by (intro keeps_tgd) simp_all
  from acct_same [OF assms(2) [unfolded statfs_end(1)] this self_in] show ?thesis unfolding statfs_end(2) by (simp add: ted_of_def)
next
  case (statfs_fail call sf d out av)
  show ?thesis using assms(2) unfolding statfs_fail by (simp add: acct_def)
next
  case (new_export e d ex out sf av)
  show ?thesis using acct_new assms(2) new_export by blast
next
  case (connect e d data new_conn want d' data' out sf av)
  show ?thesis unfolding connect(2)
    by (rule acct_same [OF assms(2) [unfolded connect(1)] keeps_connect_locked [OF connect(4)] connect(3)]) (rule connect_pending [OF connect(4)])
next
  case (bulk_read e d oa d' oa' out sf av)
  show ?thesis unfolding bulk_read(2)
    by (rule acct_same [OF assms(2) [unfolded bulk_read(1)] keeps_read_locked [OF bulk_read(4)] bulk_read(3)]) (rule read_pending [OF bulk_read(4)])
next
  case (bulk_write e d oa rnb d' oa' rnb' out sf av)
  show ?thesis unfolding bulk_write(2)
    using bulk_write(3) acct_out [OF assms(2) [unfolded bulk_write(1)]]
    by (intro acct_keeps [OF assms(2) [unfolded bulk_write(1)] keeps_write_locked [OF bulk_write(4)] bulk_write(3)])
      (simp_all add: write_pending [OF bulk_write(4)])
next
  case (create d nr d' r out sf av)
  let ?out = "case r of Inl _ \<Rightarrow> out | Inr (g, _) \<Rightarrow> (obd_self_export d, g) # out"
  have p: "ted_pending (ted_of d' x) - ted_pending (ted_of d x) = reserved ?out x - reserved out x" for x
  proof (cases r)
    case (Inl rc)
    then show ?thesis using create_locked_fails create(3) by fastforce
  next
    case (Inr q)
    then show ?thesis using create_pending [of d "obd_self_export d" nr d' "fst q" "snd q" x] create(3) by (cases q) simp
  qed
  have "fst ` set ?out \<subseteq> set (all_exps d)" using acct_out [OF assms(2) [unfolded create(1)]] by (auto split: sum.splits)
  then show ?thesis unfolding create(2)
    by (rule acct_keeps [OF assms(2) [unfolded create(1)] keeps_create_locked [OF create(3)] self_in]) (rule p)
next
  case (commit e p out d rc d' c av sf)
  have o: "fst ` set out \<subseteq> set (all_exps d)" by (rule acct_out [OF assms(2) [unfolded commit(1)]])
  then have e: "e \<in> set (all_exps d)" using commit(3) by force
  have "fst ` set (remove1 (e, p) out) \<subseteq> set (all_exps d)" using o set_remove1_subset [of "(e, p)" out] by blast
  then show ?thesis unfolding commit(2)
    by (rule acct_keeps [OF assms(2) [unfolded commit(1)] keeps_commit [OF commit(4)] e])
      (simp add: commit_pending [OF commit(4)] reserved_remove1 [OF commit(3)])
next
  case (disconnect e d d' out sf av)
  have e: "e \<in> set (all_exps d)" using disconnect(3) by (simp add: all_exps_def)
  have "acct \<lparr>gs_dev = d', gs_out = out, gs_statfs = sf, gs_avail = av\<rparr>"
    by (rule acct_same [OF assms(2) [unfolded disconnect(1)] keeps_discard [OF disconnect(4)] e]) (rule discard_pending [OF disconnect(4)])
  moreover have "e \<in> set (obd_exports d')" using disconnect(3) keeps_discard [OF disconnect(4)] by (simp add: keeps_def)
  ultimately show ?thesis unfolding disconnect(2) by (elim acct_perm) (simp_all add: all_exps_def ted_of_def fun_eq_iff)
next
  case (destroy e d out d' sf av)
  have e: "e \<in> set (all_exps d)" using destroy(3) by (simp add: all_exps_def)
  have "acct \<lparr>gs_dev = d', gs_out = out, gs_statfs = sf, gs_avail = av\<rparr>"
    by (rule acct_same [OF assms(2) [unfolded destroy(1)] keeps_discard [OF destroy(5)] e]) (rule discard_pending [OF destroy(5)])
  moreover have "e \<in> set (obd_unlinked_exports d')" using destroy(3) keeps_discard [OF destroy(5)] by (simp add: keeps_def)
  ultimately show ?thesis unfolding destroy(2) using destroy(4) discard_zero [OF destroy(5)] by (intro acct_destroy) simp_all
next
  case (tunable val len d rc d' out sf av)
  have "d' = d \<or> (\<exists>b. d' = upd_tgd (\<lambda>tgd. tgd\<lparr>tgd_grant_compat_disable := b\<rparr>) d)"
    using tunable(3) by (auto simp: tgt_grant_compat_disable_seq_write_def split: sum.split_asm)
  then have k: "keeps (obd_self_export d) d d'" and t: "\<And>x. ted_of d' x = ted_of d x" by (auto simp: keeps_def)
  show ?thesis unfolding tunable(2) by (rule acct_same [OF assms(2) [unfolded tunable(1)] k self_in]) (simp add: t)
next
  case (export_state d out sf av e flags brw failed)
  show ?thesis unfolding export_state(2)
    by (rule acct_same [OF assms(2) [unfolded export_state(1)], of "obd_self_export d"]) (simp_all add: keeps_def ted_of_def)
next
  case (device_state d out sf av rec num clients pcnt)
  show ?thesis unfolding device_state(2)
    by (rule acct_same [OF assms(2) [unfolded device_state(1)], of "obd_self_export d"]) (simp_all add: keeps_def ted_of_def)
next
  case (space_freed av n d out sf)
  show ?thesis using assms(2) unfolding space_freed by (simp add: acct_def)
qed

lemma acct_run: "grant_run fair B s \<Longrightarrow> acct s"
  by (induction rule: grant_run.induct) (auto intro: acct_start acct_step)

lemma check_exports_sum:
  "check_exports d es (a, b, c) m = Some (x, y, z) \<Longrightarrow>
   x = a + (\<Sum>e \<leftarrow> es. ted_dirty (ted_of d e)) \<and> y = b + (\<Sum>e \<leftarrow> es. ted_pending (ted_of d e)) \<and>
   z = c + (\<Sum>e \<leftarrow> es. ted_grant (ted_of d e) + ted_pending (ted_of d e))"
proof (induction es arbitrary: a b c)
  case (Cons e es)
  then show ?case using Cons.IH [of "a + ted_dirty (ted_of d e)" "b + ted_pending (ted_of d e)" "c + (ted_grant (ted_of d e) + ted_pending (ted_of d e))"]
    by (simp add: tgt_check_export_grants_def add.assoc split: if_split_asm)
qed simp

lemma sanity_inv:
  assumes "tgt_grant_sanity_check d = Some errs"
  shows "errs = [] \<or> (\<exists>x y z. errs = (if z \<noteq> tgd_tot_granted (lut_tgd d) then [TotGrantedDiffers] else []) @
      (if y \<noteq> tgd_tot_pending (lut_tgd d) then [TotPendingDiffers] else []) @
      (if x \<noteq> tgd_tot_dirty (lut_tgd d) then [TotDirtyDiffers] else []) @ (if y > z then [PendingOverGranted] else []) @
      (if z > push_bit (tgd_blockbits (lut_tgd d)) (os_blocks (tgd_osfs (lut_tgd d))) then [GrantedOverSize] else []) @
      (if x > push_bit (tgd_blockbits (lut_tgd d)) (os_blocks (tgd_osfs (lut_tgd d))) then [DirtyOverSize] else []) \<and>
    x = (\<Sum>e \<leftarrow> all_exps d. ted_dirty (ted_of d e)) \<and> y = (\<Sum>e \<leftarrow> all_exps d. ted_pending (ted_of d e)) \<and>
    z = (\<Sum>e \<leftarrow> all_exps d. ted_grant (ted_of d e) + ted_pending (ted_of d e)))"
proof (cases "obd_exports d = [] \<or> obd_num_exports d > 100")
  case True
  then have "tgt_grant_sanity_check d = Some []" by (auto simp: tgt_grant_sanity_check_def)
  then show ?thesis using assms by simp
next
  case False
  let ?m = "push_bit (tgd_blockbits (lut_tgd d)) (os_blocks (tgd_osfs (lut_tgd d)))" and ?t = "ted_of d (obd_self_export d)"
  let ?errs = "\<lambda>(x, y, z). Some ((if z \<noteq> tgd_tot_granted (lut_tgd d) then [TotGrantedDiffers] else []) @
      (if y \<noteq> tgd_tot_pending (lut_tgd d) then [TotPendingDiffers] else []) @
      (if x \<noteq> tgd_tot_dirty (lut_tgd d) then [TotDirtyDiffers] else []) @ (if y > z then [PendingOverGranted] else []) @
      (if z > ?m then [GrantedOverSize] else []) @ (if x > ?m then [DirtyOverSize] else []))"
  have "obd_exports d \<noteq> []" "\<not> obd_num_exports d > 100" using False by simp_all
  then have eq: "Option.bind (check_exports d (obd_exports d) (ted_dirty ?t, ted_pending ?t, ted_grant ?t + ted_pending ?t) ?m)
      (\<lambda>sums. Option.bind (check_exports d (obd_unlinked_exports d) sums ?m) ?errs) = Some errs"
    using assms unfolding tgt_grant_sanity_check_def Let_def by (simp only: if_False)
  obtain s1 where 1: "check_exports d (obd_exports d) (ted_dirty ?t, ted_pending ?t, ted_grant ?t + ted_pending ?t) ?m = Some s1"
    "Option.bind (check_exports d (obd_unlinked_exports d) s1 ?m) ?errs = Some errs"
    by (rule bind_SomeE [OF eq])
  obtain s2 where 2: "check_exports d (obd_unlinked_exports d) s1 ?m = Some s2" "?errs s2 = Some errs"
    by (rule bind_SomeE [OF 1(2)])
  obtain x y z x' y' z' where s: "s1 = (x, y, z)" "s2 = (x', y', z')" by (cases s1, cases s2) auto
  have "x' = (\<Sum>e \<leftarrow> all_exps d. ted_dirty (ted_of d e))" "y' = (\<Sum>e \<leftarrow> all_exps d. ted_pending (ted_of d e))"
    "z' = (\<Sum>e \<leftarrow> all_exps d. ted_grant (ted_of d e) + ted_pending (ted_of d e))"
    using check_exports_sum [OF 1(1) [unfolded s]] check_exports_sum [OF 2(1) [unfolded s]]
    by (simp_all add: all_exps_def add.assoc)
  moreover note 2(2) [unfolded s prod.case option.inject, symmetric]
  ultimately show ?thesis by blast
qed

text \<open>
  C5. The accounting of the grants is consistent in every state that any interleaving of the
  service threads can reach, whatever the clients send and whatever overflows: each total is the
  sum of the counters of the exports, modulo \<open>2 ^ 64\<close> as the code adds them up, and the pending
  counter of an export is the sum of its reservations still to be committed. So the sanity check
  never reports a total that differs.
\<close>

theorem grant_accounting:
  assumes "grant_run fair B s"
  shows "tgd_tot_granted (lut_tgd (gs_dev s)) = (\<Sum>e \<leftarrow> all_exps (gs_dev s). ted_grant (ted_of (gs_dev s) e) + ted_pending (ted_of (gs_dev s) e)) \<and>
    tgd_tot_pending (lut_tgd (gs_dev s)) = (\<Sum>e \<leftarrow> all_exps (gs_dev s). ted_pending (ted_of (gs_dev s) e)) \<and>
    tgd_tot_dirty (lut_tgd (gs_dev s)) = (\<Sum>e \<leftarrow> all_exps (gs_dev s). ted_dirty (ted_of (gs_dev s) e)) \<and>
    (\<forall>e \<in> set (all_exps (gs_dev s)). ted_pending (ted_of (gs_dev s) e) = reserved (gs_out s) e) \<and>
    (\<forall>errs. tgt_grant_sanity_check (gs_dev s) = Some errs \<longrightarrow>
       TotGrantedDiffers \<notin> set errs \<and> TotPendingDiffers \<notin> set errs \<and> TotDirtyDiffers \<notin> set errs)"
proof -
  let ?d = "gs_dev s"
  have a: "tgd_tot_granted (lut_tgd ?d) = (\<Sum>e \<leftarrow> all_exps ?d. ted_grant (ted_of ?d e) + ted_pending (ted_of ?d e))"
    "tgd_tot_pending (lut_tgd ?d) = (\<Sum>e \<leftarrow> all_exps ?d. ted_pending (ted_of ?d e))"
    "tgd_tot_dirty (lut_tgd ?d) = (\<Sum>e \<leftarrow> all_exps ?d. ted_dirty (ted_of ?d e))"
    "\<forall>e \<in> set (all_exps ?d). ted_pending (ted_of ?d e) = reserved (gs_out s) e"
    using acct_run [OF assms] unfolding acct_def Let_def by blast+
  have "TotGrantedDiffers \<notin> set errs \<and> TotPendingDiffers \<notin> set errs \<and> TotDirtyDiffers \<notin> set errs"
    if sc: "tgt_grant_sanity_check ?d = Some errs" for errs
    using sanity_inv [OF sc] a(1-3) by auto
  then show ?thesis using a by blast
qed

section \<open>Amounts\<close>

text \<open>From here on the counters are small, so the words can be read as natural numbers.\<close>

lemma sint_u64_small: "unat (a :: u64) < 2 ^ 63 \<Longrightarrow> sint a = int (unat a)"
  using sint_eq_unat [of a] by simp

lemma sint_le_small: "unat (a :: u64) < 2 ^ 63 \<Longrightarrow> unat (b :: u64) < 2 ^ 63 \<Longrightarrow> sint a \<le> sint b \<longleftrightarrow> unat a \<le> unat b"
  by (simp only: sint_u64_small of_nat_le_iff)

lemma sint_nonneg_unat: "0 \<le> sint (a :: u64) \<Longrightarrow> unat a < 2 ^ 63"
proof -
  assume a: "0 \<le> sint a"
  have l: "sint a < 2 ^ 63" using sint_lt [of a] by simp
  have "uint a = take_bit 64 (sint a)" using uint_sint [of a] by simp
  also have "\<dots> = sint a" using a l by (intro take_bit_int_eq_self) simp_all
  finally have "int (unat a) < 2 ^ 63" using l by simp
  then show ?thesis by (simp only: flip: of_nat_less_iff [where 'a = int]) simp
qed

lemma unat_sub_lt: "(b :: u64) < a \<Longrightarrow> unat (a - b) = unat a - unat b \<and> unat b < unat a"
  by (simp add: unat_minus_le word_less_nat_alt word_le_nat_alt)

lemma unat_plus_le: "unat ((a :: u64) + b) \<le> unat a + unat b"
  by (simp add: unat_word_ariths)

lemma unat_push_bit_le: "unat (push_bit n (w :: u64)) \<le> unat w * 2 ^ n"
  by (simp only: unsigned_push_bit_eq) (simp add: push_bit_eq_mult take_bit_eq_mod)

lemma space_left_le:
  assumes "unat (os_bavail (tgd_osfs t)) * 2 ^ tgd_blockbits t \<le> B" "B \<le> 2 ^ 61" "unat (tgd_tot_granted t) \<le> 2 ^ 62"
  shows "tgt_grant_space_left t = 0 \<or> unat (tgt_grant_space_left t) + unat (tgd_tot_granted t) \<le> B"
proof -
  let ?left = "push_bit (tgd_blockbits t) (os_bavail (tgd_osfs t))"
  let ?res = "?left * tgd_reserved_pcnt t div 100"
  have l: "unat ?left \<le> B" using assms(1) unat_push_bit_le [of "tgd_blockbits t" "os_bavail (tgd_osfs t)"] by simp
  have r: "unat ?res \<le> 2 ^ 58"
  proof -
    have "unat ?res = unat (?left * tgd_reserved_pcnt t) div 100" by (simp add: unat_div)
    then show ?thesis using unat_lt_bound [of "?left * tgd_reserved_pcnt t"] by simp
  qed
  then have s: "unat (tgd_tot_granted t + ?res) = unat (tgd_tot_granted t) + unat ?res"
    using assms(3) by (intro unat_plus_no_wrap) simp
  show ?thesis
  proof (cases "?left < tgd_tot_granted t + ?res")
    case False
    have "unat (?left - (tgd_tot_granted t + ?res)) = unat ?left - unat (tgd_tot_granted t + ?res)" by (rule unat_minus_le [OF False [unfolded not_less]])
    moreover have "unat (tgd_tot_granted t + ?res) \<le> unat ?left" by (rule False [unfolded not_less word_le_nat_alt])
    moreover have "unat (tgt_grant_space_left t) \<le> unat (?left - (tgd_tot_granted t + ?res))"
      using False word_and_le2 by (auto simp: tgt_grant_space_left_def Let_def word_le_nat_alt)
    ultimately show ?thesis using s l by linarith
  qed (simp add: tgt_grant_space_left_def Let_def)
qed

text \<open>What an operation on \<open>e\<close> leaves alone.\<close>

definition frame :: "nat \<Rightarrow> obd_device \<Rightarrow> obd_device \<Rightarrow> bool" where
  "frame e d d' \<longleftrightarrow> tgd_blockbits (lut_tgd d') = tgd_blockbits (lut_tgd d) \<and>
     os_bavail (tgd_osfs (lut_tgd d')) \<le> os_bavail (tgd_osfs (lut_tgd d)) \<and> lut_dt_conf d' = lut_dt_conf d \<and> obd_recovering d' = obd_recovering d \<and>
     obd_self_export d' = obd_self_export d \<and>
     (\<forall>x. exp_connect_flags (obd_exp d' x) = exp_connect_flags (obd_exp d x) \<and> exp_brw_size (obd_exp d' x) = exp_brw_size (obd_exp d x))"

lemma frame_refl [simp]: "frame e d d"
  by (simp add: frame_def)

lemma frame_trans [trans]: "frame e d d1 \<Longrightarrow> frame e d1 d2 \<Longrightarrow> frame e d d2"
  by (auto simp: frame_def)

lemma frame_upd [simp]: "frame e d (upd_ted e f d)"
  by (simp add: frame_def upd_ted_def)

lemma frame_upd_tgd [simp]: "tgd_blockbits (g (lut_tgd d)) = tgd_blockbits (lut_tgd d) \<Longrightarrow> tgd_osfs (g (lut_tgd d)) = tgd_osfs (lut_tgd d) \<Longrightarrow>
    frame e d' d \<Longrightarrow> frame e d' (upd_tgd g d)"
  by (simp add: frame_def)

lemma frame_upd_ted [simp]: "frame e d' d \<Longrightarrow> frame e d' (upd_ted e f d)"
  by (rule frame_trans [OF _ frame_upd])

lemma frame_supp: "frame e d d' \<Longrightarrow> exp_grant_param_supp (obd_exp d' x) = exp_grant_param_supp (obd_exp d x)"
  by (simp add: frame_def exp_grant_param_supp_def)

lemma frame_chunk:
  assumes "frame e d d'"
  shows "tgt_grant_chunk d' x data = tgt_grant_chunk d x data"
proof -
  have "exp_max_brw_size (obd_exp d' x) = exp_max_brw_size (obd_exp d x)" "tgt_grant_inflate (lut_tgd d') = tgt_grant_inflate (lut_tgd d)"
    "lut_dt_conf d' = lut_dt_conf d" "obd_self_export d' = obd_self_export d" "tgd_blockbits (lut_tgd d') = tgd_blockbits (lut_tgd d)"
    using assms by (simp_all add: frame_def exp_max_brw_size_def tgt_grant_inflate_def fun_eq_iff)
  then show ?thesis unfolding tgt_grant_chunk_def Let_def frame_supp [OF assms] by (simp only:)
qed

lemma incoming_amounts:
  assumes "tgt_grant_incoming d e oa chunk = Some (d', oa')"
    and "unat (ted_grant (ted_of d e)) \<le> 2 ^ 62" "unat chunk \<le> 2 ^ 40"
  shows "frame e d d' \<and> unat (ted_grant (ted_of d' e)) \<le> unat (ted_grant (ted_of d e)) \<and>
    unat (ted_dirty (ted_of d' e)) \<le> max (unat (ted_dirty (ted_of d e))) (unat (ted_grant (ted_of d e)) + 4 * unat chunk)"
proof (cases "o_valid oa AND (OBD_MD_FLBLOCKS OR OBD_MD_FLGRANT) \<noteq> OBD_MD_FLBLOCKS OR OBD_MD_FLGRANT")
  case True
  then show ?thesis using assms(1) by (simp add: tgt_grant_incoming_def)
next
  case False
  let ?g = "ted_grant (ted_of d e)"
  obtain oa1 dirty dropped where c: "incoming_counts d e oa chunk = (oa1, dirty, dropped)" by (cases "incoming_counts d e oa chunk") auto
  let ?d = "upd_tgd (\<lambda>tgd. tgd\<lparr>tgd_tot_dirty := tgd_tot_dirty tgd + (dirty - ted_dirty (ted_of d e)), tgd_tot_granted := tgd_tot_granted tgd - dropped\<rparr>)
    (upd_ted e (\<lambda>ted. ted\<lparr>ted_grant := ted_grant ted - dropped, ted_dirty := dirty\<rparr>) d)"
  have d: "d' = ?d" "\<not> negative (ted_of ?d e)" using assms(1) False c by (auto simp: tgt_grant_incoming_def Let_def split: if_split_asm)
  have m: "unat (?g + 4 * chunk) = unat ?g + 4 * unat chunk"
  proof -
    have "unat (4 * chunk) = 4 * unat chunk" using assms(3) unat_mult_no_wrap [of 4 chunk] by simp
    then show ?thesis using assms(2,3) unat_plus_no_wrap [of ?g "4 * chunk"] by simp
  qed
  have "sint dirty \<le> sint (?g + 4 * chunk)" using c by (auto simp: incoming_counts_def Let_def)
  moreover have "0 \<le> sint dirty" using d(2) by (simp add: negative_def)
  ultimately have dl: "unat dirty \<le> unat ?g + 4 * unat chunk"
    using m sint_le_small [of dirty "?g + 4 * chunk"] sint_nonneg_unat [of dirty] assms(2,3) by simp
  have "dropped = 0 \<or> sint dropped \<le> sint ?g \<and> unat dropped < 2 ^ 32"
    using c unat_lt_bound [of "o_dropped oa1"] by (auto simp: incoming_counts_def Let_def split: if_split_asm)
  then have "dropped \<le> ?g" using sint_le_small [of dropped ?g] assms(2) by (auto simp: word_le_nat_alt)
  then have "unat (?g - dropped) \<le> unat ?g" by (simp add: unat_minus_le)
  then show ?thesis using d dl by simp
qed

lemma check_rnbs_amounts:
  assumes "check_rnbs d e skip rnbs g0 u0 l0 = (g, u, l, rs)" "g0 \<le> ted_grant (ted_of d e)" "unat u0 + unat l0 < 2 ^ 64"
  shows "g \<le> ted_grant (ted_of d e) \<and> unat u + unat l = unat u0 + unat l0 \<and> unat l \<le> unat l0"
  using assms
proof (induction rnbs arbitrary: g0 u0 l0 rs)
  case (Cons r rnbs)
  let ?own = "scast (ucast (tgt_grant_rnb_size (Some (obd_exp d e)) (lut_tgd d) (lut_dt_conf d) r) :: u32) :: u64"
  let ?srv = "scast (ucast (tgt_grant_rnb_size None (lut_tgd d) (lut_dt_conf d) r) :: u32) :: u64"
  have l: "unat (u0 + ?srv) = unat u0 + unat ?srv" "unat (l0 - ?srv) = unat l0 - unat ?srv" "unat ?srv < unat l0" if "?srv < l0"
    using unat_sub_lt [OF that] Cons.prems(3) unat_plus_no_wrap [of u0 ?srv] by simp_all
  obtain g1 u1 l1 where n: "\<exists>rs1. check_rnbs d e skip rnbs g1 u1 l1 = (g, u, l, rs1)"
    and w: "(g1, u1, l1) = (g0, u0, l0) \<or> (g1, u1, l1) = (g0 + ?own, u0, l0) \<and> g0 + ?own \<le> ted_grant (ted_of d e) \<or>
      (g1, u1, l1) = (g0, u0 + ?srv, l0 - ?srv) \<and> ?srv < l0"
    using Cons.prems(1) by (auto simp: Let_def split: if_split_asm prod.split_asm)
  have "g1 \<le> ted_grant (ted_of d e)" "unat u1 + unat l1 = unat u0 + unat l0" "unat l1 \<le> unat l0" using w l Cons.prems(2) by auto
  then show ?case using Cons.IH [of g1 u1 l1] n Cons.prems(3) by fastforce
qed simp

lemma check_used_amounts:
  assumes "check_used d e oa left = (skip, g, u, l)"
  shows "g \<le> ted_grant (ted_of d e) \<and> unat u + unat l = unat left"
proof -
  let ?x = "o_grant_used oa - ted_grant (ted_of d e)"
  have "unat ?x + unat (left - ?x) = unat left" if "?x < left" using unat_sub_lt [OF that] by simp
  then show ?thesis using assms by (auto simp: check_used_def Let_def split: if_split_asm)
qed

lemma check_amounts:
  assumes "tgt_grant_check d e oa rnb left = Some (d', oa', rnb', left')"
    and "unat (ted_grant (ted_of d e)) \<le> 2 ^ 61" "unat left \<le> 2 ^ 61" "unat (ted_pending (ted_of d e)) \<le> 2 ^ 62"
  shows "\<exists>g u. frame e d d' \<and> g \<le> unat (ted_grant (ted_of d e)) \<and> unat left' + u = unat left \<and>
    unat (ted_grant (ted_of d' e)) = unat (ted_grant (ted_of d e)) - g \<and> unat (o_grant_used oa') = g + u \<and>
    unat (ted_pending (ted_of d' e)) = unat (ted_pending (ted_of d e)) + g + u \<and>
    unat (ted_dirty (ted_of d' e)) \<le> unat (ted_dirty (ted_of d e))"
proof -
  let ?G = "ted_grant (ted_of d e)"
  obtain skip g0 u0 l0 where 1: "check_used d e oa left = (skip, g0, u0, l0)" by (cases "check_used d e oa left") auto
  obtain g u l rs where 2: "check_rnbs d e skip rnb g0 u0 l0 = (g, u, l, rs)" by (cases "check_rnbs d e skip rnb g0 u0 l0") auto
  have u1: "g0 \<le> ?G" "unat u0 + unat l0 = unat left" using check_used_amounts [OF 1] by simp_all
  have u2: "g \<le> ?G" "unat u + unat l = unat left"
    using check_rnbs_amounts [OF 2 u1(1)] u1(2) assms(3) by simp_all
  have gu: "unat (g + u) = unat g + unat u" using u2 assms(2,3) by (intro unat_plus_no_wrap) (simp add: word_le_nat_alt)
  have p: "unat (ted_pending (ted_of d e) + (g + u)) = unat (ted_pending (ted_of d e)) + unat g + unat u"
    using u2 gu assms(2-4) by (subst unat_plus_no_wrap) (simp_all add: word_le_nat_alt)
  have s: "unat (?G - g) = unat ?G - unat g" using u2(1) by (rule unat_minus_le)
  have dirty: "unat (ted_dirty (ted_of d e) - min (ted_dirty (ted_of d e)) g) \<le> unat (ted_dirty (ted_of d e))"
    by (subst unat_minus_le) simp_all
  let ?d = "upd_tgd (\<lambda>tgd. tgd\<lparr>tgd_tot_granted := tgd_tot_granted tgd + u, tgd_tot_pending := tgd_tot_pending tgd + (g + u)\<rparr>)
    (upd_ted e (\<lambda>ted. ted\<lparr>ted_grant := ted_grant ted - g, ted_pending := ted_pending ted + (g + u)\<rparr>) d)"
  have r: "left' = l \<and> o_grant_used oa' = g + u \<and> (d' = ?d \<or>
    d' = upd_tgd (\<lambda>tgd. tgd\<lparr>tgd_tot_dirty := tgd_tot_dirty tgd - min (ted_dirty (ted_of d e)) g\<rparr>)
           (upd_ted e (\<lambda>ted. ted\<lparr>ted_dirty := ted_dirty ted - min (ted_dirty (ted_of d e)) g\<rparr>) ?d))"
    using assms(1) 1 2 by (auto simp: tgt_grant_check_def Let_def min_def not_less split: if_split_asm)
  then have f: "frame e d d'" and sel: "ted_grant (ted_of d' e) = ?G - g" "ted_pending (ted_of d' e) = ted_pending (ted_of d e) + (g + u)"
    and dt: "unat (ted_dirty (ted_of d' e)) \<le> unat (ted_dirty (ted_of d e))" using dirty by auto
  have "unat g \<le> unat ?G" "unat left' + unat u = unat left" "o_grant_used oa' = g + u" using u2 r by (simp_all add: word_le_nat_alt)
  then show ?thesis unfolding sel using f dt gu p s by (intro exI [of _ "unat g"] exI [of _ "unat u"]) (simp only: simp_thms)
qed

lemma unat_and_not_mask: "unat (a AND NOT (m :: u64)) \<le> unat a"
  using word_and_le2 [of a "NOT m"] by (simp add: word_le_nat_alt)

lemma unat_blocksize:
  assumes "n \<le> 30"
  shows "unat (scast (push_bit n 1 :: u32) :: u64) = 2 ^ n"
proof -
  have l: "(2::nat) ^ n \<le> 2 ^ 30" using assms by (intro power_increasing) simp_all
  have u: "unat (push_bit n 1 :: u32) = 2 ^ n"
    using l assms by (simp only: unsigned_push_bit_eq) (simp add: push_bit_eq_mult take_bit_nat_eq_self)
  have "sint (push_bit n 1 :: u32) = int (2 ^ n)" using sint_eq_unat [of "push_bit n 1 :: u32"] l unfolding u by simp
  then have "scast (push_bit n 1 :: u32) = (word_of_int (int (2 ^ n)) :: u64)" by (metis of_int_sint scast_eq)
  then show ?thesis using unat_word_of_int_nat [of "2 ^ n", where 'a = 64] l by simp
qed

lemma unat_round_up: "unat (x :: u64) + unat s < 2 ^ 64 \<Longrightarrow> 0 < unat s \<Longrightarrow> unat (x + s - 1) < unat x + unat s"
proof -
  assume a: "unat x + unat s < 2 ^ 64" "0 < unat s"
  have p: "unat (x + s) = unat x + unat s" using a(1) by (intro unat_plus_no_wrap) simp
  then have "unat (x + s - 1) = unat x + unat s - 1" using a(2) unat_minus_le [of 1 "x + s"] by (simp add: word_le_nat_alt)
  then show ?thesis using a(2) by simp
qed

lemma alloc_amounts:
  assumes "alloc_amount d e cur want left chunk cons = Some g"
    and "unat (ted_grant (ted_of d e)) \<le> 2 ^ 61" "unat left \<le> 2 ^ 61" "unat chunk \<le> 2 ^ 40" "tgd_blockbits (lut_tgd d) \<le> 30"
  shows "left \<noteq> 0 \<and> unat (ted_grant (ted_of d e) + g) < unat (ted_grant (ted_of d e)) + unat left + 2 ^ tgd_blockbits (lut_tgd d) \<and>
    unat (ted_grant (ted_of d e) + g) \<le> 2 ^ 31 + 2 ^ 40 \<and> unat (ted_grant (ted_of d e) + g) \<le> unat want + unat chunk \<and> want \<le> OBD_MAX_GRANT \<and>
    (unat want + unat chunk < unat (ted_grant (ted_of d e)) \<longrightarrow> g = want + chunk - ted_grant (ted_of d e))"
proof -
  let ?G = "ted_grant (ted_of d e)" and ?bb = "tgd_blockbits (lut_tgd d)"
  let ?cons = "if obd_recovering d then False else cons"
  let ?left = "if ?cons then drop_bit 3 left else left"
  let ?x = "min (want - cur) ?left"
  let ?y = "(?x + scast (push_bit ?bb 1 :: u32) - 1) AND NOT (push_bit ?bb 1 - 1)"
  let ?z = "if ?y > chunk \<and> ?cons then chunk else ?y"
  have a: "left \<noteq> 0" "want \<le> OBD_MAX_GRANT" "?y \<noteq> 0"
    and g: "g = (if ?G + ?z > want + chunk then want + chunk - ?G else ?z)"
    using assms(1) by (auto simp: alloc_amount_def Let_def split: if_split_asm)
  have w: "unat (want + chunk) = unat want + unat chunk" "unat want < 2 ^ 31"
    using a(2) assms(4) by (auto intro!: unat_plus_no_wrap simp: word_le_nat_alt OBD_MAX_GRANT_def)
  have "unat ?left \<le> unat left" by (simp add: drop_bit_eq_div unat_div)
  moreover have "unat ?x \<le> unat ?left" by (simp only: flip: word_le_nat_alt) (rule min.cobounded2)
  ultimately have x: "unat ?x \<le> unat left" by (rule order.trans [rotated])
  have bb: "(2::nat) ^ ?bb \<le> 2 ^ 30" using assms(5) by (intro power_increasing) simp_all
  have sh: "unat (scast (push_bit ?bb 1 :: u32) :: u64) = 2 ^ ?bb" using unat_blocksize [OF assms(5)] .
  have "unat (?x + scast (push_bit ?bb 1 :: u32) - 1) < unat ?x + 2 ^ ?bb"
    using unat_round_up [of ?x "scast (push_bit ?bb 1 :: u32)"] x bb assms(3) unfolding sh by simp
  then have y: "unat ?y < unat left + 2 ^ ?bb" using unat_and_not_mask [of "?x + scast (push_bit ?bb 1 :: u32) - 1" "push_bit ?bb 1 - 1"] x by linarith
  have z: "unat ?z < unat left + 2 ^ ?bb" using y by (auto simp: word_less_nat_alt)
  have Gz: "unat (?G + ?z) = unat ?G + unat ?z" using z bb assms(2,3) by (intro unat_plus_no_wrap) simp
  show ?thesis
  proof (cases "?G + ?z > want + chunk")
    case True
    then have "g = want + chunk - ?G" "?G + g = want + chunk" "unat want + unat chunk < unat ?G + unat ?z" using g w Gz by (auto simp: word_less_nat_alt)
    then show ?thesis using a w z assms(4) by simp
  next
    case False
    then have "g = ?z" "unat ?G + unat ?z \<le> unat want + unat chunk" using g w Gz by (auto simp: word_less_nat_alt)
    then show ?thesis using a w z Gz assms(4) by simp
  qed
qed

text \<open>What \<open>tgt_grant_alloc\<close> does: the grant grows by less than the space left and a block, and a
  client never gets more than \<open>OBD_MAX_GRANT\<close> and one chunk.\<close>

lemma alloc_eff:
  assumes "tgt_grant_alloc d e cur want left chunk cons = Some (g, d')"
    and "unat (ted_grant (ted_of d e)) \<le> 2 ^ 61" "unat left \<le> 2 ^ 61" "unat chunk \<le> 2 ^ 40" "tgd_blockbits (lut_tgd d) \<le> 30"
  shows "frame e d d' \<and> ted_dirty (ted_of d' e) = ted_dirty (ted_of d e) \<and>
    (left = 0 \<longrightarrow> unat (ted_grant (ted_of d' e)) = unat (ted_grant (ted_of d e))) \<and>
    unat (ted_grant (ted_of d' e)) < unat (ted_grant (ted_of d e)) + unat left + 2 ^ tgd_blockbits (lut_tgd d) \<and>
    unat (ted_grant (ted_of d' e)) \<le> max (unat (ted_grant (ted_of d e))) (2 ^ 31 + 2 ^ 40)"
proof (cases "alloc_amount d e cur want left chunk cons")
  case None
  then show ?thesis using assms(1) by (simp add: tgt_grant_alloc_def)
next
  case (Some a)
  then have d: "d' = upd_tgd (\<lambda>tgd. tgd\<lparr>tgd_tot_granted := tgd_tot_granted tgd + a\<rparr>) (upd_ted e (\<lambda>ted. ted\<lparr>ted_grant := ted_grant ted + a\<rparr>) d)"
    using assms(1) by (auto simp: tgt_grant_alloc_def Let_def split: if_split_asm)
  then show ?thesis using alloc_amounts [OF Some assms(2-5)] by (simp add: le_max_iff_disj)
qed

lemma shrink_eff:
  assumes "o_grant oa \<le> ted_grant (ted_of d e)"
  shows "frame e d (fst (tgt_grant_shrink d e oa left)) \<and>
    unat (ted_grant (ted_of (fst (tgt_grant_shrink d e oa left)) e)) \<le> unat (ted_grant (ted_of d e)) \<and>
    ted_dirty (ted_of (fst (tgt_grant_shrink d e oa left)) e) = ted_dirty (ted_of d e)"
  using unat_minus_le [OF assms] by (simp add: tgt_grant_shrink_def Let_def)

lemma take_eff:
  assumes "create_take d e w left = (d', left')" "w \<le> ted_grant (ted_of d e) + left"
    and "unat (ted_grant (ted_of d e)) \<le> 2 ^ 61" "unat left \<le> 2 ^ 61" "unat (ted_pending (ted_of d e)) \<le> 2 ^ 62"
  shows "\<exists>u. frame e d d' \<and> ted_dirty (ted_of d' e) = ted_dirty (ted_of d e) \<and> unat left' + u = unat left \<and>
    unat (ted_grant (ted_of d' e)) \<le> unat (ted_grant (ted_of d e)) \<and>
    unat (ted_pending (ted_of d' e)) = unat (ted_pending (ted_of d e)) + unat w \<and>
    unat (ted_grant (ted_of d' e)) + unat w = unat (ted_grant (ted_of d e)) + u"
proof -
  let ?G = "ted_grant (ted_of d e)"
  have g: "unat (?G + left) = unat ?G + unat left" using assms(3,4) by (intro unat_plus_no_wrap) simp
  then have wl: "unat w \<le> unat ?G + unat left" using assms(2) by (simp add: word_le_nat_alt)
  have p: "unat (ted_pending (ted_of d e) + w) = unat (ted_pending (ted_of d e)) + unat w" using wl assms(3-5) by (intro unat_plus_no_wrap) simp
  show ?thesis
  proof (cases "w \<le> ?G")
    case True
    then show ?thesis using assms(1) p unat_minus_le [OF True]
      by (intro exI [of _ 0]) (auto simp: create_take_def Let_def word_le_nat_alt)
  next
    case False
    have s: "unat (w - ?G) = unat w - unat ?G" using False by (intro unat_minus_le) simp
    have lt: "unat ?G < unat w" using False by (simp add: word_le_nat_alt)
    then have "unat (left - (w - ?G)) = unat left - (unat w - unat ?G)" using s wl by (subst unat_minus_le) (simp_all add: word_le_nat_alt)
    then show ?thesis using assms(1) p False s lt wl
      by (intro exI [of _ "unat w - unat ?G"]) (auto simp: create_take_def Let_def)
  qed
qed

section \<open>Bounds\<close>

definition nres :: "(nat \<times> u64) list \<Rightarrow> nat \<Rightarrow> nat" where
  "nres out e = sum_list (map (unat \<circ> snd) (filter (\<lambda>p. fst p = e) out))"

definition held :: "obd_device \<Rightarrow> nat \<Rightarrow> nat" where
  "held d e = unat (ted_grant (ted_of d e)) + unat (ted_pending (ted_of d e))"

definition small :: "obd_device \<Rightarrow> nat \<Rightarrow> bool" where
  "small d e \<longleftrightarrow> unat (ted_grant (ted_of d e)) \<le> 2 ^ 31 + 2 ^ 40 \<and> unat (ted_dirty (ted_of d e)) \<le> 2 ^ 43"

definition ginv :: "nat \<Rightarrow> grant_sys \<Rightarrow> bool" where
  "ginv B s \<longleftrightarrow>
     (let d = gs_dev s; tgd = lut_tgd d in
      B \<le> 2 ^ 61 \<and> tgd_blockbits tgd \<le> 30 \<and> unat (os_bavail (tgd_osfs tgd)) * 2 ^ tgd_blockbits tgd \<le> B \<and>
      length (all_exps d) \<le> 2 ^ 20 \<and> (\<Sum>e \<leftarrow> all_exps d. held d e) \<le> B + 2 ^ tgd_blockbits tgd \<and>
      (\<forall>e \<in> set (all_exps d). small d e \<and> unat (ted_pending (ted_of d e)) = nres (gs_out s) e))"

lemma ginvD:
  assumes "ginv B \<lparr>gs_dev = d, gs_out = out, gs_statfs = sf, gs_avail = av\<rparr>"
  shows "B \<le> 2 ^ 61" "tgd_blockbits (lut_tgd d) \<le> 30" "unat (os_bavail (tgd_osfs (lut_tgd d))) * 2 ^ tgd_blockbits (lut_tgd d) \<le> B"
    "length (all_exps d) \<le> 2 ^ 20" "(\<Sum>e \<leftarrow> all_exps d. held d e) \<le> B + 2 ^ tgd_blockbits (lut_tgd d)"
    "e \<in> set (all_exps d) \<Longrightarrow> small d e" "e \<in> set (all_exps d) \<Longrightarrow> unat (ted_pending (ted_of d e)) = nres out e"
  using assms unfolding ginv_def Let_def grant_sys.select_convs by blast+

lemma ginv_total:
  assumes "ginv B \<lparr>gs_dev = d, gs_out = out, gs_statfs = sf, gs_avail = av\<rparr>"
  shows "(\<Sum>e \<leftarrow> all_exps d. held d e) \<le> B + 2 ^ 30" "(\<Sum>e \<leftarrow> all_exps d. held d e) < 2 ^ 62"
proof -
  have "(2::nat) ^ tgd_blockbits (lut_tgd d) \<le> 2 ^ 30" using ginvD(2) [OF assms] by (intro power_increasing) simp_all
  then show "(\<Sum>e \<leftarrow> all_exps d. held d e) \<le> B + 2 ^ 30" using ginvD(5) [OF assms] by linarith
  then show "(\<Sum>e \<leftarrow> all_exps d. held d e) < 2 ^ 62" using ginvD(1) [OF assms] by simp
qed

lemma unat_sum_list: "sum_list (map (\<lambda>x. unat (f x)) xs) < 2 ^ 64 \<Longrightarrow> unat (sum_list (map f xs) :: u64) = sum_list (map (\<lambda>x. unat (f x)) xs)"
proof (induction xs)
  case (Cons x xs)
  then have "unat (sum_list (map f xs)) = sum_list (map (\<lambda>x. unat (f x)) xs)" by simp
  then show ?case using Cons.prems unat_plus_no_wrap [of "f x" "sum_list (map f xs)"] by simp
qed simp

lemma sum_list_le: "(\<And>x. x \<in> set xs \<Longrightarrow> f x \<le> g x) \<Longrightarrow> sum_list (map f xs) \<le> sum_list (map (g :: 'a \<Rightarrow> nat) xs)"
  by (rule sum_list_mono)

lemma le_sum_list: "e \<in> set xs \<Longrightarrow> f e \<le> (sum_list (map f xs) :: nat)"
  by (intro member_le_sum_list) auto

lemma int_sum_list: "int (sum_list (map f xs)) = sum_list (map (\<lambda>x. int (f x)) xs)"
  by (induction xs) simp_all

text \<open>Where the counters are small the totals are exact.\<close>

lemma ginv_exact:
  assumes "ginv B \<lparr>gs_dev = d, gs_out = out, gs_statfs = sf, gs_avail = av\<rparr>" "acct \<lparr>gs_dev = d, gs_out = out, gs_statfs = sf, gs_avail = av\<rparr>"
  shows "unat (tgd_tot_granted (lut_tgd d)) = (\<Sum>e \<leftarrow> all_exps d. held d e)"
    "unat (tgd_tot_pending (lut_tgd d)) = (\<Sum>e \<leftarrow> all_exps d. unat (ted_pending (ted_of d e)))"
    "unat (tgd_tot_dirty (lut_tgd d)) = (\<Sum>e \<leftarrow> all_exps d. unat (ted_dirty (ted_of d e)))"
proof -
  have t: "tgd_tot_granted (lut_tgd d) = (\<Sum>e \<leftarrow> all_exps d. ted_grant (ted_of d e) + ted_pending (ted_of d e))"
    "tgd_tot_pending (lut_tgd d) = (\<Sum>e \<leftarrow> all_exps d. ted_pending (ted_of d e))"
    "tgd_tot_dirty (lut_tgd d) = (\<Sum>e \<leftarrow> all_exps d. ted_dirty (ted_of d e))"
    using assms(2) unfolding acct_def Let_def grant_sys.select_convs by blast+
  note s = ginv_total(2) [OF assms(1)]
  have h: "held d e < 2 ^ 62" if "e \<in> set (all_exps d)" for e using le_sum_list [OF that, of "held d"] s by simp
  have "held d e = unat (ted_grant (ted_of d e) + ted_pending (ted_of d e))" if "e \<in> set (all_exps d)" for e
    using h [OF that] unat_plus_no_wrap [of "ted_grant (ted_of d e)" "ted_pending (ted_of d e)"] by (simp add: held_def)
  then have eq: "map (held d) (all_exps d) = map (\<lambda>e. unat (ted_grant (ted_of d e) + ted_pending (ted_of d e))) (all_exps d)"
    by simp
  show "unat (tgd_tot_granted (lut_tgd d)) = (\<Sum>e \<leftarrow> all_exps d. held d e)"
    unfolding t(1) eq using s by (intro unat_sum_list) (simp add: eq)
  have "(\<Sum>e \<leftarrow> all_exps d. unat (ted_pending (ted_of d e))) \<le> (\<Sum>e \<leftarrow> all_exps d. held d e)" by (intro sum_list_le) (simp add: held_def)
  then show "unat (tgd_tot_pending (lut_tgd d)) = (\<Sum>e \<leftarrow> all_exps d. unat (ted_pending (ted_of d e)))"
    unfolding t(2) using s by (intro unat_sum_list) simp
  have "(\<Sum>e \<leftarrow> all_exps d. unat (ted_dirty (ted_of d e))) \<le> (\<Sum>e \<leftarrow> all_exps d. 2 ^ 43)"
    using ginvD(6) [OF assms(1)] by (intro sum_list_le) (simp add: small_def)
  also have "\<dots> \<le> 2 ^ 20 * 2 ^ 43" using ginvD(4) [OF assms(1)] by (simp add: sum_list_triv)
  finally show "unat (tgd_tot_dirty (lut_tgd d)) = (\<Sum>e \<leftarrow> all_exps d. unat (ted_dirty (ted_of d e)))"
    unfolding t(3) by (intro unat_sum_list) simp
qed

lemma ginv_left:
  assumes "ginv B \<lparr>gs_dev = d, gs_out = out, gs_statfs = sf, gs_avail = av\<rparr>" "acct \<lparr>gs_dev = d, gs_out = out, gs_statfs = sf, gs_avail = av\<rparr>"
  shows "tgt_grant_space_left (lut_tgd d) = 0 \<or> unat (tgt_grant_space_left (lut_tgd d)) + (\<Sum>e \<leftarrow> all_exps d. held d e) \<le> B"
    "unat (tgt_grant_space_left (lut_tgd d)) \<le> 2 ^ 61"
proof -
  show 1: "tgt_grant_space_left (lut_tgd d) = 0 \<or> unat (tgt_grant_space_left (lut_tgd d)) + (\<Sum>e \<leftarrow> all_exps d. held d e) \<le> B"
    using space_left_le [OF ginvD(3) [OF assms(1)] ginvD(1) [OF assms(1)]] ginv_exact(1) [OF assms] ginv_total(2) [OF assms(1)] by simp
  show "unat (tgt_grant_space_left (lut_tgd d)) \<le> 2 ^ 61" using 1 ginvD(1) [OF assms(1)] by (cases "tgt_grant_space_left (lut_tgd d) = 0") simp_all
qed

text \<open>An operation on \<open>e\<close> that takes no more than the space left and a block keeps the bounds.\<close>

lemma ginv_upd:
  assumes g: "ginv B \<lparr>gs_dev = d, gs_out = out, gs_statfs = sf, gs_avail = av\<rparr>" and a: "acct \<lparr>gs_dev = d, gs_out = out, gs_statfs = sf, gs_avail = av\<rparr>"
    and k: "keeps e d d'" and f: "frame e d d'" and e: "e \<in> set (all_exps d)" and s: "small d' e"
    and p: "unat (ted_pending (ted_of d' e)) = nres out' e" "\<And>x. x \<noteq> e \<Longrightarrow> nres out' x = nres out x"
    and le: "held d' e \<le> held d e \<or> held d' e + (\<Sum>e \<leftarrow> all_exps d. held d e) \<le> held d e + B + 2 ^ tgd_blockbits (lut_tgd d)"
  shows "ginv B \<lparr>gs_dev = d', gs_out = out', gs_statfs = sf', gs_avail = av'\<rparr>"
proof -
  have same: "ted_of d' x = ted_of d x" if "x \<noteq> e" for x using k that unfolding keeps_def by blast
  have l: "all_exps d' = all_exps d" by (rule keeps_all_exps [OF k])
  have dis: "distinct (all_exps d)" using a by (simp add: acct_def Let_def)
  have "int (\<Sum>e \<leftarrow> all_exps d. held d' e) = int (\<Sum>e \<leftarrow> all_exps d. held d e) + (int (held d' e) - int (held d e))"
    unfolding int_sum_list by (rule sum_list_upd [OF dis e]) (simp add: held_def same)
  then have "(\<Sum>e \<leftarrow> all_exps d. held d' e) \<le> B + 2 ^ tgd_blockbits (lut_tgd d)" using le ginvD(5) [OF g] by linarith
  moreover have "small d' x \<and> unat (ted_pending (ted_of d' x)) = nres out' x" if "x \<in> set (all_exps d)" for x
    using ginvD(6,7) [OF g, of x] that s p same [of x] by (cases "x = e") (auto simp: small_def)
  moreover have "unat (os_bavail (tgd_osfs (lut_tgd d'))) * 2 ^ tgd_blockbits (lut_tgd d') \<le> B" "tgd_blockbits (lut_tgd d') = tgd_blockbits (lut_tgd d)"
    using ginvD(3) [OF g] f by (auto simp: frame_def word_le_nat_alt elim: order.trans [rotated])
  ultimately show ?thesis using ginvD(1,2,4) [OF g] l unfolding ginv_def Let_def grant_sys.select_convs by simp
qed

lemma nres_Cons [simp]: "nres ((x, p) # out) e = (if x = e then unat p else 0) + nres out e"
  by (simp add: nres_def)

lemma nres_remove1: "(x, p) \<in> set out \<Longrightarrow> nres (remove1 (x, p) out) e + (if x = e then unat p else 0) = nres out e"
  by (induction out) (auto simp: nres_def)

text \<open>What the operations of a fair client may do to the counters of the export \<open>e\<close>.\<close>

definition modest :: "nat \<Rightarrow> obd_device \<Rightarrow> obd_device \<Rightarrow> nat \<Rightarrow> bool" where
  "modest e d d' left \<longleftrightarrow> frame e d d' \<and> small d' e \<and>
     (if left = 0 then held d' e \<le> held d e else held d' e \<le> held d e + left + 2 ^ tgd_blockbits (lut_tgd d))"

lemma read_modest:
  assumes "tgt_grant_read_locked d e oa = Some (d', oa')" "small d e" "fair_read d e oa" "unat (tgt_grant_chunk d e None) \<le> 2 ^ 40"
  shows "modest e d d' 0"
proof -
  obtain d1 oa1 where 1: "tgt_grant_incoming d e oa (tgt_grant_chunk d e None) = Some (d1, oa1)"
    and 2: "d' = (if shrinking oa then fst (tgt_grant_shrink d1 e oa1 (tgt_grant_space_left (lut_tgd d))) else d1)"
    using read_locked_inv [OF assms(1)] by blast
  have i: "frame e d d1" "unat (ted_grant (ted_of d1 e)) \<le> unat (ted_grant (ted_of d e))"
    "unat (ted_dirty (ted_of d1 e)) \<le> max (unat (ted_dirty (ted_of d e))) (unat (ted_grant (ted_of d e)) + 4 * unat (tgt_grant_chunk d e None))"
    using incoming_amounts [OF 1 _ assms(4)] assms(2) by (simp_all add: small_def)
  have s1: "small d1 e" using i(2,3) assms(2,4) by (auto simp: small_def max_def split: if_split_asm)
  have "frame e d1 d' \<and> unat (ted_grant (ted_of d' e)) \<le> unat (ted_grant (ted_of d1 e)) \<and> ted_dirty (ted_of d' e) = ted_dirty (ted_of d1 e)"
    using 1 2 assms(3) shrink_eff [of oa1 d1 e] by (simp add: fair_read_def)
  then show ?thesis using i(1,2) s1 frame_trans [of e d d1 d'] read_pending [OF assms(1), of e]
    by (simp add: modest_def small_def held_def)
qed

lemma alloc_modest:
  assumes "tgt_grant_alloc d e cur want left chunk cons = Some (g, d')" "small d e" "unat left \<le> 2 ^ 61" "unat chunk \<le> 2 ^ 40" "tgd_blockbits (lut_tgd d) \<le> 30"
  shows "modest e d d' (unat left)"
proof -
  have g: "unat (ted_grant (ted_of d e)) \<le> 2 ^ 61" using assms(2) by (simp add: small_def)
  show ?thesis using alloc_eff [OF assms(1) g assms(3-5)] assms(2) alloc_pending [OF assms(1), of e]
    by (auto simp: modest_def small_def held_def unat_eq_0)
qed

text \<open>Taking \<open>u\<close> of the space left, then an operation on the rest.\<close>

lemma modest_trans:
  assumes "modest e d1 d2 (left - u)" "frame e d d1" "held d1 e \<le> held d e + u" "u \<le> left"
  shows "modest e d d2 left"
proof -
  have "tgd_blockbits (lut_tgd d1) = tgd_blockbits (lut_tgd d)" using assms(2) by (simp add: frame_def)
  then show ?thesis using assms frame_trans [OF assms(2)] by (auto simp: modest_def split: if_split_asm)
qed

lemma write_modest:
  assumes "tgt_grant_write_locked d e oa rnb left (tgt_grant_chunk d e None) = Some (d', oa', rnb')"
    and "small d e" "fair_write d e oa rnb left" "unat (tgt_grant_chunk d e None) \<le> 2 ^ 40" "unat left \<le> 2 ^ 61"
    "unat (ted_pending (ted_of d e)) \<le> 2 ^ 62" "tgd_blockbits (lut_tgd d) \<le> 30"
  shows "modest e d d' (unat left) \<and> unat (ted_pending (ted_of d' e)) = unat (ted_pending (ted_of d e)) + unat (o_grant_used oa')"
proof -
  let ?chunk = "tgt_grant_chunk d e None"
  obtain d1 oa1 d2 oa2 left2 where w: "tgt_grant_incoming d e oa ?chunk = Some (d1, oa1)"
    "tgt_grant_check d1 e oa1 rnb left = Some (d2, oa2, rnb', left2)" "o_grant_used oa' = o_grant_used oa2"
    "if \<not> has (o_valid oa2) OBD_MD_FLGRANT then d' = d2
     else if shrinking oa2 then d' = fst (tgt_grant_shrink d2 e oa2 left2)
     else \<exists>g. tgt_grant_alloc d2 e (o_grant oa2) (ucast (o_undirty oa2)) left2 ?chunk True = Some (g, d')"
    using write_locked_inv [OF assms(1)] by blast
  have i: "frame e d d1" "unat (ted_grant (ted_of d1 e)) \<le> unat (ted_grant (ted_of d e))"
    "unat (ted_dirty (ted_of d1 e)) \<le> max (unat (ted_dirty (ted_of d e))) (unat (ted_grant (ted_of d e)) + 4 * unat ?chunk)"
    using incoming_amounts [OF w(1) _ assms(4)] assms(2) by (simp_all add: small_def)
  have p1: "ted_pending (ted_of d1 e) = ted_pending (ted_of d e)" by (rule incoming_pending [OF w(1)])
  have s1: "small d1 e" using i(2,3) assms(2,4) by (auto simp: small_def max_def split: if_split_asm)
  obtain g u where c: "frame e d1 d2" "g \<le> unat (ted_grant (ted_of d1 e))" "unat left2 + u = unat left"
    "unat (ted_grant (ted_of d2 e)) = unat (ted_grant (ted_of d1 e)) - g" "unat (o_grant_used oa2) = g + u"
    "unat (ted_pending (ted_of d2 e)) = unat (ted_pending (ted_of d1 e)) + g + u"
    "unat (ted_dirty (ted_of d2 e)) \<le> unat (ted_dirty (ted_of d1 e))"
    using check_amounts [OF w(2) _ assms(5)] s1 assms(6) p1 by (auto simp: small_def)
  have f: "frame e d d2" using i(1) c(1) by (rule frame_trans)
  have s2: "small d2 e" using s1 c(4,7) unfolding small_def by linarith
  have h2: "held d2 e \<le> held d e + u" using i(2) p1 c(2,4,6) by (simp add: held_def)
  have l2: "unat left2 = unat left - u" "u \<le> unat left" using c(3) by simp_all
  have bb: "tgd_blockbits (lut_tgd d2) \<le> 30" using f assms(7) by (simp add: frame_def)
  have m0: "modest e d2 d2 (unat left2)" using s2 by (simp add: modest_def)
  have m: "modest e d2 d' (unat left2)"
  proof (cases "has (o_valid oa2) OBD_MD_FLGRANT")
    case False
    then show ?thesis using w(4) m0 by simp
  next
    case g: True
    show ?thesis
    proof (cases "shrinking oa2")
      case True
      then have o: "o_grant oa2 \<le> ted_grant (ted_of d2 e)" using assms(3) w(1,2) by (simp add: fair_write_def)
      show ?thesis using w(4) g True shrink_eff [OF o, of left2] shrink_pending [of d2 e oa2 left2 e] s2
        by (auto simp: modest_def small_def held_def)
    next
      case False
      then obtain a where "tgt_grant_alloc d2 e (o_grant oa2) (ucast (o_undirty oa2)) left2 ?chunk True = Some (a, d')" using w(4) g by auto
      then show ?thesis using s2 assms(4,5) bb l2 by (intro alloc_modest) simp_all
    qed
  qed
  have "unat (ted_pending (ted_of d' e)) = unat (ted_pending (ted_of d2 e))"
    using w(4) alloc_pending [of d2 e _ _ left2 ?chunk True _ d' e] shrink_pending [of d2 e oa2 left2 e] by (auto split: if_split_asm)
  then show ?thesis using modest_trans [OF _ f h2 l2(2)] m c(5,6) p1 w(3) l2(1) by simp
qed

lemma create_modest:
  assumes "tgt_grant_create_locked d e nr = Some (d', Inr (g, nr'))" "small d e" "unat (tgt_grant_space_left (lut_tgd d)) \<le> 2 ^ 61"
    "unat (ted_pending (ted_of d e)) \<le> 2 ^ 62" "unat (tgt_grant_chunk d e None) \<le> 2 ^ 40" "tgd_blockbits (lut_tgd d) \<le> 30"
  shows "modest e d d' (unat (tgt_grant_space_left (lut_tgd d))) \<and> unat (ted_pending (ted_of d' e)) = unat (ted_pending (ted_of d e)) + unat g"
proof -
  let ?left = "tgt_grant_space_left (lut_tgd d)"
  obtain d1 left1 where t: "create_take d e g ?left = (d1, left1)" "g \<le> ted_grant (ted_of d e) + ?left"
    "d' = d1 \<or> (\<exists>want a. tgt_grant_alloc d1 e (ted_grant (ted_of d1 e)) want left1 (tgt_grant_chunk d1 e None) False = Some (a, d'))"
    using create_locked_inv [OF assms(1)] by blast
  obtain u where u: "frame e d d1" "ted_dirty (ted_of d1 e) = ted_dirty (ted_of d e)" "unat left1 + u = unat ?left"
    "unat (ted_grant (ted_of d1 e)) \<le> unat (ted_grant (ted_of d e))"
    "unat (ted_pending (ted_of d1 e)) = unat (ted_pending (ted_of d e)) + unat g"
    "unat (ted_grant (ted_of d1 e)) + unat g = unat (ted_grant (ted_of d e)) + u"
    using take_eff [OF t(1,2) _ assms(3,4)] assms(2) by (auto simp: small_def)
  have s1: "small d1 e" using u(2,4) assms(2) by (simp add: small_def)
  have h1: "held d1 e \<le> held d e + u" using u(5,6) by (simp add: held_def)
  have l1: "unat left1 = unat ?left - u" "u \<le> unat ?left" using u(3) by simp_all
  have bb: "tgd_blockbits (lut_tgd d1) \<le> 30" using u(1) assms(6) by (simp add: frame_def)
  have "modest e d1 d' (unat left1) \<and> ted_pending (ted_of d' e) = ted_pending (ted_of d1 e)"
  proof (cases "d' = d1")
    case False
    then obtain want a where "tgt_grant_alloc d1 e (ted_grant (ted_of d1 e)) want left1 (tgt_grant_chunk d1 e None) False = Some (a, d')" using t(3) by auto
    then show ?thesis using alloc_modest [OF _ s1, of "ted_grant (ted_of d1 e)" want left1 "tgt_grant_chunk d1 e None" False a d']
        alloc_pending frame_chunk [OF u(1), of e None] assms(3,5) bb l1 by (metis diff_le_self order.trans)
  qed (use s1 in \<open>simp add: modest_def\<close>)
  then show ?thesis using modest_trans [OF _ u(1) h1 l1(2)] l1(1) u(5) by simp
qed

lemma connect_modest:
  assumes "tgt_grant_connect_locked d e data new want chunk left = Some (d', data')" "small d e" "unat left \<le> 2 ^ 61" "unat chunk \<le> 2 ^ 40"
    "tgd_blockbits (lut_tgd d) \<le> 30"
  shows "modest e d d' (unat left)"
proof -
  obtain g d1 f where 1: "tgt_grant_alloc d e (ted_grant (ted_of d e)) want left chunk new = Some (g, d1)"
    "d' = upd_tgd f (upd_ted e (\<lambda>ted. ted\<lparr>ted_dirty := 0\<rparr>) d1)"
    "\<forall>t. tgd_tot_granted (f t) = tgd_tot_granted t \<and> tgd_osfs (f t) = tgd_osfs t \<and> tgd_blockbits (f t) = tgd_blockbits t"
    using connect_inv [OF assms(1)] by blast
  have "modest e d d1 (unat left)" by (rule alloc_modest [OF 1(1) assms(2-5)])
  moreover have "frame e d1 d'" using 1(2,3) by simp
  ultimately show ?thesis using 1(2) frame_trans [of e d d1 d'] by (auto simp: modest_def small_def held_def)
qed

lemma commit_modest:
  assumes "tgt_grant_commit d e p rc = Some d'" "small d e"
  shows "modest e d d' 0 \<and> unat (ted_pending (ted_of d' e)) + unat p = unat (ted_pending (ted_of d e))"
proof (cases "p = 0")
  case True
  then show ?thesis using assms by (simp add: tgt_grant_commit_def modest_def)
next
  case False
  have "\<exists>f. d' = upd_tgd f (upd_ted e (\<lambda>ted. ted\<lparr>ted_pending := ted_pending ted - p\<rparr>) d) \<and> p \<le> ted_pending (ted_of d e) \<and>
    (\<forall>t. tgd_blockbits (f t) = tgd_blockbits t \<and> os_bavail (tgd_osfs (f t)) \<le> os_bavail (tgd_osfs t))"
    using assms(1) False by (auto simp: tgt_grant_commit_def Let_def upd_tgd_def upd_ted_def ted_of_def word_sub_le_iff not_less split: if_split_asm)
  then obtain f where f: "d' = upd_tgd f (upd_ted e (\<lambda>ted. ted\<lparr>ted_pending := ted_pending ted - p\<rparr>) d)" "p \<le> ted_pending (ted_of d e)"
    "\<forall>t. tgd_blockbits (f t) = tgd_blockbits t \<and> os_bavail (tgd_osfs (f t)) \<le> os_bavail (tgd_osfs t)" by blast
  have "frame e d d'" using f(1,3) by (simp add: frame_def upd_ted_def)
  then show ?thesis using f(1,2) assms(2) unat_minus_le [OF f(2)] by (simp add: modest_def small_def held_def word_le_nat_alt)
qed

lemma discard_modest:
  assumes "tgt_grant_discard d e = Some d'" "small d e"
  shows "modest e d d' 0"
proof -
  have "frame e d d'" using assms(1) by (auto simp: tgt_grant_discard_def Let_def split: if_split_asm)
  then show ?thesis using discard_zero [OF assms(1)] discard_pending [OF assms(1), of e] by (simp add: modest_def small_def held_def)
qed

lemma ginv_modest:
  assumes g: "ginv B \<lparr>gs_dev = d, gs_out = out, gs_statfs = sf, gs_avail = av\<rparr>" and a: "acct \<lparr>gs_dev = d, gs_out = out, gs_statfs = sf, gs_avail = av\<rparr>"
    and k: "keeps e d d'" and e: "e \<in> set (all_exps d)" and m: "modest e d d' left"
    and l: "left = 0 \<or> left + (\<Sum>e \<leftarrow> all_exps d. held d e) \<le> B"
    and p: "unat (ted_pending (ted_of d' e)) = nres out' e" "\<And>x. x \<noteq> e \<Longrightarrow> nres out' x = nres out x"
  shows "ginv B \<lparr>gs_dev = d', gs_out = out', gs_statfs = sf', gs_avail = av'\<rparr>"
proof (rule ginv_upd [OF g a k _ e _ p])
  show "held d' e \<le> held d e \<or> held d' e + (\<Sum>e \<leftarrow> all_exps d. held d e) \<le> held d e + B + 2 ^ tgd_blockbits (lut_tgd d)"
    using m l by (cases "left = 0") (auto simp: modest_def)
qed (use m in \<open>simp_all add: modest_def\<close>)

lemma ginv_same:
  assumes "ginv B \<lparr>gs_dev = d, gs_out = out, gs_statfs = sf, gs_avail = av\<rparr>" "acct \<lparr>gs_dev = d, gs_out = out, gs_statfs = sf, gs_avail = av\<rparr>"
    "keeps e d d'" "e \<in> set (all_exps d)" "modest e d d' left" "left = 0 \<or> left + (\<Sum>e \<leftarrow> all_exps d. held d e) \<le> B"
    "ted_pending (ted_of d' e) = ted_pending (ted_of d e)"
  shows "ginv B \<lparr>gs_dev = d', gs_out = out, gs_statfs = sf', gs_avail = av'\<rparr>"
  by (rule ginv_modest [OF assms(1-6)]) (simp_all add: assms(7) ginvD(7) [OF assms(1,4)])

text \<open>Changes outside the counters, and of the list of exports.\<close>

lemma ginv_tgd:
  assumes "ginv B \<lparr>gs_dev = d, gs_out = out, gs_statfs = sf, gs_avail = av\<rparr>" "all_exps d' = all_exps d" "\<And>x. ted_of d' x = ted_of d x"
    "tgd_blockbits (lut_tgd d') = tgd_blockbits (lut_tgd d)" "unat (os_bavail (tgd_osfs (lut_tgd d'))) * 2 ^ tgd_blockbits (lut_tgd d) \<le> B"
  shows "ginv B \<lparr>gs_dev = d', gs_out = out, gs_statfs = sf', gs_avail = av'\<rparr>"
  using assms(1) unfolding ginv_def Let_def grant_sys.select_convs held_def small_def assms(2-4) using assms(5) by blast

lemma ginv_perm:
  assumes "ginv B \<lparr>gs_dev = d, gs_out = out, gs_statfs = sf, gs_avail = av\<rparr>" "mset (all_exps d') = mset (all_exps d)" "lut_tgd d' = lut_tgd d" "\<And>x. ted_of d' x = ted_of d x"
  shows "ginv B \<lparr>gs_dev = d', gs_out = out, gs_statfs = sf', gs_avail = av'\<rparr>"
proof -
  have "(\<Sum>e \<leftarrow> all_exps d'. held d e) = (\<Sum>e \<leftarrow> all_exps d. held d e)" by (rule sum_list_mset [OF assms(2)])
  moreover have "set (all_exps d') = set (all_exps d)" "length (all_exps d') = length (all_exps d)"
    using assms(2) by (rule mset_eq_setD, rule mset_eq_length)
  ultimately show ?thesis using assms(1) unfolding ginv_def Let_def grant_sys.select_convs held_def small_def assms(3,4) by simp
qed

lemma ginv_destroy:
  assumes "ginv B \<lparr>gs_dev = d, gs_out = out, gs_statfs = sf, gs_avail = av\<rparr>" "acct \<lparr>gs_dev = d, gs_out = out, gs_statfs = sf, gs_avail = av\<rparr>" "e \<in> set (obd_unlinked_exports d)"
  shows "ginv B \<lparr>gs_dev = d\<lparr>obd_unlinked_exports := remove1 e (obd_unlinked_exports d)\<rparr>, gs_out = out, gs_statfs = sf', gs_avail = av'\<rparr>"
proof -
  let ?d = "d\<lparr>obd_unlinked_exports := remove1 e (obd_unlinked_exports d)\<rparr>"
  have dis: "distinct (all_exps d)" using assms(2) by (simp add: acct_def Let_def)
  then have l: "all_exps ?d = remove1 e (all_exps d)" using assms(3) by (auto simp: all_exps_def remove1_append)
  have i: "e \<in> set (all_exps d)" using assms(3) by (simp add: all_exps_def)
  have t: "ted_of ?d x = ted_of d x" for x by (simp add: ted_of_def)
  have s: "set (all_exps ?d) \<subseteq> set (all_exps d)" "length (all_exps ?d) \<le> length (all_exps d)"
    unfolding l using set_remove1_subset [of e "all_exps d"] i by (auto simp: length_remove1)
  have "(\<Sum>x \<leftarrow> all_exps d. held d x) = held d e + (\<Sum>x \<leftarrow> all_exps ?d. held d x)"
    unfolding l using sum_list_mset [of "all_exps d" "e # remove1 e (all_exps d)" "held d"] i by simp
  then show ?thesis using ginvD(1-5) [OF assms(1)] ginvD(6,7) [OF assms(1)] s
    unfolding ginv_def Let_def grant_sys.select_convs held_def small_def t by (auto simp: subset_iff)
qed

lemma ginv_new:
  assumes "ginv B \<lparr>gs_dev = d, gs_out = out, gs_statfs = sf, gs_avail = av\<rparr>" "acct \<lparr>gs_dev = d, gs_out = out, gs_statfs = sf, gs_avail = av\<rparr>" "e \<notin> set (all_exps d)"
    "exp_target_data ex = \<lparr>ted_dirty = 0, ted_grant = 0, ted_pending = 0\<rparr>" "length (all_exps d) < 2 ^ 20"
  shows "ginv B \<lparr>gs_dev = d\<lparr>obd_exp := (obd_exp d)(e := ex), obd_exports := e # obd_exports d\<rparr>, gs_out = out, gs_statfs = sf', gs_avail = av'\<rparr>"
proof -
  let ?d = "d\<lparr>obd_exp := (obd_exp d)(e := ex), obd_exports := e # obd_exports d\<rparr>"
  have m: "mset (all_exps ?d) = mset (e # all_exps d)" by (simp add: all_exps_def)
  have t: "ted_of ?d x = (if x = e then \<lparr>ted_dirty = 0, ted_grant = 0, ted_pending = 0\<rparr> else ted_of d x)" for x
    using assms(4) by (simp add: ted_of_def)
  have "(\<Sum>x \<leftarrow> all_exps ?d. held ?d x) = (\<Sum>x \<leftarrow> e # all_exps d. held ?d x)" by (rule sum_list_mset [OF m])
  also have "\<dots> = (\<Sum>x \<leftarrow> all_exps d. held ?d x)" by (simp add: held_def t)
  also have "\<dots> = (\<Sum>x \<leftarrow> all_exps d. held d x)" using assms(3) by (intro arg_cong [of _ _ sum_list] map_cong) (auto simp: held_def t)
  finally have s: "(\<Sum>x \<leftarrow> all_exps ?d. held ?d x) = (\<Sum>x \<leftarrow> all_exps d. held d x)" .
  have "e \<notin> fst ` set out" using acct_out [OF assms(2)] assms(3) by blast
  then have "nres out e = 0" by (induction out) (auto simp: nres_def)
  then have "small ?d x \<and> unat (ted_pending (ted_of ?d x)) = nres out x" if "x \<in> set (all_exps ?d)" for x
    using that mset_eq_setD [OF m] ginvD(6,7) [OF assms(1), of x] by (cases "x = e") (auto simp: small_def t)
  then show ?thesis using ginvD(1-5) [OF assms(1)] s assms(5) mset_eq_length [OF m]
    unfolding ginv_def Let_def grant_sys.select_convs by simp
qed

text \<open>The available space of the backend shrinks with the commits and grows when space is freed.\<close>

lemma ginv_avail:
  assumes "ginv A \<lparr>gs_dev = d, gs_out = out, gs_statfs = sf, gs_avail = av\<rparr>" "A' \<le> 2 ^ 61"
    "unat (os_bavail (tgd_osfs (lut_tgd d))) * 2 ^ tgd_blockbits (lut_tgd d) \<le> A'"
    "(\<Sum>e \<leftarrow> all_exps d. held d e) \<le> A' + 2 ^ tgd_blockbits (lut_tgd d)"
  shows "ginv A' \<lparr>gs_dev = d, gs_out = out, gs_statfs = sf', gs_avail = av'\<rparr>"
  using assms unfolding ginv_def Let_def grant_sys.select_convs by blast

lemma unat_drop_blocks: "unat (a - min a (drop_bit n (w :: u64))) = unat a - unat w div 2 ^ n"
proof -
  have "unat (drop_bit n w) = unat w div 2 ^ n"
    using unat_lt_bound [of w] by (simp only: unsigned_drop_bit_eq) (simp add: drop_bit_eq_div take_bit_nat_eq_self)
  then show ?thesis by (subst unat_minus_le) (simp_all add: min_def word_le_nat_alt)
qed

lemma commit_eff:
  assumes "tgt_grant_commit d e p rc = Some d'"
  shows "tgd_blockbits (lut_tgd d') = tgd_blockbits (lut_tgd d)" "tgd_statfs_inflight (lut_tgd d') = tgd_statfs_inflight (lut_tgd d)"
    "tgd_osfs_inflight (lut_tgd d') =
       (if rc = 0 \<and> tgd_statfs_inflight (lut_tgd d) \<noteq> 0 then tgd_osfs_inflight (lut_tgd d) + p else tgd_osfs_inflight (lut_tgd d))"
    "rc = 0 \<Longrightarrow> unat (os_bavail (tgd_osfs (lut_tgd d'))) = unat (os_bavail (tgd_osfs (lut_tgd d))) - unat p div 2 ^ tgd_blockbits (lut_tgd d)"
    "rc \<noteq> 0 \<Longrightarrow> os_bavail (tgd_osfs (lut_tgd d')) = os_bavail (tgd_osfs (lut_tgd d))"
  using assms by (auto simp: tgt_grant_commit_def Let_def unat_drop_blocks split: if_split_asm)

lemma blocks_taken: "c \<le> (p::nat) \<Longrightarrow> 2 ^ n dvd c \<Longrightarrow> c \<le> p div 2 ^ n * 2 ^ n"
  by (metis div_le_mono dvd_div_mult_self mult_le_mono1)

lemma blocks_taken_since: "c \<le> (p::nat) \<Longrightarrow> 2 ^ n dvd c \<Longrightarrow> m div 2 ^ n * 2 ^ n + c \<le> (m + p) div 2 ^ n * 2 ^ n"
proof -
  assume c: "c \<le> p" "2 ^ n dvd c"
  then obtain k where k: "c = k * 2 ^ n" by (metis dvd_def mult.commute)
  have "m div 2 ^ n + k = (m + c) div 2 ^ n" unfolding k by simp
  also have "\<dots> \<le> (m + p) div 2 ^ n" using c(1) by (intro div_le_mono) simp
  finally have "(m div 2 ^ n + k) * 2 ^ n \<le> (m + p) div 2 ^ n * 2 ^ n" by (rule mult_le_mono1)
  then show ?thesis unfolding k by (simp add: add_mult_distrib)
qed

text \<open>
  What the running calls of \<open>dt_statfs\<close> know: each is counted, the bytes committed since its start are those by
  which the in-flight counter has grown, and with them the answer of the backend covers what is available now.
\<close>

definition call_ok :: "tg_grants_data \<Rightarrow> nat \<Rightarrow> statfs_call \<Rightarrow> bool" where
  "call_ok tgd A call \<longleftrightarrow> tgd_osfs_inflight tgd - sc_unstable call = of_nat (sc_committed call) \<and>
     (case sc_osfs call of None \<Rightarrow> True
      | Some osfs \<Rightarrow> unat (os_bavail osfs) * 2 ^ tgd_blockbits tgd \<le> A + sc_committed call div 2 ^ tgd_blockbits tgd * 2 ^ tgd_blockbits tgd)"

definition statfs_inv :: "tg_grants_data \<Rightarrow> nat \<Rightarrow> statfs_call list \<Rightarrow> bool" where
  "statfs_inv tgd A sf \<longleftrightarrow> length sf \<le> unat (tgd_statfs_inflight tgd) \<and> (\<forall>call \<in> set sf. call_ok tgd A call)"

lemma call_ok_cong:
  "tgd_osfs_inflight t' = tgd_osfs_inflight t \<Longrightarrow> tgd_blockbits t' = tgd_blockbits t \<Longrightarrow> call_ok t' A call = call_ok t A call"
  by (simp only: call_ok_def)

lemma statfs_inv_remove: "statfs_inv tgd A sf \<Longrightarrow> statfs_inv tgd A (remove1 call sf)"
  using set_remove1_subset [of call sf] by (auto simp: statfs_inv_def length_remove1)

lemma statfs_inv_begin:
  assumes "statfs_inv tgd A sf" "tgt_statfs_begin tgd = (u, tgd')" "tgd_statfs_inflight tgd + 1 \<noteq> 0"
  shows "statfs_inv tgd' A (\<lparr>sc_unstable = u, sc_committed = 0, sc_osfs = None\<rparr> # sf)"
proof -
  have n: "unat (tgd_statfs_inflight tgd + 1) = unat (tgd_statfs_inflight tgd) + 1"
    using assms(3) by (metis Suc_eq_plus1 add.commute unatSuc)
  have t: "tgd_statfs_inflight tgd' = tgd_statfs_inflight tgd + 1" "tgd_osfs_inflight tgd' = u" "tgd_blockbits tgd' = tgd_blockbits tgd"
    "tgd_statfs_inflight tgd \<noteq> 0 \<Longrightarrow> tgd_osfs_inflight tgd' = tgd_osfs_inflight tgd"
    using assms(2) by (auto simp: tgt_statfs_begin_def Let_def)
  have "sf = []" if "tgd_statfs_inflight tgd = 0" using assms(1) that by (simp add: statfs_inv_def)
  then have "call_ok tgd' A call" if "call \<in> set sf" for call
    using that assms(1) call_ok_cong [OF t(4,3)] by (cases "tgd_statfs_inflight tgd = 0") (auto simp: statfs_inv_def)
  then show ?thesis using assms(1) n t by (auto simp: statfs_inv_def call_ok_def)
qed

lemma statfs_inv_end:
  assumes inv: "statfs_inv tgd A sf" and call: "call \<in> set sf" "sc_osfs call = Some osfs" "sc_committed call < 2 ^ 64"
    and e: "tgt_statfs_end (sc_unstable call) osfs now tgd = (osfs', tgd')"
  shows "statfs_inv tgd' A (remove1 call sf)" "unat (os_bavail (tgd_osfs tgd')) * 2 ^ tgd_blockbits tgd \<le> A"
proof -
  let ?n = "tgd_blockbits tgd" and ?u = "tgd_osfs_inflight tgd - sc_unstable call"
  have ok: "call_ok tgd A call" using inv call(1) by (simp add: statfs_inv_def)
  then have u: "unat ?u = sc_committed call" using call(3) by (simp add: call_ok_def unat_of_nat take_bit_nat_eq_self)
  have "os_bavail (tgd_osfs tgd') = os_bavail osfs - min (os_bavail osfs) (drop_bit ?n ?u)"
    using e by (auto simp: tgt_statfs_end_def Let_def split: if_split_asm)
  then have "unat (os_bavail (tgd_osfs tgd')) = unat (os_bavail osfs) - sc_committed call div 2 ^ ?n" by (simp add: unat_drop_blocks u)
  then have "unat (os_bavail (tgd_osfs tgd')) * 2 ^ ?n = unat (os_bavail osfs) * 2 ^ ?n - sc_committed call div 2 ^ ?n * 2 ^ ?n"
    by (simp add: diff_mult_distrib)
  moreover have "unat (os_bavail osfs) * 2 ^ ?n \<le> A + sc_committed call div 2 ^ ?n * 2 ^ ?n" using ok call(2) by (simp add: call_ok_def)
  ultimately show "unat (os_bavail (tgd_osfs tgd')) * 2 ^ ?n \<le> A" by linarith
  have t: "tgd_statfs_inflight tgd' = tgd_statfs_inflight tgd - 1" "tgd_blockbits tgd' = ?n"
    "tgd_statfs_inflight tgd - 1 \<noteq> 0 \<Longrightarrow> tgd_osfs_inflight tgd' = tgd_osfs_inflight tgd"
    using e by (auto simp: tgt_statfs_end_def Let_def split: if_split_asm)
  have l: "length (remove1 call sf) = length sf - 1" "0 < length sf" using call(1) by (auto simp: length_remove1)
  have le: "length sf \<le> unat (tgd_statfs_inflight tgd)" using inv by (simp add: statfs_inv_def)
  then have "unat (tgd_statfs_inflight tgd - 1) = unat (tgd_statfs_inflight tgd) - 1"
    using l(2) by (intro unat_minus_one) auto
  then have le': "length (remove1 call sf) \<le> unat (tgd_statfs_inflight tgd')" using l le t(1) by simp
  have "call_ok tgd' A x" if x: "x \<in> set (remove1 call sf)" for x
  proof -
    have "0 < length (remove1 call sf)" using x by (cases "remove1 call sf") auto
    then have "tgd_statfs_inflight tgd - 1 \<noteq> 0" using le' t(1) by (metis le_zero_eq neq0_conv unat_0)
    moreover have "call_ok tgd A x" using inv x set_remove1_subset [of call sf] by (auto simp: statfs_inv_def)
    ultimately show ?thesis using call_ok_cong [OF t(3,2)] by blast
  qed
  then show "statfs_inv tgd' A (remove1 call sf)" using le' by (simp add: statfs_inv_def)
qed

lemma statfs_inv_commit:
  assumes inv: "statfs_inv (lut_tgd d) A sf" and c: "tgt_grant_commit d e p rc = Some d'"
    and k: "k \<le> unat p" "2 ^ tgd_blockbits (lut_tgd d) dvd k" "k \<le> A" "rc \<noteq> 0 \<longrightarrow> k = 0"
  shows "statfs_inv (lut_tgd d') (A - k) (if rc = 0 then map (\<lambda>call. call\<lparr>sc_committed := sc_committed call + unat p\<rparr>) sf else sf)"
proof (cases "rc = 0")
  case False
  then show ?thesis using inv k(4) commit_eff(1-3) [OF c] by (auto simp: statfs_inv_def call_ok_def split: option.splits)
next
  case True
  have "call_ok (lut_tgd d') (A - k) (call\<lparr>sc_committed := sc_committed call + unat p\<rparr>)" if "call \<in> set sf" for call
  proof -
    let ?n = "tgd_blockbits (lut_tgd d)"
    have "tgd_statfs_inflight (lut_tgd d) \<noteq> 0" using inv that by (auto simp: statfs_inv_def)
    then have t: "tgd_osfs_inflight (lut_tgd d') = tgd_osfs_inflight (lut_tgd d) + p" using commit_eff(3) [OF c] True by simp
    have ok: "call_ok (lut_tgd d) A call" using inv that by (simp add: statfs_inv_def)
    have "tgd_osfs_inflight (lut_tgd d') - sc_unstable call = of_nat (sc_committed call) + p"
      using ok unfolding t by (simp add: call_ok_def diff_add_eq)
    then have 1: "tgd_osfs_inflight (lut_tgd d') - sc_unstable call = of_nat (sc_committed call + unat p)" by simp
    have "unat (os_bavail osfs) * 2 ^ ?n \<le> A - k + (sc_committed call + unat p) div 2 ^ ?n * 2 ^ ?n" if "sc_osfs call = Some osfs" for osfs
      using ok that blocks_taken_since [OF k(1,2), of "sc_committed call"] k(3) unfolding call_ok_def by (simp only: option.case) linarith
    then show ?thesis using 1 commit_eff(1) [OF c] by (simp add: call_ok_def split: option.splits)
  qed
  then show ?thesis using inv True commit_eff(2) [OF c] by (simp add: statfs_inv_def)
qed

text \<open>The other operations do not touch the data of the running calls.\<close>

definition quiet :: "obd_device \<Rightarrow> obd_device \<Rightarrow> bool" where
  "quiet d d' \<longleftrightarrow> tgd_statfs_inflight (lut_tgd d') = tgd_statfs_inflight (lut_tgd d) \<and>
     tgd_osfs_inflight (lut_tgd d') = tgd_osfs_inflight (lut_tgd d) \<and> tgd_blockbits (lut_tgd d') = tgd_blockbits (lut_tgd d)"

lemma quiet_trans: "quiet d d1 \<Longrightarrow> quiet d1 d2 \<Longrightarrow> quiet d d2"
  by (simp add: quiet_def)

lemma quiet_ops:
  "tgt_grant_incoming d e oa chunk = Some (d', oa') \<Longrightarrow> quiet d d'"
  "quiet d (fst (tgt_grant_shrink d e oa left))"
  "tgt_grant_check d e oa rnb left = Some (d', r) \<Longrightarrow> quiet d d'"
  "tgt_grant_alloc d e cur want left chunk cons = Some (g, d') \<Longrightarrow> quiet d d'"
  "quiet d (fst (create_take d e wanted left))"
  "tgt_grant_discard d e = Some d' \<Longrightarrow> quiet d d'"
  by (auto simp: tgt_grant_incoming_def tgt_grant_shrink_def tgt_grant_check_def tgt_grant_alloc_def create_take_def
      tgt_grant_discard_def quiet_def Let_def split: if_split_asm prod.split_asm option.split_asm)

lemma quiet_connect:
  assumes "tgt_grant_connect_locked d e data new want chunk left = Some (d', data')"
  shows "quiet d d'"
  using assms unfolding tgt_grant_connect_locked_def Let_def
  by (rule bind_SomeE) (auto simp: quiet_def dest!: quiet_ops(4))

lemma quiet_read: "tgt_grant_read_locked d e oa = Some (d', oa') \<Longrightarrow> quiet d d'"
  using read_locked_inv quiet_ops(1,2) quiet_trans by (metis (no_types, lifting))

lemma quiet_write:
  assumes "tgt_grant_write_locked d e oa rnb left chunk = Some (d', oa', rnb')"
  shows "quiet d d'"
proof -
  obtain d1 oa1 d2 oa2 left2 where w: "tgt_grant_incoming d e oa chunk = Some (d1, oa1)"
    "tgt_grant_check d1 e oa1 rnb left = Some (d2, oa2, rnb', left2)"
    "if \<not> has (o_valid oa2) OBD_MD_FLGRANT then d' = d2
     else if shrinking oa2 then d' = fst (tgt_grant_shrink d2 e oa2 left2)
     else \<exists>g. tgt_grant_alloc d2 e (o_grant oa2) (ucast (o_undirty oa2)) left2 chunk True = Some (g, d')"
    using write_locked_inv [OF assms] by blast
  have "d' = d2 \<or> quiet d2 d'" using w(3) quiet_ops(2,4) by (auto split: if_split_asm)
  then show ?thesis using quiet_ops(1) [OF w(1)] quiet_ops(3) [OF w(2)] quiet_trans by blast
qed

lemma quiet_create:
  assumes "tgt_grant_create_locked d e nr = Some (d', r)"
  shows "quiet d d'"
proof (cases r)
  case (Inl rc)
  then show ?thesis using create_locked_fails [of d e nr d' rc] assms by (simp add: quiet_def)
next
  case (Inr p)
  obtain d1 left1 where t: "create_take d e (fst p) (tgt_grant_space_left (lut_tgd d)) = (d1, left1)"
    "d' = d1 \<or> (\<exists>want g. tgt_grant_alloc d1 e (ted_grant (ted_of d1 e)) want left1 (tgt_grant_chunk d1 e None) False = Some (g, d'))"
    using create_locked_inv [of d e nr d' "fst p" "snd p"] assms Inr by auto
  show ?thesis using quiet_ops(5) [of d e "fst p" "tgt_grant_space_left (lut_tgd d)"] t quiet_ops(4) quiet_trans by (metis fst_conv)
qed

lemma statfs_inv_quiet: "statfs_inv (lut_tgd d) A sf \<Longrightarrow> quiet d d' \<Longrightarrow> statfs_inv (lut_tgd d') A sf"
  unfolding statfs_inv_def quiet_def using call_ok_cong by metis

lemma statfs_inv_freed: "statfs_inv tgd A sf \<Longrightarrow> A \<le> A' \<Longrightarrow> statfs_inv tgd A' sf"
  by (auto simp: statfs_inv_def call_ok_def split: option.splits intro: order.trans)

lemma ginv_pending:
  assumes "ginv B \<lparr>gs_dev = d, gs_out = out, gs_statfs = sf, gs_avail = av\<rparr>" "e \<in> set (all_exps d)"
  shows "unat (ted_pending (ted_of d e)) \<le> 2 ^ 62"
proof -
  have "unat (ted_pending (ted_of d e)) \<le> held d e" by (simp add: held_def)
  then show ?thesis using le_sum_list [OF assms(2), of "held d"] ginv_total(2) [OF assms(1)] by linarith
qed

text \<open>The invariant of the fair runs.\<close>

definition sys_inv :: "nat \<Rightarrow> grant_sys \<Rightarrow> bool" where
  "sys_inv B s \<longleftrightarrow> gs_avail s \<le> B \<and> B \<le> 2 ^ 61 \<and> ginv (gs_avail s) s \<and> statfs_inv (lut_tgd (gs_dev s)) (gs_avail s) (gs_statfs s)"

lemma sys_start: "grant_start True B s \<Longrightarrow> sys_inv B s"
  by (auto simp: grant_start_def sys_inv_def statfs_inv_def ginv_def all_exps_def Let_def held_def small_def nres_def)

lemma sys_invI:
  assumes "sys_inv B \<lparr>gs_dev = d, gs_out = out, gs_statfs = sf, gs_avail = av\<rparr>" "quiet d d'"
    and "ginv av \<lparr>gs_dev = d', gs_out = out', gs_statfs = sf, gs_avail = av\<rparr>"
  shows "sys_inv B \<lparr>gs_dev = d', gs_out = out', gs_statfs = sf, gs_avail = av\<rparr>"
  using assms statfs_inv_quiet [of d av sf d'] by (simp add: sys_inv_def)

lemma sys_invD: "sys_inv B \<lparr>gs_dev = d, gs_out = out, gs_statfs = sf, gs_avail = av\<rparr> \<Longrightarrow>
    ginv av \<lparr>gs_dev = d, gs_out = out, gs_statfs = sf, gs_avail = av\<rparr> \<and> statfs_inv (lut_tgd d) av sf"
  by (simp add: sys_inv_def)

lemma commit_total: "tgt_grant_commit d e p rc = Some d' \<Longrightarrow> unat (tgd_tot_granted (lut_tgd d')) + unat p = unat (tgd_tot_granted (lut_tgd d))"
  by (auto simp: tgt_grant_commit_def Let_def not_less unat_minus_le word_le_nat_alt split: if_split_asm)

lemma ginv_commit:
  assumes g: "ginv av \<lparr>gs_dev = d, gs_out = out, gs_statfs = sf, gs_avail = av\<rparr>"
    and a: "acct \<lparr>gs_dev = d, gs_out = out, gs_statfs = sf, gs_avail = av\<rparr>"
    and o: "(e, p) \<in> set out" and c: "tgt_grant_commit d e p rc = Some d'"
    and k: "k \<le> unat p" "2 ^ tgd_blockbits (lut_tgd d) dvd k" "k \<le> av" "rc \<noteq> 0 \<longrightarrow> k = 0"
  shows "ginv (av - k) \<lparr>gs_dev = d', gs_out = remove1 (e, p) out, gs_statfs = sf', gs_avail = av'\<rparr>"
proof -
  let ?out = "remove1 (e, p) out" and ?n = "tgd_blockbits (lut_tgd d)"
  have e: "e \<in> set (all_exps d)" using acct_out [OF a] o by force
  have m: "modest e d d' 0" "unat (ted_pending (ted_of d' e)) + unat p = unat (ted_pending (ted_of d e))"
    using commit_modest [OF c ginvD(6) [OF g e]] by simp_all
  have n: "nres ?out x = nres out x" if "x \<noteq> e" for x using nres_remove1 [OF o, of x] that by simp
  have g': "ginv av \<lparr>gs_dev = d', gs_out = ?out, gs_statfs = sf', gs_avail = av'\<rparr>"
    using m(2) ginvD(7) [OF g e] nres_remove1 [OF o, of e] n by (intro ginv_modest [OF g a keeps_commit [OF c] e m(1)]) auto
  have "acct \<lparr>gs_dev = d', gs_out = ?out, gs_statfs = sf', gs_avail = av'\<rparr>"
  proof (rule acct_keeps [OF a keeps_commit [OF c] e])
    show "fst ` set ?out \<subseteq> set (all_exps d)" using acct_out [OF a] set_remove1_subset [of "(e, p)" out] by blast
  qed (simp add: commit_pending [OF c] reserved_remove1 [OF o])
  then have tot: "(\<Sum>x \<leftarrow> all_exps d'. held d' x) + unat p = (\<Sum>x \<leftarrow> all_exps d. held d x)"
    using ginv_exact(1) [OF g a] ginv_exact(1) [OF g'] commit_total [OF c] by simp
  have "unat (os_bavail (tgd_osfs (lut_tgd d'))) * 2 ^ ?n \<le> av - k"
  proof (cases "rc = 0")
    case True
    then have "unat (os_bavail (tgd_osfs (lut_tgd d'))) * 2 ^ ?n = unat (os_bavail (tgd_osfs (lut_tgd d))) * 2 ^ ?n - unat p div 2 ^ ?n * 2 ^ ?n"
      using commit_eff(4) [OF c] by (simp add: diff_mult_distrib)
    then show ?thesis using ginvD(3) [OF g] blocks_taken [OF k(1,2)] by linarith
  next
    case False
    then show ?thesis using ginvD(3) [OF g] commit_eff(5) [OF c] k(4) by simp
  qed
  then show ?thesis
    using ginvD(1,5) [OF g] tot k(1,3) commit_eff(1) [OF c] by (intro ginv_avail [OF g']) simp_all
qed

lemma ginv_discard:
  assumes "ginv A \<lparr>gs_dev = d, gs_out = out, gs_statfs = sf, gs_avail = av\<rparr>" "acct \<lparr>gs_dev = d, gs_out = out, gs_statfs = sf, gs_avail = av\<rparr>"
    "e \<in> set (all_exps d)" "tgt_grant_discard d e = Some d'"
  shows "ginv A \<lparr>gs_dev = d', gs_out = out, gs_statfs = sf, gs_avail = av\<rparr>"
  by (rule ginv_same [OF assms(1,2) keeps_discard [OF assms(4)] assms(3) discard_modest [OF assms(4) ginvD(6) [OF assms(1,3)]]])
    (simp_all add: discard_pending [OF assms(4)])

lemma ginv_create:
  assumes g: "ginv A \<lparr>gs_dev = d, gs_out = out, gs_statfs = sf, gs_avail = av\<rparr>"
    and a: "acct \<lparr>gs_dev = d, gs_out = out, gs_statfs = sf, gs_avail = av\<rparr>"
    and c: "tgt_grant_create_locked d (obd_self_export d) nr = Some (d', r)"
    and k: "unat (tgt_grant_chunk d (obd_self_export d) None) \<le> 2 ^ 40"
  shows "ginv A \<lparr>gs_dev = d', gs_out = (case r of Inl _ \<Rightarrow> out | Inr (g, _) \<Rightarrow> (obd_self_export d, g) # out), gs_statfs = sf, gs_avail = av\<rparr>"
proof (cases r)
  case (Inl rc)
  then have "d' = d" using create_locked_fails [of d "obd_self_export d" nr d' rc] c by simp
  then show ?thesis using g Inl by simp
next
  case (Inr q)
  let ?e = "obd_self_export d"
  obtain x nr' where q: "q = (x, nr')" by (cases q)
  have c': "tgt_grant_create_locked d ?e nr = Some (d', Inr (x, nr'))" using c Inr q by simp
  have m: "modest ?e d d' (unat (tgt_grant_space_left (lut_tgd d)))" "unat (ted_pending (ted_of d' ?e)) = unat (ted_pending (ted_of d ?e)) + unat x"
    using create_modest [OF c' ginvD(6) [OF g self_in] ginv_left(2) [OF g a] ginv_pending [OF g self_in] k ginvD(2) [OF g]] by simp_all
  show ?thesis unfolding Inr q using ginv_left(1) [OF g a] m(2) ginvD(7) [OF g self_in]
    by (simp, intro ginv_modest [OF g a keeps_create_locked [OF c] self_in m(1)]) (auto simp: unat_eq_0)
qed

lemma sys_step:
  assumes "grant_step True B s s'" "acct s" "sys_inv B s"
  shows "sys_inv B s'"
  using assms(1)
proof cases
  case (statfs_begin d u tgd out sf av)
  note i = assms(3) [unfolded statfs_begin(1)]
  note g = conjunct1 [OF sys_invD [OF i]]
  have "tgd = snd (tgt_statfs_begin (lut_tgd d))" using statfs_begin(3) by simp
  then have "ginv av \<lparr>gs_dev = d\<lparr>lut_tgd := tgd\<rparr>, gs_out = out, gs_statfs = sf', gs_avail = av\<rparr>" for sf'
    using ginvD(3) [OF g] by (intro ginv_tgd [OF g]) (simp_all add: all_exps_def ted_of_def)
  then show ?thesis unfolding statfs_begin(2) using i statfs_inv_begin [OF _ statfs_begin(3), of av sf] statfs_begin(4)
    by (simp add: sys_inv_def)
next
  case (statfs_sample call sf osfs d av out)
  note i = assms(3) [unfolded statfs_sample(1)]
  have "call_ok (lut_tgd d) av (call\<lparr>sc_osfs := Some osfs\<rparr>)"
    using i statfs_sample(3,4) by (auto simp: sys_inv_def statfs_inv_def call_ok_def intro: order.trans)
  moreover have "length (remove1 call sf) < length sf" using length_pos_if_in_set [OF statfs_sample(3)] statfs_sample(3) by (simp add: length_remove1)
  ultimately show ?thesis unfolding statfs_sample(2)
    using i statfs_inv_remove [of "lut_tgd d" av sf call] by (auto simp: sys_inv_def statfs_inv_def ginv_def Let_def)
next
  case (statfs_end call sf osfs now d osfs' tgd out av)
  note i = assms(3) [unfolded statfs_end(1)]
  note g = conjunct1 [OF sys_invD [OF i]]
  have t: "tgd = snd (tgt_statfs_end (sc_unstable call) osfs now (lut_tgd d))" using statfs_end(5) by simp
  have sv: "statfs_inv (lut_tgd d) av sf" using i by (simp add: sys_inv_def)
  note E = statfs_inv_end [OF sv statfs_end(3,4) _ statfs_end(5)]
  have "ginv av \<lparr>gs_dev = d\<lparr>lut_tgd := tgd\<rparr>, gs_out = out, gs_statfs = remove1 call sf, gs_avail = av\<rparr>"
    using E(2) statfs_end(6) t by (intro ginv_tgd [OF g]) (simp_all add: all_exps_def ted_of_def)
  then show ?thesis unfolding statfs_end(2) using i E(1) statfs_end(6) by (simp add: sys_inv_def)
next
  case (statfs_fail call sf d out av)
  show ?thesis using assms(3) statfs_inv_remove unfolding statfs_fail by (auto simp: sys_inv_def ginv_def Let_def)
next
  case (new_export e d ex out sf av)
  note i = assms(3) [unfolded new_export(1)] and a = assms(2) [unfolded new_export(1)]
  note g = conjunct1 [OF sys_invD [OF i]]
  show ?thesis unfolding new_export(2)
    by (rule sys_invI [OF i _ ginv_new [OF g a new_export(3,4)]]) (use new_export(5) in \<open>simp_all add: quiet_def\<close>)
next
  case (connect e d data new_conn want d' data' out sf av)
  note i = assms(3) [unfolded connect(1)] and a = assms(2) [unfolded connect(1)]
  note g = conjunct1 [OF sys_invD [OF i]]
  have m: "modest e d d' (unat (tgt_grant_space_left (lut_tgd d)))"
    using connect_modest [OF connect(4) ginvD(6) [OF g connect(3)] ginv_left(2) [OF g a] _ ginvD(2) [OF g]] connect(5) by simp
  have "ginv av \<lparr>gs_dev = d', gs_out = out, gs_statfs = sf, gs_avail = av\<rparr>" using ginv_left(1) [OF g a]
    by (intro ginv_same [OF g a keeps_connect_locked [OF connect(4)] connect(3) m]) (auto simp: unat_eq_0 connect_pending [OF connect(4)])
  then show ?thesis unfolding connect(2) by (rule sys_invI [OF i quiet_connect [OF connect(4)]])
next
  case (bulk_read e d oa d' oa' out sf av)
  note i = assms(3) [unfolded bulk_read(1)] and a = assms(2) [unfolded bulk_read(1)]
  note g = conjunct1 [OF sys_invD [OF i]]
  have m: "modest e d d' 0" using read_modest [OF bulk_read(4) ginvD(6) [OF g bulk_read(3)]] bulk_read(5) by simp
  have "ginv av \<lparr>gs_dev = d', gs_out = out, gs_statfs = sf, gs_avail = av\<rparr>"
    by (rule ginv_same [OF g a keeps_read_locked [OF bulk_read(4)] bulk_read(3) m]) (simp_all add: read_pending [OF bulk_read(4)])
  then show ?thesis unfolding bulk_read(2) by (rule sys_invI [OF i quiet_read [OF bulk_read(4)]])
next
  case (bulk_write e d oa rnb d' oa' rnb' out sf av)
  note i = assms(3) [unfolded bulk_write(1)] and a = assms(2) [unfolded bulk_write(1)]
  note g = conjunct1 [OF sys_invD [OF i]]
  have m: "modest e d d' (unat (tgt_grant_space_left (lut_tgd d)))"
    "unat (ted_pending (ted_of d' e)) = unat (ted_pending (ted_of d e)) + unat (o_grant_used oa')"
    using write_modest [OF bulk_write(4) ginvD(6) [OF g bulk_write(3)] _ _ ginv_left(2) [OF g a] ginv_pending [OF g bulk_write(3)] ginvD(2) [OF g]] bulk_write(5) by simp_all
  have "ginv av \<lparr>gs_dev = d', gs_out = (e, o_grant_used oa') # out, gs_statfs = sf, gs_avail = av\<rparr>"
    using ginv_left(1) [OF g a] m(2) ginvD(7) [OF g bulk_write(3)]
    by (intro ginv_modest [OF g a keeps_write_locked [OF bulk_write(4)] bulk_write(3) m(1)]) (auto simp: unat_eq_0)
  then show ?thesis unfolding bulk_write(2) by (rule sys_invI [OF i quiet_write [OF bulk_write(4)]])
next
  case (create d nr d' r out sf av)
  note i = assms(3) [unfolded create(1)] and a = assms(2) [unfolded create(1)]
  note g = conjunct1 [OF sys_invD [OF i]]
  show ?thesis unfolding create(2)
    by (rule sys_invI [OF i quiet_create [OF create(3)] ginv_create [OF g a create(3)]]) (use create(4) in simp)
next
  case (commit e p out d rc d' c av sf)
  note i = assms(3) [unfolded commit(1)] and a = assms(2) [unfolded commit(1)]
  note g = conjunct1 [OF sys_invD [OF i]]
  have k: "c \<le> unat p" "2 ^ tgd_blockbits (lut_tgd d) dvd c" "c \<le> av" "rc \<noteq> 0 \<longrightarrow> c = 0" using commit(5) by auto
  show ?thesis unfolding commit(2)
    using i ginv_commit [OF g a commit(3,4) k] statfs_inv_commit [OF conjunct2 [OF sys_invD [OF i]] commit(4) k]
    by (auto simp: sys_inv_def)
next
  case (disconnect e d d' out sf av)
  note i = assms(3) [unfolded disconnect(1)] and a = assms(2) [unfolded disconnect(1)]
  note g = conjunct1 [OF sys_invD [OF i]]
  have e: "e \<in> set (all_exps d)" using disconnect(3) by (simp add: all_exps_def)
  have "e \<in> set (obd_exports d')" using disconnect(3) keeps_discard [OF disconnect(4)] by (simp add: keeps_def)
  then have "ginv av \<lparr>gs_dev = d'\<lparr>obd_exports := remove1 e (obd_exports d'), obd_unlinked_exports := e # obd_unlinked_exports d'\<rparr>,
      gs_out = out, gs_statfs = sf, gs_avail = av\<rparr>"
    by (intro ginv_perm [OF ginv_discard [OF g a e disconnect(4)]]) (simp_all add: all_exps_def ted_of_def)
  then show ?thesis unfolding disconnect(2)
    using quiet_ops(6) [OF disconnect(4)] by (intro sys_invI [OF i]) (simp_all add: quiet_def)
next
  case (destroy e d out d' sf av)
  note i = assms(3) [unfolded destroy(1)] and a = assms(2) [unfolded destroy(1)]
  note g = conjunct1 [OF sys_invD [OF i]]
  have e: "e \<in> set (all_exps d)" using destroy(3) by (simp add: all_exps_def)
  have "e \<in> set (obd_unlinked_exports d')" using destroy(3) keeps_discard [OF destroy(5)] by (simp add: keeps_def)
  moreover have "acct \<lparr>gs_dev = d', gs_out = out, gs_statfs = sf, gs_avail = av\<rparr>"
    by (rule acct_same [OF a keeps_discard [OF destroy(5)] e]) (rule discard_pending [OF destroy(5)])
  ultimately have "ginv av \<lparr>gs_dev = d'\<lparr>obd_unlinked_exports := remove1 e (obd_unlinked_exports d')\<rparr>,
      gs_out = out, gs_statfs = sf, gs_avail = av\<rparr>"
    by (intro ginv_destroy [OF ginv_discard [OF g a e destroy(5)]])
  then show ?thesis unfolding destroy(2)
    using quiet_ops(6) [OF destroy(5)] by (intro sys_invI [OF i]) (simp_all add: quiet_def)
next
  case (tunable val len d rc d' out sf av)
  note i = assms(3) [unfolded tunable(1)] and a = assms(2) [unfolded tunable(1)]
  note g = conjunct1 [OF sys_invD [OF i]]
  have "d' = d \<or> (\<exists>b. d' = upd_tgd (\<lambda>tgd. tgd\<lparr>tgd_grant_compat_disable := b\<rparr>) d)"
    using tunable(3) by (auto simp: tgt_grant_compat_disable_seq_write_def split: sum.split_asm)
  then show ?thesis unfolding tunable(2) using ginvD(3) [OF g]
    by (intro sys_invI [OF i] ginv_tgd [OF g]) (auto simp: all_exps_def quiet_def)
next
  case (export_state d out sf av e flags brw failed)
  note i = assms(3) [unfolded export_state(1)] and a = assms(2) [unfolded export_state(1)]
  note g = conjunct1 [OF sys_invD [OF i]]
  show ?thesis unfolding export_state(2) using ginvD(3) [OF g]
    by (intro sys_invI [OF i] ginv_tgd [OF g]) (simp_all add: all_exps_def quiet_def ted_of_def)
next
  case (device_state d out sf av rec num clients pcnt)
  note i = assms(3) [unfolded device_state(1)] and a = assms(2) [unfolded device_state(1)]
  note g = conjunct1 [OF sys_invD [OF i]]
  show ?thesis unfolding device_state(2) using ginvD(3) [OF g]
    by (intro sys_invI [OF i] ginv_tgd [OF g]) (simp_all add: all_exps_def quiet_def ted_of_def)
next
  case (space_freed av n d out sf)
  note i = assms(3) [unfolded space_freed(1)] and a = assms(2) [unfolded space_freed(1)]
  note g = conjunct1 [OF sys_invD [OF i]]
  have n: "av + n \<le> B" "B \<le> 2 ^ 61" using space_freed(3) i by (simp_all add: sys_inv_def)
  have "ginv (av + n) \<lparr>gs_dev = d, gs_out = out, gs_statfs = sf, gs_avail = av + n\<rparr>"
    using ginvD(3,5) [OF g] n by (intro ginv_avail [OF g]) simp_all
  then show ?thesis unfolding space_freed(2)
    using n statfs_inv_freed [OF conjunct2 [OF sys_invD [OF i]], of "av + n"] by (simp add: sys_inv_def)
qed

lemma sys_run: "grant_run True B s \<Longrightarrow> sys_inv B s"
  by (induction rule: grant_run.induct) (auto intro: sys_start sys_step acct_run)

text \<open>
  C6. The target never grants more than the backend has. When the clients are fair and the backend keeps its word
  (\<open>grant_step\<close> with \<open>fair\<close>: it never reports more than it has available, a committed write takes whole
  blocks and at most what it reserved), the space granted and pending is, in every reachable state, at most the space that the
  backend has available then and one block - also when writes commit while another thread waits for \<open>dt_statfs\<close>, and
  whatever old answers it caches. It is exactly the sum of what the exports hold. No export ever holds a grant above
  \<open>OBD_MAX_GRANT\<close> and the largest chunk.
\<close>

theorem grant_bounded:
  assumes "grant_run True B s"
  shows "unat (tgd_tot_granted (lut_tgd (gs_dev s))) \<le> gs_avail s + 2 ^ tgd_blockbits (lut_tgd (gs_dev s)) \<and> gs_avail s \<le> B \<and>
    unat (tgd_tot_granted (lut_tgd (gs_dev s))) =
      (\<Sum>e \<leftarrow> all_exps (gs_dev s). unat (ted_grant (ted_of (gs_dev s) e)) + unat (ted_pending (ted_of (gs_dev s) e))) \<and>
    (\<forall>e \<in> set (all_exps (gs_dev s)). unat (ted_grant (ted_of (gs_dev s) e)) \<le> 2 ^ 31 + 2 ^ 40)"
proof -
  obtain d out sf av where s: "s = \<lparr>gs_dev = d, gs_out = out, gs_statfs = sf, gs_avail = av\<rparr>" by (cases s) auto
  note i = sys_run [OF assms, unfolded s] and a = acct_run [OF assms, unfolded s]
  note g = conjunct1 [OF sys_invD [OF i]]
  show ?thesis unfolding s using i ginv_exact(1) [OF g a] ginvD(5) [OF g] ginvD(6) [OF g] by (simp add: held_def small_def sys_inv_def)
qed

section \<open>Assertions\<close>

lemma sint_ge0: "unat (a :: u64) < 2 ^ 63 \<Longrightarrow> \<not> sint a < 0"
  by (simp add: sint_u64_small)

text \<open>
  A client without the grant parameters counts in blocks of 4 KiB and the target multiplies its dirty space up; it may
  claim as much as still fits a positive \<open>long\<close> then.
\<close>

definition dirty_ok :: "obd_device \<Rightarrow> nat \<Rightarrow> obdo \<Rightarrow> bool" where
  "dirty_ok d e oa \<longleftrightarrow> exp_grant_param_supp (obd_exp d e) \<or> sint (o_dirty oa) < 0 \<or>
     unat (o_dirty oa) * 2 ^ (tgd_blockbits (lut_tgd d) - COMPAT_BSIZE_SHIFT) < 2 ^ 63"

lemma dirty_ok_inflate:
  assumes "dirty_ok d e oa" "\<not> exp_grant_param_supp (obd_exp d e)" "0 \<le> sint (o_dirty oa)"
  shows "0 \<le> sint (tgt_grant_inflate (lut_tgd d) (o_dirty oa))"
proof -
  let ?n = "tgd_blockbits (lut_tgd d) - COMPAT_BSIZE_SHIFT"
  have "unat (o_dirty oa) * 2 ^ ?n < 2 ^ 63" using assms by (simp add: dirty_ok_def)
  then have "unat (push_bit ?n (o_dirty oa)) < 2 ^ 63" using unat_push_bit_le [of ?n "o_dirty oa"] by simp
  then have "0 \<le> sint (push_bit ?n (o_dirty oa))" using sint_ge0 by (simp add: not_less)
  then show ?thesis using assms(3) by (simp add: tgt_grant_inflate_def)
qed

lemma incoming_ok:
  assumes "small d e" "unat (ted_pending (ted_of d e)) \<le> 2 ^ 62" "unat chunk \<le> 2 ^ 40" "dirty_ok d e oa"
  shows "tgt_grant_incoming d e oa chunk \<noteq> None"
proof -
  let ?g = "ted_grant (ted_of d e)"
  obtain oa1 dirty dropped where c: "incoming_counts d e oa chunk = (oa1, dirty, dropped)" by (cases "incoming_counts d e oa chunk") auto
  have m: "unat (?g + 4 * chunk) \<le> unat ?g + 4 * unat chunk"
  proof -
    have "unat (4 * chunk) = 4 * unat chunk" using assms(3) unat_mult_no_wrap [of 4 chunk] by simp
    then show ?thesis using unat_plus_le [of ?g "4 * chunk"] by simp
  qed
  then have m': "\<not> sint (?g + 4 * chunk) < 0" using assms(1,3) by (intro sint_ge0) (simp add: small_def)
  have "tgt_grant_inflate (lut_tgd d) 0 = 0" by (simp add: tgt_grant_inflate_def)
  then have d: "\<not> sint dirty < 0" using c m' dirty_ok_inflate [OF assms(4)]
    by (auto simp: incoming_counts_def obdo_inflate_def Let_def not_less split: if_split_asm)
  have "dropped = 0 \<or> sint dropped \<le> sint ?g \<and> unat dropped < 2 ^ 32"
    using c unat_lt_bound [of "o_dropped oa1"] by (auto simp: incoming_counts_def Let_def split: if_split_asm)
  then have "dropped \<le> ?g" using sint_le_small [of dropped ?g] assms(1) by (auto simp: word_le_nat_alt small_def)
  then have "unat (?g - dropped) \<le> unat ?g" by (simp add: unat_minus_le)
  then have g: "\<not> sint (?g - dropped) < 0" using assms(1) by (intro sint_ge0) (simp add: small_def)
  have "\<not> sint (ted_pending (ted_of d e)) < 0" using assms(2) by (intro sint_ge0) simp
  then show ?thesis using c d g by (simp add: tgt_grant_incoming_def Let_def negative_def)
qed

lemma check_ok:
  assumes "small d e" "unat (ted_pending (ted_of d e)) \<le> 2 ^ 62" "unat left \<le> 2 ^ 61"
  shows "tgt_grant_check d e oa rnb left \<noteq> None"
proof -
  let ?G = "ted_grant (ted_of d e)" and ?P = "ted_pending (ted_of d e)" and ?D = "ted_dirty (ted_of d e)"
  obtain skip g0 u0 l0 where 1: "check_used d e oa left = (skip, g0, u0, l0)" by (cases "check_used d e oa left") auto
  obtain g u l rs where 2: "check_rnbs d e skip rnb g0 u0 l0 = (g, u, l, rs)" by (cases "check_rnbs d e skip rnb g0 u0 l0") auto
  have u1: "g0 \<le> ?G" "unat u0 + unat l0 = unat left" using check_used_amounts [OF 1] by simp_all
  have u2: "g \<le> ?G" "unat u + unat l = unat left"
    using check_rnbs_amounts [OF 2 u1(1)] u1(2) assms(3) by simp_all
  have "unat (?P + (g + u)) \<le> unat ?P + (unat g + unat u)" using unat_plus_le [of ?P "g + u"] unat_plus_le [of g u] by linarith
  then have p: "\<not> sint (?P + (g + u)) < 0" using u2 assms by (intro sint_ge0) (simp add: small_def word_le_nat_alt)
  have "unat (?G - g) \<le> unat ?G" using unat_minus_le [OF u2(1)] by simp
  then have s: "\<not> sint (?G - g) < 0" using assms(1) by (intro sint_ge0) (simp add: small_def)
  have "unat (?D - min ?D g) \<le> unat ?D" by (subst unat_minus_le) simp_all
  then have "\<not> sint (?D - min ?D g) < 0" using assms(1) by (intro sint_ge0) (simp add: small_def)
  then have "\<not> sint (?D - (if ?D < g then ?D else g)) < 0" by (auto simp: min_def not_less split: if_split_asm)
  then show ?thesis using 1 2 p s by (auto simp: tgt_grant_check_def Let_def negative_def split: if_split_asm)
qed

lemma alloc_ok:
  assumes "small d e" "unat left \<le> 2 ^ 61" "unat chunk \<le> 2 ^ 40" "tgd_blockbits (lut_tgd d) \<le> 30"
  shows "tgt_grant_alloc d e cur want left chunk cons \<noteq> None"
proof (cases "alloc_amount d e cur want left chunk cons")
  case (Some a)
  have g: "unat (ted_grant (ted_of d e)) \<le> 2 ^ 61" using assms(1) by (simp add: small_def)
  have "\<not> sint (ted_grant (ted_of d e) + a) < 0" using alloc_amounts [OF Some g assms(2-4)] by (intro sint_ge0) simp
  then show ?thesis using Some by (simp add: tgt_grant_alloc_def Let_def)
qed (simp add: tgt_grant_alloc_def)

lemma read_ok:
  assumes "tgt_grant_incoming d e oa (tgt_grant_chunk d e None) \<noteq> None"
  shows "tgt_grant_read_locked d e oa \<noteq> None"
  using assms by (auto simp: tgt_grant_read_locked_def Let_def split: prod.splits)

lemma write_ok:
  assumes "small d e" "unat (ted_pending (ted_of d e)) \<le> 2 ^ 62" "unat left \<le> 2 ^ 61" "unat (tgt_grant_chunk d e None) \<le> 2 ^ 40" "tgd_blockbits (lut_tgd d) \<le> 30"
    and "dirty_ok d e oa"
  shows "tgt_grant_write_locked d e oa rnb left (tgt_grant_chunk d e None) \<noteq> None"
proof -
  let ?chunk = "tgt_grant_chunk d e None"
  obtain d1 oa1 where 1: "tgt_grant_incoming d e oa ?chunk = Some (d1, oa1)" using incoming_ok [OF assms(1,2,4,6)] by fastforce
  have G: "unat (ted_grant (ted_of d e)) \<le> 2 ^ 62" using assms(1) by (simp add: small_def)
  have i: "frame e d d1" "unat (ted_grant (ted_of d1 e)) \<le> unat (ted_grant (ted_of d e))"
    "unat (ted_dirty (ted_of d1 e)) \<le> max (unat (ted_dirty (ted_of d e))) (unat (ted_grant (ted_of d e)) + 4 * unat ?chunk)"
    using incoming_amounts [OF 1 G assms(4)] by simp_all
  have s1: "small d1 e" using i(2,3) assms(1,4) by (auto simp: small_def max_def split: if_split_asm)
  have P1: "unat (ted_pending (ted_of d1 e)) \<le> 2 ^ 62" using assms(2) incoming_pending [OF 1, of e] by simp
  obtain d2 oa2 rnb2 left2 where 2: "tgt_grant_check d1 e oa1 rnb left = Some (d2, oa2, rnb2, left2)" using check_ok [OF s1 P1 assms(3)] by fastforce
  have G1: "unat (ted_grant (ted_of d1 e)) \<le> 2 ^ 61" using s1 by (simp add: small_def)
  obtain g u where c: "frame e d1 d2" "unat left2 + u = unat left" "unat (ted_grant (ted_of d2 e)) = unat (ted_grant (ted_of d1 e)) - g"
    "unat (ted_dirty (ted_of d2 e)) \<le> unat (ted_dirty (ted_of d1 e))"
    using check_amounts [OF 2 G1 assms(3) P1] by blast
  have s2: "small d2 e" using s1 c(3,4) unfolding small_def by linarith
  have bb: "tgd_blockbits (lut_tgd d2) \<le> 30" using assms(5) i(1) c(1) by (simp add: frame_def)
  obtain a d3 where "tgt_grant_alloc d2 e (o_grant oa2) (ucast (o_undirty oa2)) left2 ?chunk True = Some (a, d3)"
    using alloc_ok [OF s2 _ assms(4) bb, of left2 "o_grant oa2" "ucast (o_undirty oa2)" True] c(2) assms(3) by fastforce
  then show ?thesis using 1 2 by (simp add: tgt_grant_write_locked_def Let_def split: prod.splits)
qed

lemma commit_ok:
  assumes "ginv B \<lparr>gs_dev = d, gs_out = out, gs_statfs = sf, gs_avail = av\<rparr>" "acct \<lparr>gs_dev = d, gs_out = out, gs_statfs = sf, gs_avail = av\<rparr>" "(e, p) \<in> set out"
  shows "tgt_grant_commit d e p rc \<noteq> None"
proof -
  have e: "e \<in> set (all_exps d)" using acct_out [OF assms(2)] assms(3) by force
  have P: "unat p \<le> unat (ted_pending (ted_of d e))" using ginvD(7) [OF assms(1) e] nres_remove1 [OF assms(3), of e] by simp
  have "unat (ted_pending (ted_of d e)) \<le> held d e" by (simp add: held_def)
  then have "unat p \<le> unat (tgd_tot_granted (lut_tgd d))" using P le_sum_list [OF e, of "held d"] ginv_exact(1) [OF assms(1,2)] by linarith
  moreover have "unat p \<le> unat (tgd_tot_pending (lut_tgd d))"
    using P le_sum_list [OF e, of "\<lambda>e. unat (ted_pending (ted_of d e))"] ginv_exact(2) [OF assms(1,2)] by linarith
  ultimately show ?thesis using P by (simp add: tgt_grant_commit_def Let_def word_less_nat_alt)
qed

lemma discard_ok:
  assumes "ginv B \<lparr>gs_dev = d, gs_out = out, gs_statfs = sf, gs_avail = av\<rparr>" "acct \<lparr>gs_dev = d, gs_out = out, gs_statfs = sf, gs_avail = av\<rparr>" "e \<in> set (all_exps d)"
  shows "tgt_grant_discard d e \<noteq> None"
proof -
  have "unat (ted_grant (ted_of d e)) \<le> held d e" by (simp add: held_def)
  then have "unat (ted_grant (ted_of d e)) \<le> unat (tgd_tot_granted (lut_tgd d))" using le_sum_list [OF assms(3), of "held d"] ginv_exact(1) [OF assms(1,2)] by linarith
  moreover have "unat (ted_pending (ted_of d e)) \<le> unat (tgd_tot_pending (lut_tgd d))"
    using le_sum_list [OF assms(3), of "\<lambda>e. unat (ted_pending (ted_of d e))"] ginv_exact(2) [OF assms(1,2)] by simp
  moreover have "unat (ted_dirty (ted_of d e)) \<le> unat (tgd_tot_dirty (lut_tgd d))"
    using le_sum_list [OF assms(3), of "\<lambda>e. unat (ted_dirty (ted_of d e))"] ginv_exact(3) [OF assms(1,2)] by simp
  ultimately show ?thesis by (simp add: tgt_grant_discard_def Let_def word_le_nat_alt)
qed

lemma word_div_mult_le: "(a :: u64) div b * b \<le> a"
proof -
  have "unat a div unat b * unat b \<le> unat a" by (rule div_times_less_eq_dividend)
  moreover have "unat (a div b * b) = unat a div unat b * unat b"
  proof -
    have "unat (a div b) = unat a div unat b" by (rule unat_div)
    moreover have "unat a < 2 ^ 64" using unat_lt_bound [of a] by simp
    then have "unat a div unat b * unat b < 2 ^ 64" by (rule le_less_trans [OF div_times_less_eq_dividend])
    ultimately show ?thesis using unat_mult_no_wrap [of "a div b" b] by simp
  qed
  ultimately show ?thesis by (simp add: word_le_nat_alt)
qed

lemma grant_create_ok:
  assumes "small d e" "unat (tgt_grant_space_left (lut_tgd d)) \<le> 2 ^ 61" "unat (ted_pending (ted_of d e)) \<le> 2 ^ 62"
    "unat (tgt_grant_chunk d e None) \<le> 2 ^ 40" "tgd_blockbits (lut_tgd d) \<le> 30"
  shows "tgt_grant_create_locked d e nr \<noteq> None"
proof -
  let ?G = "ted_grant (ted_of d e)" and ?left = "tgt_grant_space_left (lut_tgd d)" and ?i = "scast (ddp_inodespace (lut_dt_conf d)) :: u64"
  have G: "unat ?G \<le> 2 ^ 61" using assms(1) by (simp add: small_def)
  have alloc: "tgt_grant_alloc d1 e cur want left1 (tgt_grant_chunk d1 e None) False \<noteq> None"
    if tk: "create_take d e w ?left = (d1, left1)" "w \<le> ?G + ?left" for w d1 left1 cur want
  proof -
    obtain u where u: "frame e d d1" "ted_dirty (ted_of d1 e) = ted_dirty (ted_of d e)" "unat left1 + u = unat ?left"
      "unat (ted_grant (ted_of d1 e)) \<le> unat ?G" using take_eff [OF tk G assms(2,3)] by blast
    have "small d1 e" using u(2,4) assms(1) by (simp add: small_def)
    then show ?thesis using assms(2,4,5) u(1,3) frame_chunk [OF u(1), of e None] by (intro alloc_ok) (auto simp: frame_def)
  qed
  let ?nr = "if nr * ?i > ?G + ?left then (?G + ?left) div ?i else nr"
  have le: "?nr * ?i \<le> ?G + ?left" using word_div_mult_le [of "?G + ?left" ?i] by auto
  obtain d1 left1 where t: "create_take d e (?nr * ?i) ?left = (d1, left1)" by fastforce
  obtain a d2 where "tgt_grant_alloc d1 e (ted_grant (ted_of d1 e)) (precreate_space (lut_dt_conf d1) - ted_grant (ted_of d1 e)) left1
      (tgt_grant_chunk d1 e None) False = Some (a, d2)" using alloc [OF t le] by (metis not_None_eq prod.exhaust)
  then show ?thesis using le t unfolding tgt_grant_create_locked_def Let_def by (auto split: prod.splits)
qed

lemma connect_ok:
  assumes "small d e" "unat left \<le> 2 ^ 61" "unat chunk \<le> 2 ^ 40" "tgd_blockbits (lut_tgd d) \<le> 30"
  shows "tgt_grant_connect_locked d e data new want chunk left \<noteq> None"
proof -
  obtain g d' where "tgt_grant_alloc d e (ted_grant (ted_of d e)) want left chunk new = Some (g, d')"
    using alloc_ok [OF assms, of "ted_grant (ted_of d e)" want new] by fastforce
  then show ?thesis by (simp add: tgt_grant_connect_locked_def Let_def)
qed

lemma check_exports_ok:
  assumes "\<forall>e \<in> set es. ted_grant (ted_of d e) + ted_pending (ted_of d e) \<le> m \<and> ted_dirty (ted_of d e) \<le> m"
  shows "check_exports d es sums m \<noteq> None"
  using assms
proof (induction es arbitrary: sums)
  case (Cons e es)
  obtain a b c where s: "sums = (a, b, c)" by (cases sums)
  have "\<exists>sums'. tgt_check_export_grants (ted_of d e) sums m = Inr sums'"
    using Cons.prems unfolding tgt_check_export_grants_def s by (simp add: not_less)
  then show ?case using Cons.IH Cons.prems by auto
qed simp

lemma sanity_ok:
  assumes g: "ginv A \<lparr>gs_dev = d, gs_out = out, gs_statfs = sf, gs_avail = av\<rparr>"
    and m: "A + 2 ^ tgd_blockbits (lut_tgd d) \<le> unat m" "2 ^ 43 \<le> unat m"
    and m_def: "m = push_bit (tgd_blockbits (lut_tgd d)) (os_blocks (tgd_osfs (lut_tgd d)))"
  shows "tgt_grant_sanity_check d \<noteq> None"
proof -
  have "ted_grant (ted_of d e) + ted_pending (ted_of d e) \<le> m \<and> ted_dirty (ted_of d e) \<le> m" if e: "e \<in> set (all_exps d)" for e
  proof -
    have "held d e \<le> unat m" using le_sum_list [OF e, of "held d"] ginvD(5) [OF g] m(1) by linarith
    then have "unat (ted_grant (ted_of d e) + ted_pending (ted_of d e)) \<le> unat m"
      using unat_plus_le [of "ted_grant (ted_of d e)" "ted_pending (ted_of d e)"] by (simp add: held_def)
    moreover have "unat (ted_dirty (ted_of d e)) \<le> unat m" using ginvD(6) [OF g e] m(2) by (simp add: small_def)
    ultimately show ?thesis by (simp add: word_le_nat_alt)
  qed
  then have "check_exports d (obd_exports d) sums m \<noteq> None" "check_exports d (obd_unlinked_exports d) sums m \<noteq> None" for sums
    by (intro check_exports_ok; simp add: all_exps_def)+
  then have "(check_exports d (obd_exports d) sums m \<bind> (\<lambda>sums. check_exports d (obd_unlinked_exports d) sums m \<bind>
      (\<lambda>r. Some (f r)))) \<noteq> None" for sums and f :: "_ \<Rightarrow> grant_error list"
    by (simp add: bind_eq_None_conv del: not_None_eq)
  moreover have "case_prod (\<lambda>x. case_prod (\<lambda>y z. Some (h x y z))) = (\<lambda>r. Some (case r of (x, y, z) \<Rightarrow> h x y z))"
    for h :: "u64 \<Rightarrow> u64 \<Rightarrow> u64 \<Rightarrow> grant_error list" by auto
  ultimately show ?thesis unfolding tgt_grant_sanity_check_def Let_def m_def [symmetric] by (simp del: not_None_eq)
qed

text \<open>
  C7. With fair clients no assertion on the grant counters ever fails, in any interleaving: a commit finds the space it
  releases in the pending and granted totals, an export can always be discarded, and a precreation, a connection, a bulk read
  and a bulk write can always be handled - chunks being at most \<open>2 ^ 40\<close> bytes, and a client without the grant
  parameters claiming no dirty space that overflows when the target converts it to its blocks (\<open>dirty_ok\<close>). The sanity
  check does not stop the target either, if it has at least 8 TiB and one block more than is available.
\<close>

theorem grant_no_assert:
  assumes "grant_run True B s"
  shows "((e, p) \<in> set (gs_out s) \<longrightarrow> tgt_grant_commit (gs_dev s) e p rc \<noteq> None) \<and>
    (e \<in> set (all_exps (gs_dev s)) \<longrightarrow> tgt_grant_discard (gs_dev s) e \<noteq> None) \<and>
    (unat (tgt_grant_chunk (gs_dev s) (obd_self_export (gs_dev s)) None) \<le> 2 ^ 40 \<longrightarrow>
       tgt_grant_create_locked (gs_dev s) (obd_self_export (gs_dev s)) nr \<noteq> None) \<and>
    (e \<in> set (all_exps (gs_dev s)) \<and> unat (tgt_grant_chunk (gs_dev s) e (Some data)) \<le> 2 ^ 40 \<longrightarrow>
       tgt_grant_connect_locked (gs_dev s) e data new_conn want (tgt_grant_chunk (gs_dev s) e (Some data))
         (tgt_grant_space_left (lut_tgd (gs_dev s))) \<noteq> None) \<and>
    (e \<in> set (all_exps (gs_dev s)) \<and> unat (tgt_grant_chunk (gs_dev s) e None) \<le> 2 ^ 40 \<and> dirty_ok (gs_dev s) e oa \<longrightarrow>
       tgt_grant_read_locked (gs_dev s) e oa \<noteq> None \<and>
       tgt_grant_write_locked (gs_dev s) e oa rnb (tgt_grant_space_left (lut_tgd (gs_dev s))) (tgt_grant_chunk (gs_dev s) e None) \<noteq> None) \<and>
    (gs_avail s + 2 ^ tgd_blockbits (lut_tgd (gs_dev s)) \<le>
         unat (push_bit (tgd_blockbits (lut_tgd (gs_dev s))) (os_blocks (tgd_osfs (lut_tgd (gs_dev s))))) \<and>
       2 ^ 43 \<le> unat (push_bit (tgd_blockbits (lut_tgd (gs_dev s))) (os_blocks (tgd_osfs (lut_tgd (gs_dev s))))) \<longrightarrow>
       tgt_grant_sanity_check (gs_dev s) \<noteq> None)"
proof -
  obtain d out sf av where s: "s = \<lparr>gs_dev = d, gs_out = out, gs_statfs = sf, gs_avail = av\<rparr>" by (cases s) auto
  note g = conjunct1 [OF sys_invD [OF sys_run [OF assms, unfolded s]]] and a = acct_run [OF assms, unfolded s]
  note left = ginv_left(2) [OF g a] and bb = ginvD(2) [OF g]
  have "tgt_grant_read_locked d e oa \<noteq> None \<and> tgt_grant_write_locked d e oa rnb (tgt_grant_space_left (lut_tgd d)) (tgt_grant_chunk d e None) \<noteq> None"
    if "e \<in> set (all_exps d)" "unat (tgt_grant_chunk d e None) \<le> 2 ^ 40" "dirty_ok d e oa"
    using read_ok [OF incoming_ok [OF ginvD(6) [OF g that(1)] ginv_pending [OF g that(1)] that(2,3)]]
      write_ok [OF ginvD(6) [OF g that(1)] ginv_pending [OF g that(1)] left that(2) bb that(3)] by blast
  moreover have "tgt_grant_create_locked d (obd_self_export d) nr \<noteq> None" if "unat (tgt_grant_chunk d (obd_self_export d) None) \<le> 2 ^ 40"
    by (rule grant_create_ok [OF ginvD(6) [OF g self_in] left ginv_pending [OF g self_in] that bb])
  moreover have "tgt_grant_connect_locked d e data new_conn want (tgt_grant_chunk d e (Some data)) (tgt_grant_space_left (lut_tgd d)) \<noteq> None"
    if "e \<in> set (all_exps d)" "unat (tgt_grant_chunk d e (Some data)) \<le> 2 ^ 40"
    by (rule connect_ok [OF ginvD(6) [OF g that(1)] left that(2) bb])
  ultimately show ?thesis unfolding s grant_sys.select_convs using commit_ok [OF g a] discard_ok [OF g a] sanity_ok [OF g] by blast
qed

section \<open>A concrete target\<close>

text \<open>16 GiB available of 8 TiB, in blocks of 4 KiB; the self export is 0, a client with the grant parameters is 1.\<close>

definition gx_exp :: "u64 \<Rightarrow> obd_export" where
  "gx_exp flags = \<lparr>exp_target_data = \<lparr>ted_dirty = 0, ted_grant = 0, ted_pending = 0\<rparr>, exp_connect_flags = flags, exp_brw_size = 0, exp_failed = False\<rparr>"

definition gx_osfs :: obd_statfs where
  "gx_osfs = \<lparr>os_type = 0, os_blocks = 2 ^ 31, os_bfree = 2 ^ 22, os_bavail = 2 ^ 22, os_files = 1000, os_ffree = 1000, os_bsize = 4096,
     os_namelen = 255, os_maxbytes = 2 ^ 40, os_state = 0, os_fprecreated = 0, os_granted = 0\<rparr>"

definition gx_dev :: obd_device where
  "gx_dev = \<lparr>lut_tgd = \<lparr>tgd_tot_dirty = 0, tgd_tot_granted = 0, tgd_tot_pending = 0, tgd_reserved_pcnt = 0, tgd_tot_granted_clients = 0,
       tgd_grant_compat_disable = False, tgd_osfs_age = 0, tgd_blockbits = 12, tgd_statfs_inflight = 0, tgd_osfs_unstable = 0,
       tgd_osfs_inflight = 0, tgd_osfs = gx_osfs\<rparr>,
     lut_dt_conf = \<lparr>ddp_inodespace = 28, ddp_max_extent_blks = 256, ddp_extent_tax = 4096\<rparr>,
     obd_recovering = False, obd_self_export = 0, obd_exports = [], obd_unlinked_exports = [], obd_num_exports = 0,
     obd_exp = (\<lambda>_. gx_exp 0)\<rparr>"

definition gx_dev1 :: obd_device where
  "gx_dev1 = gx_dev\<lparr>obd_exp := (obd_exp gx_dev)(1 := gx_exp (OBD_CONNECT_GRANT OR OBD_CONNECT_GRANT_PARAM)), obd_exports := [1]\<rparr>"

definition gx_ocd :: obd_connect_data where
  "gx_ocd = \<lparr>ocd_connect_flags = OBD_CONNECT_GRANT OR OBD_CONNECT_GRANT_PARAM, ocd_grant = 2 ^ 22\<rparr>"

lemmas gx_defs = gx_exp_def gx_osfs_def gx_dev_def gx_dev1_def gx_ocd_def

lemma gx_start: "grant_run True (2 ^ 34) \<lparr>gs_dev = gx_dev, gs_out = [], gs_statfs = [], gs_avail = 2 ^ 34\<rparr>"
  by (intro grant_run.start) (simp add: grant_start_def gx_dev_def gx_osfs_def gx_exp_def ted_of_def)

lemma gx_run1: "grant_run True (2 ^ 34) \<lparr>gs_dev = gx_dev1, gs_out = [], gs_statfs = [], gs_avail = 2 ^ 34\<rparr>"
proof -
  have "grant_step True (2 ^ 34) \<lparr>gs_dev = gx_dev, gs_out = [], gs_statfs = [], gs_avail = 2 ^ 34\<rparr> \<lparr>gs_dev = gx_dev1, gs_out = [], gs_statfs = [], gs_avail = 2 ^ 34\<rparr>"
    using grant_step.new_export [of 1 gx_dev "gx_exp (OBD_CONNECT_GRANT OR OBD_CONNECT_GRANT_PARAM)" True "2 ^ 34" "[]" "[]" "2 ^ 34"]
    by (simp add: gx_defs all_exps_def)
  then show ?thesis by (rule grant_run.step [OF gx_start])
qed

lemma gx_left: "tgt_grant_space_left (lut_tgd gx_dev1) = 2 ^ 34"
  by (simp add: tgt_grant_space_left_def gx_defs)

lemma gx_chunk: "tgt_grant_chunk gx_dev1 1 None = 2105344" "tgt_grant_chunk gx_dev1 1 (Some gx_ocd) = 2105344" "tgt_grant_chunk gx_dev1 0 None = 280000"
  by (simp_all add: tgt_grant_chunk_def precreate_space_def gx_defs const_defs exp_max_brw_size_def exp_grant_param_supp_def has_def)

lemma gx_connect:
  "\<exists>d data. tgt_grant_connect_locked gx_dev1 1 gx_ocd True (2 ^ 22) 2105344 (2 ^ 34) = Some (d, data) \<and> tgd_tot_granted (lut_tgd d) = 2105344"
  by (simp add: tgt_grant_connect_locked_def tgt_grant_alloc_def alloc_amount_def gx_defs const_defs exp_grant_param_supp_def has_def ted_of_def upd_ted_def upd_tgd_def Let_def)

lemma gx_run2: "\<exists>s. grant_run True (2 ^ 34) s \<and> tgd_tot_granted (lut_tgd (gs_dev s)) = 2105344"
proof -
  obtain d data where c: "tgt_grant_connect_locked gx_dev1 1 gx_ocd True (2 ^ 22) 2105344 (2 ^ 34) = Some (d, data)" "tgd_tot_granted (lut_tgd d) = 2105344"
    using gx_connect by blast
  have "grant_step True (2 ^ 34) \<lparr>gs_dev = gx_dev1, gs_out = [], gs_statfs = [], gs_avail = 2 ^ 34\<rparr> \<lparr>gs_dev = d, gs_out = [], gs_statfs = [], gs_avail = 2 ^ 34\<rparr>"
    by (rule grant_step.connect [of 1 gx_dev1 gx_ocd True "2 ^ 22"])
      (use c(1) in \<open>simp_all only: gx_left gx_chunk\<close>, simp_all add: all_exps_def gx_dev1_def)
  from grant_run.step [OF gx_run1 this] c(2) show ?thesis by (intro exI [of _ "\<lparr>gs_dev = d, gs_out = [], gs_statfs = [], gs_avail = 2 ^ 34\<rparr>"]) simp
qed

lemma gx_create:
  "\<exists>d. tgt_grant_create_locked gx_dev1 0 10 = Some (d, Inr (280, 10)) \<and> obd_exports d = [1] \<and> os_blocks (tgd_osfs (lut_tgd d)) = 2 ^ 31"
  by (simp add: tgt_grant_create_locked_def create_take_def tgt_grant_chunk_def tgt_grant_space_left_def precreate_space_def tgt_grant_alloc_def alloc_amount_def gx_defs const_defs exp_grant_param_supp_def has_def ted_of_def upd_ted_def upd_tgd_def Let_def)

lemma gx_run3: "\<exists>d. grant_run True (2 ^ 34) \<lparr>gs_dev = d, gs_out = [(0, 280)], gs_statfs = [], gs_avail = 2 ^ 34\<rparr> \<and> obd_exports d = [1] \<and> obd_self_export d = 0 \<and>
    tgt_grant_chunk d 1 None = 2105344 \<and> tgt_grant_chunk d 1 (Some gx_ocd) = 2105344 \<and> tgt_grant_chunk d 0 None = 280000 \<and>
    tgd_blockbits (lut_tgd d) = 12 \<and> os_blocks (tgd_osfs (lut_tgd d)) = 2 ^ 31"
proof -
  obtain d where c: "tgt_grant_create_locked gx_dev1 0 10 = Some (d, Inr (280, 10))" "obd_exports d = [1]" "os_blocks (tgd_osfs (lut_tgd d)) = 2 ^ 31" using gx_create by blast
  have self: "obd_self_export gx_dev1 = 0" by (simp add: gx_dev1_def gx_dev_def)
  have "grant_step True (2 ^ 34) \<lparr>gs_dev = gx_dev1, gs_out = [], gs_statfs = [], gs_avail = 2 ^ 34\<rparr> \<lparr>gs_dev = d, gs_out = [(0, 280)], gs_statfs = [], gs_avail = 2 ^ 34\<rparr>"
    using grant_step.create [of gx_dev1 10 d "Inr (280, 10)" True "2 ^ 34" "[]" "[]" "2 ^ 34"] c(1) gx_chunk(3) by (simp add: self)
  note r = grant_run.step [OF gx_run1 this]
  note g = conjunct1 [OF sys_invD [OF sys_run [OF gx_run1]]]
  have f: "modest 0 gx_dev1 d (unat (tgt_grant_space_left (lut_tgd gx_dev1)))"
    using create_modest [OF c(1)] ginvD(6) [OF g self_in] ginv_pending [OF g self_in] gx_left gx_chunk(3) by (simp add: self gx_dev1_def gx_dev_def)
  then have f: "frame 0 gx_dev1 d" by (simp add: modest_def)
  then have "obd_self_export d = 0" "tgd_blockbits (lut_tgd d) = 12" by (simp_all add: frame_def self) (simp add: gx_dev1_def gx_dev_def)
  then show ?thesis using frame_chunk [OF f, of 1 None] frame_chunk [OF f, of 1 "Some gx_ocd"] frame_chunk [OF f, of 0 None] r c(2,3) gx_chunk
    by (intro exI [of _ d]) simp
qed

theorem grant_accounting_witness:
  "\<exists>s. grant_run True (2 ^ 34) s \<and> tgd_tot_granted (lut_tgd (gs_dev s)) = 2105344 \<and>
     (\<Sum>e \<leftarrow> all_exps (gs_dev s). ted_grant (ted_of (gs_dev s) e) + ted_pending (ted_of (gs_dev s) e)) = 2105344"
proof -
  obtain s where s: "grant_run True (2 ^ 34) s" "tgd_tot_granted (lut_tgd (gs_dev s)) = 2105344" using gx_run2 by blast
  show ?thesis using grant_accounting [OF s(1)] s by (intro exI [of _ s]) simp
qed

theorem grant_bounded_witness:
  "\<exists>s. grant_run True (2 ^ 34) s \<and> tgd_tot_granted (lut_tgd (gs_dev s)) = 2105344 \<and>
     (2105344::nat) \<le> gs_avail s + 2 ^ tgd_blockbits (lut_tgd (gs_dev s)) \<and> gs_avail s \<le> 2 ^ 34"
proof -
  obtain s where s: "grant_run True (2 ^ 34) s" "tgd_tot_granted (lut_tgd (gs_dev s)) = 2105344" using gx_run2 by blast
  show ?thesis using grant_bounded [OF s(1)] s by (intro exI [of _ s]) simp
qed

theorem grant_no_assert_witness:
  "\<exists>s. grant_run True (2 ^ 34) s \<and> (0, 280) \<in> set (gs_out s) \<and> tgt_grant_commit (gs_dev s) 0 280 0 \<noteq> None \<and>
     1 \<in> set (all_exps (gs_dev s)) \<and> tgt_grant_discard (gs_dev s) 1 \<noteq> None \<and> tgt_grant_create_locked (gs_dev s) 0 10 \<noteq> None \<and>
     tgt_grant_connect_locked (gs_dev s) 1 gx_ocd True (2 ^ 22) 2105344 (tgt_grant_space_left (lut_tgd (gs_dev s))) \<noteq> None \<and>
     tgt_grant_read_locked (gs_dev s) 1
       \<lparr>o_valid = OBD_MD_FLBLOCKS OR OBD_MD_FLGRANT, o_dirty = 0, o_grant = 0, o_undirty = 0, o_flags = 0, o_dropped = 0, o_grant_used = 0\<rparr> \<noteq> None \<and>
     tgt_grant_sanity_check (gs_dev s) \<noteq> None"
proof -
  let ?oa = "\<lparr>o_valid = OBD_MD_FLBLOCKS OR OBD_MD_FLGRANT, o_dirty = 0, o_grant = 0, o_undirty = 0, o_flags = 0, o_dropped = 0, o_grant_used = 0\<rparr>"
  obtain d where d: "grant_run True (2 ^ 34) \<lparr>gs_dev = d, gs_out = [(0, 280)], gs_statfs = [], gs_avail = 2 ^ 34\<rparr>" "obd_exports d = [1]" "obd_self_export d = 0"
    "tgt_grant_chunk d 1 None = 2105344" "tgt_grant_chunk d 1 (Some gx_ocd) = 2105344" "tgt_grant_chunk d 0 None = 280000"
    "tgd_blockbits (lut_tgd d) = 12" "os_blocks (tgd_osfs (lut_tgd d)) = 2 ^ 31" using gx_run3 by blast
  have "tgt_grant_commit d 0 280 0 \<noteq> None" using grant_no_assert [OF d(1), of 0 280 0] by simp
  moreover have e: "1 \<in> set (all_exps d)" using d(2) by (simp add: all_exps_def)
  moreover have "tgt_grant_discard d 1 \<noteq> None" "tgt_grant_read_locked d 1 ?oa \<noteq> None" "tgt_grant_create_locked d 0 10 \<noteq> None"
      "tgt_grant_connect_locked d 1 gx_ocd True (2 ^ 22) 2105344 (tgt_grant_space_left (lut_tgd d)) \<noteq> None" "tgt_grant_sanity_check d \<noteq> None"
    using grant_no_assert [OF d(1), where e = 1 and nr = 10 and data = gx_ocd and new_conn = True and want = "2 ^ 22" and oa = ?oa] e d(3-8)
    by (simp_all add: dirty_ok_def del: not_None_eq)
  ultimately show ?thesis using d(1) by (intro exI [of _ "\<lparr>gs_dev = d, gs_out = [(0, 280)], gs_statfs = [], gs_avail = 2 ^ 34\<rparr>"]) simp
qed

section \<open>Enforcement\<close>

definition own_size :: "obd_device \<Rightarrow> nat \<Rightarrow> niobuf_remote \<Rightarrow> nat" where
  "own_size d e r = unat (tgt_grant_rnb_size (Some (obd_exp d e)) (lut_tgd d) (lut_dt_conf d) r)"

definition srv_size :: "obd_device \<Rightarrow> niobuf_remote \<Rightarrow> nat" where
  "srv_size d r = unat (tgt_grant_rnb_size None (lut_tgd d) (lut_dt_conf d) r)"

definition granted_rnb :: "niobuf_remote \<Rightarrow> bool" where
  "granted_rnb r = has (rnb_flags r) OBD_BRW_GRANTED"

definition sized :: "obd_device \<Rightarrow> nat \<Rightarrow> niobuf_remote \<Rightarrow> bool" where
  "sized d e r \<longleftrightarrow> own_size d e r < 2 ^ 31 \<and> srv_size d r < 2 ^ 31"

lemma scast_small: "unat (x :: u64) < 2 ^ 31 \<Longrightarrow> unat (scast (ucast x :: u32) :: u64) = unat x"
proof -
  assume x: "unat x < 2 ^ 31"
  have u: "unat (ucast x :: u32) = unat x" using x by (simp add: unsigned_ucast_eq take_bit_nat_eq_self)
  have "sint (ucast x :: u32) = int (unat x)" using sint_eq_unat [of "ucast x :: u32"] x unfolding u by simp
  then have "scast (ucast x :: u32) = (word_of_int (int (unat x)) :: u64)" by (metis of_int_sint scast_eq)
  then show ?thesis using unat_word_of_int_nat [of "unat x", where 'a = 64] x by simp
qed

lemma granted_or: "granted_rnb (r\<lparr>rnb_flags := rnb_flags r OR OBD_BRW_GRANTED\<rparr>)"
proof -
  have "(f OR m) AND m = m" for f m :: u32 by (rule bit_word_eqI) (auto simp: bit_simps)
  then show ?thesis by (simp add: granted_rnb_def has_def OBD_BRW_GRANTED_def)
qed

lemma granted_andnot: "\<not> granted_rnb (r\<lparr>rnb_flags := rnb_flags r AND NOT OBD_BRW_GRANTED\<rparr>)"
  by (simp add: granted_rnb_def has_def and.assoc)

lemma rnb_size_flags [simp]: "tgt_grant_rnb_size ex t c (r\<lparr>rnb_flags := f\<rparr>) = tgt_grant_rnb_size ex t c r"
  by (simp add: tgt_grant_rnb_size_def)

lemma from_grant_flags:
  "has ((f :: u32) OR OBD_BRW_GRANTED) OBD_BRW_FROM_GRANT = has f OBD_BRW_FROM_GRANT"
  "has (f AND NOT OBD_BRW_GRANTED) OBD_BRW_FROM_GRANT = has f OBD_BRW_FROM_GRANT"
proof -
  have "(f OR OBD_BRW_GRANTED) AND OBD_BRW_FROM_GRANT = f AND OBD_BRW_FROM_GRANT"
    by (simp add: bit.conj_disj_distrib2 OBD_BRW_GRANTED_def OBD_BRW_FROM_GRANT_def)
  then show "has (f OR OBD_BRW_GRANTED) OBD_BRW_FROM_GRANT = has f OBD_BRW_FROM_GRANT" by (simp add: has_def)
  have "NOT OBD_BRW_GRANTED AND OBD_BRW_FROM_GRANT = OBD_BRW_FROM_GRANT" by (simp add: OBD_BRW_GRANTED_def OBD_BRW_FROM_GRANT_def)
  then show "has (f AND NOT OBD_BRW_GRANTED) OBD_BRW_FROM_GRANT = has f OBD_BRW_FROM_GRANT" by (simp add: has_def and.assoc)
qed

text \<open>
  The loop over the buffers. What the client wrote under grant passes unchecked when the request is accounted for as a
  whole (\<open>skip\<close>). Everything else that is let through is paid for, by the grant of the client or by free space, and
  is refused only when neither is left for it.
\<close>

definition enforced :: "obd_device \<Rightarrow> nat \<Rightarrow> bool \<Rightarrow> u64 \<Rightarrow> u64 \<Rightarrow> niobuf_remote \<Rightarrow> niobuf_remote \<Rightarrow> bool" where
  "enforced d e skip g l r r' \<longleftrightarrow> rnb_offset r' = rnb_offset r \<and> rnb_len r' = rnb_len r \<and>
     (\<not> granted_rnb r' \<longrightarrow> unat l \<le> srv_size d r \<and>
        (has (rnb_flags r) OBD_BRW_FROM_GRANT \<longrightarrow> \<not> skip \<and> unat (ted_grant (ted_of d e)) < unat g + own_size d e r))"

lemma enforced_mono: "enforced d e skip g1 l1 r r' \<Longrightarrow> unat g1 \<le> unat g \<Longrightarrow> unat l \<le> unat l1 \<Longrightarrow> enforced d e skip g l r r'"
  by (auto simp: enforced_def)

definition rnb_cost :: "obd_device \<Rightarrow> nat \<Rightarrow> bool \<Rightarrow> niobuf_remote \<Rightarrow> nat" where
  "rnb_cost d e skip r =
     (if \<not> granted_rnb r then 0
      else if has (rnb_flags r) OBD_BRW_FROM_GRANT then (if skip then 0 else min (own_size d e r) (srv_size d r))
      else srv_size d r)"

definition cost :: "obd_device \<Rightarrow> nat \<Rightarrow> bool \<Rightarrow> niobuf_remote list \<Rightarrow> nat" where
  "cost d e skip rs = (\<Sum>r \<leftarrow> rs. rnb_cost d e skip r)"

lemma check_rnbs_step:
  assumes "check_rnbs d e skip (r # rnbs) g0 u0 l0 = (g, u, l, rs)" "g0 \<le> ted_grant (ted_of d e)" "unat u0 + unat l0 < 2 ^ 64"
    "sized d e r" "unat (ted_grant (ted_of d e)) \<le> 2 ^ 62"
  shows "\<exists>g1 u1 l1 r' rs1. check_rnbs d e skip rnbs g1 u1 l1 = (g, u, l, rs1) \<and> rs = r' # rs1 \<and>
    g1 \<le> ted_grant (ted_of d e) \<and> unat u1 + unat l1 < 2 ^ 64 \<and> unat g0 \<le> unat g1 \<and> unat l1 \<le> unat l0 \<and>
    unat g0 + unat u0 + rnb_cost d e skip r' \<le> unat g1 + unat u1 \<and> enforced d e skip g1 l1 r r'"
proof -
  let ?own = "scast (ucast (tgt_grant_rnb_size (Some (obd_exp d e)) (lut_tgd d) (lut_dt_conf d) r) :: u32) :: u64"
  let ?srv = "scast (ucast (tgt_grant_rnb_size None (lut_tgd d) (lut_dt_conf d) r) :: u32) :: u64"
  let ?G = "ted_grant (ted_of d e)" and ?fg = "has (rnb_flags r) OBD_BRW_FROM_GRANT"
  let ?yes = "r\<lparr>rnb_flags := rnb_flags r OR OBD_BRW_GRANTED\<rparr>" and ?no = "r\<lparr>rnb_flags := rnb_flags r AND NOT OBD_BRW_GRANTED\<rparr>"
  have own: "unat ?own = own_size d e r" and srv: "unat ?srv = srv_size d r" and sz: "own_size d e r < 2 ^ 31"
    using assms(4) by (simp_all add: sized_def own_size_def srv_size_def scast_small)
  have g0: "unat g0 \<le> unat ?G" using assms(2) by (simp add: word_le_nat_alt)
  have pl: "unat (g0 + ?own) = unat g0 + own_size d e r" using unat_plus_no_wrap [of g0 ?own] g0 assms(5) sz own by simp
  obtain g1 u1 l1 r' rs1 where n: "check_rnbs d e skip rnbs g1 u1 l1 = (g, u, l, rs1)" "rs = r' # rs1"
    and w: "?fg \<and> skip \<and> (g1, u1, l1) = (g0, u0, l0) \<and> r' = ?yes \<or>
      ?fg \<and> \<not> skip \<and> (g1, u1, l1) = (g0 + ?own, u0, l0) \<and> g0 + ?own \<le> ?G \<and> r' = ?yes \<or>
      \<not> (?fg \<and> skip) \<and> (g1, u1, l1) = (g0, u0 + ?srv, l0 - ?srv) \<and> ?srv < l0 \<and> r' = ?yes \<or>
      \<not> (?fg \<and> skip) \<and> (g1, u1, l1) = (g0, u0, l0) \<and> \<not> ?srv < l0 \<and> (?fg \<longrightarrow> \<not> g0 + ?own \<le> ?G) \<and> r' = ?no"
    using assms(1) by (auto simp: Let_def split: if_split_asm prod.split_asm)
  have sl: "unat (u0 + ?srv) = unat u0 + srv_size d r" "unat (l0 - ?srv) = unat l0 - srv_size d r" "srv_size d r < unat l0" if "?srv < l0"
    using unat_sub_lt [OF that] assms(3) unat_plus_no_wrap [of u0 ?srv] srv by simp_all
  have size: "own_size d e ?yes = own_size d e r" "srv_size d ?yes = srv_size d r" by (simp_all add: own_size_def srv_size_def)
  have yes: "rnb_cost d e skip ?yes = (if ?fg then (if skip then 0 else min (own_size d e r) (srv_size d r)) else srv_size d r)"
    "enforced d e skip g l r ?yes" for g l
    using granted_or [of r] by (simp_all add: rnb_cost_def enforced_def size from_grant_flags)
  have no: "rnb_cost d e skip ?no = 0" using granted_andnot [of r] by (simp add: rnb_cost_def)
  from w consider (pass) "?fg" "skip" "(g1, u1, l1) = (g0, u0, l0)" "r' = ?yes"
    | (grant) "?fg" "\<not> skip" "(g1, u1, l1) = (g0 + ?own, u0, l0)" "g0 + ?own \<le> ?G" "r' = ?yes"
    | (space) "\<not> (?fg \<and> skip)" "(g1, u1, l1) = (g0, u0 + ?srv, l0 - ?srv)" "?srv < l0" "r' = ?yes"
    | (refuse) "\<not> (?fg \<and> skip)" "(g1, u1, l1) = (g0, u0, l0)" "\<not> ?srv < l0" "?fg \<longrightarrow> \<not> g0 + ?own \<le> ?G" "r' = ?no" by blast
  then have "g1 \<le> ?G \<and> unat u1 + unat l1 < 2 ^ 64 \<and> unat g0 \<le> unat g1 \<and> unat l1 \<le> unat l0 \<and>
    unat g0 + unat u0 + rnb_cost d e skip r' \<le> unat g1 + unat u1 \<and> enforced d e skip g1 l1 r r'"
  proof cases
    case refuse
    then have "enforced d e skip g0 l0 r ?no" using srv pl by (auto simp: enforced_def word_less_nat_alt word_le_nat_alt not_less not_le)
    then show ?thesis using refuse assms(2,3) no by simp
  qed (use assms(2,3) yes pl sl in auto)
  then show ?thesis using n by blast
qed

lemma check_rnbs_enforced:
  assumes "check_rnbs d e skip rnbs g0 u0 l0 = (g, u, l, rs)" "g0 \<le> ted_grant (ted_of d e)" "unat u0 + unat l0 < 2 ^ 64"
    "\<forall>r \<in> set rnbs. sized d e r" "unat (ted_grant (ted_of d e)) \<le> 2 ^ 62"
  shows "list_all2 (enforced d e skip g l) rnbs rs \<and> unat g0 \<le> unat g \<and> unat g0 + unat u0 + cost d e skip rs \<le> unat g + unat u"
  using assms
proof (induction rnbs arbitrary: g0 u0 l0 rs)
  case (Cons r rnbs)
  have "sized d e r" using Cons.prems(4) by simp
  from check_rnbs_step [OF Cons.prems(1-3) this Cons.prems(5)] obtain g1 u1 l1 r' rs1
    where n: "check_rnbs d e skip rnbs g1 u1 l1 = (g, u, l, rs1)" "rs = r' # rs1"
      and step: "g1 \<le> ted_grant (ted_of d e)" "unat u1 + unat l1 < 2 ^ 64" "unat g0 \<le> unat g1" "unat l1 \<le> unat l0"
        "unat g0 + unat u0 + rnb_cost d e skip r' \<le> unat g1 + unat u1" "enforced d e skip g1 l1 r r'" by blast
  have ih: "list_all2 (enforced d e skip g l) rnbs rs1" "unat g1 \<le> unat g" "unat g1 + unat u1 + cost d e skip rs1 \<le> unat g + unat u"
    using Cons.IH [OF n(1) step(1,2)] Cons.prems(4,5) by simp_all
  have "unat l \<le> unat l1" using check_rnbs_amounts [OF n(1) step(1,2)] by simp
  then show ?case using n(2) ih step(3,5) enforced_mono [OF step(6) ih(2)] by (simp add: cost_def)
qed (simp add: cost_def)

lemma check_used_skip:
  assumes "check_used d e oa left = (skip, g0, u0, l0)" "unat (ted_grant (ted_of d e)) \<le> 2 ^ 61" "unat left \<le> 2 ^ 61"
  shows "(if skip then obd_recovering d \<or> has (o_valid oa) OBD_MD_FLFLAGS \<and> has (o_flags oa) OBD_FL_RECOV_RESEND \<or>
      exp_grant_param_supp (obd_exp d e) \<and> 0 < o_grant_used oa \<and> unat g0 + unat u0 = unat (o_grant_used oa) else g0 = 0 \<and> u0 = 0)"
proof -
  have "unat (ted_grant (ted_of d e)) + unat (o_grant_used oa - ted_grant (ted_of d e)) = unat (o_grant_used oa)"
    if "\<not> o_grant_used oa \<le> ted_grant (ted_of d e)"
    using that unat_minus_le [of "ted_grant (ted_of d e)" "o_grant_used oa"] by (simp add: not_le word_le_nat_alt word_less_nat_alt)
  then show ?thesis using assms(1) by (auto simp: check_used_def Let_def split: if_split_asm)
qed

text \<open>
  C28. What a write request reserves. The space that a request reserves, which becomes pending, is at least what
  was set aside for the request as a whole and the sum of what the buffers let through one by one need: the server's
  estimate for a buffer paid from free space, the client's or the server's estimate, whichever is less, for one written
  under grant. A buffer is refused only if the space left is not larger than what it needs and, when it was written under
  grant, the remaining grant of the client does not cover it. Buffers written under grant pass without being sized only in
  a replayed or resent request, or when the client says how much it used and the target reserves exactly that.
\<close>

theorem grant_check_enforces:
  assumes "tgt_grant_check d e oa rnb left = Some (d', oa', rnb', left')" "check_used d e oa left = (skip, g0, u0, l0)"
    and "\<forall>r \<in> set rnb. sized d e r" "unat (ted_grant (ted_of d e)) \<le> 2 ^ 61" "unat left \<le> 2 ^ 61" "unat (ted_pending (ted_of d e)) \<le> 2 ^ 62"
  shows "(\<exists>g. list_all2 (enforced d e skip g left') rnb rnb' \<and>
      ted_grant (ted_of d' e) = ted_grant (ted_of d e) - g \<and> g \<le> ted_grant (ted_of d e)) \<and>
    unat g0 + unat u0 + cost d e skip rnb' \<le> unat (o_grant_used oa') \<and>
    unat (ted_pending (ted_of d' e)) = unat (ted_pending (ted_of d e)) + unat (o_grant_used oa') \<and>
    (if skip then obd_recovering d \<or> has (o_valid oa) OBD_MD_FLFLAGS \<and> has (o_flags oa) OBD_FL_RECOV_RESEND \<or>
        exp_grant_param_supp (obd_exp d e) \<and> 0 < o_grant_used oa \<and> unat g0 + unat u0 = unat (o_grant_used oa)
     else g0 = 0 \<and> u0 = 0)"
proof -
  let ?G = "ted_grant (ted_of d e)"
  obtain g u l rs where 2: "check_rnbs d e skip rnb g0 u0 l0 = (g, u, l, rs)" by (cases "check_rnbs d e skip rnb g0 u0 l0") auto
  have r: "left' = l" "o_grant_used oa' = g + u" "rnb' = rs" "ted_grant (ted_of d' e) = ?G - g"
    using assms(1,2) 2 by (auto simp: tgt_grant_check_def Let_def split: if_split_asm)
  have b: "g0 \<le> ?G" "unat u0 + unat l0 = unat left" using check_used_amounts [OF assms(2)] by simp_all
  have e: "list_all2 (enforced d e skip g l) rnb rs" "unat g0 + unat u0 + cost d e skip rs \<le> unat g + unat u"
    using check_rnbs_enforced [OF 2 b(1) _ assms(3)] b(2) assms(4,5) by simp_all
  have a: "g \<le> ?G" "unat u + unat l = unat left" using check_rnbs_amounts [OF 2 b(1)] b(2) assms(5) by simp_all
  have "unat (g + u) = unat g + unat u" using a assms(4,5) by (intro unat_plus_no_wrap) (simp add: word_le_nat_alt)
  moreover have "unat (ted_pending (ted_of d' e)) = unat (ted_pending (ted_of d e)) + unat (o_grant_used oa')"
    using check_amounts [OF assms(1,4,5,6)] by auto
  ultimately show ?thesis using r e a check_used_skip [OF assms(2,4,5)] by auto
qed

theorem grant_check_enforces_witness:
  "let d = upd_ted 1 (\<lambda>_. \<lparr>ted_dirty = 0, ted_grant = 8192, ted_pending = 0\<rparr>) gx_dev1;
       oa = \<lparr>o_valid = 0, o_dirty = 0, o_grant = 0, o_undirty = 0, o_flags = 0, o_dropped = 0, o_grant_used = 0\<rparr>;
       rnb = [\<lparr>rnb_offset = 0, rnb_len = 4096, rnb_flags = OBD_BRW_FROM_GRANT\<rparr>, \<lparr>rnb_offset = 4096, rnb_len = 4096, rnb_flags = 0\<rparr>]
   in (case tgt_grant_check d 1 oa rnb 8192 of None \<Rightarrow> False
       | Some (d', oa', rnb', left') \<Rightarrow> cost d 1 False rnb' \<le> unat (o_grant_used oa') \<and> map granted_rnb rnb' = [True, False])"
proof -
  define d where "d = upd_ted 1 (\<lambda>_. \<lparr>ted_dirty = 0, ted_grant = 8192, ted_pending = 0\<rparr>) gx_dev1"
  define oa where "oa = \<lparr>o_valid = 0, o_dirty = 0, o_grant = 0, o_undirty = 0, o_flags = 0, o_dropped = 0, o_grant_used = 0\<rparr>"
  define rnb where "rnb = [\<lparr>rnb_offset = 0, rnb_len = 4096, rnb_flags = OBD_BRW_FROM_GRANT\<rparr>, \<lparr>rnb_offset = 4096, rnb_len = 4096, rnb_flags = 0\<rparr>]"
  note defs = d_def oa_def rnb_def gx_defs const_defs exp_grant_param_supp_def has_def ted_of_def upd_ted_def tgt_grant_rnb_size_def
  have u: "check_used d 1 oa 8192 = (False, 0, 0, 8192)" by (simp add: check_used_def defs)
  have z: "\<forall>r \<in> set rnb. sized d 1 r" by (simp add: sized_def own_size_def srv_size_def defs)
  have rb: "check_rnbs d 1 False rnb 0 0 8192 = (8192, 0, 8192, [\<lparr>rnb_offset = 0, rnb_len = 4096, rnb_flags = 96\<rparr>, \<lparr>rnb_offset = 4096, rnb_len = 4096, rnb_flags = 0\<rparr>])"
    by (simp add: defs Let_def)
  have hv: "\<not> has (o_valid oa) OBD_MD_FLGRANT" by (simp add: oa_def has_def)
  obtain d' oa' rnb' left' where c: "tgt_grant_check d 1 oa rnb 8192 = Some (d', oa', rnb', left')"
    and r: "rnb' = [\<lparr>rnb_offset = 0, rnb_len = 4096, rnb_flags = 96\<rparr>, \<lparr>rnb_offset = 4096, rnb_len = 4096, rnb_flags = 0\<rparr>]"
    unfolding tgt_grant_check_def u Let_def using hv rb by simp
  have g: "map granted_rnb rnb' = [True, False]" by (simp add: r granted_rnb_def const_defs has_def)
  have "cost d 1 False rnb' \<le> unat (o_grant_used oa')"
    using grant_check_enforces [OF c u z] by (simp add: d_def gx_defs ted_of_def upd_ted_def)
  then show ?thesis using c g unfolding d_def oa_def rnb_def by (simp only: Let_def option.case prod.case simp_thms)
qed

text \<open>
  The amount a client says it used is not compared with its buffers: all buffers written under grant pass for the amount
  claimed, be it a single byte.
\<close>

lemma check_rnbs_claimed:
  assumes "\<forall>r \<in> set rnb. has (rnb_flags r) OBD_BRW_FROM_GRANT"
  shows "check_rnbs d e True rnb g u l = (g, u, l, map (\<lambda>r. r\<lparr>rnb_flags := rnb_flags r OR OBD_BRW_GRANTED\<rparr>) rnb)"
  using assms by (induction rnb) (auto simp: Let_def)

lemma claimed_grant_unchecked:
  assumes "\<not> obd_recovering d" "\<not> (has (o_valid oa) OBD_MD_FLFLAGS \<and> has (o_flags oa) OBD_FL_RECOV_RESEND)"
    and "exp_grant_param_supp (obd_exp d e)" "0 < o_grant_used oa" "o_grant_used oa \<le> ted_grant (ted_of d e)"
    and "\<forall>r \<in> set rnb. has (rnb_flags r) OBD_BRW_FROM_GRANT" "\<not> has (o_valid oa) OBD_MD_FLGRANT"
  shows "\<exists>d'. tgt_grant_check d e oa rnb left = Some (d', oa, map (\<lambda>r. r\<lparr>rnb_flags := rnb_flags r OR OBD_BRW_GRANTED\<rparr>) rnb, left)"
proof -
  have "check_used d e oa left = (True, o_grant_used oa, 0, left)" using assms(1-5) by (auto simp: check_used_def)
  then show ?thesis using assms(7) check_rnbs_claimed [OF assms(6)] by (simp add: tgt_grant_check_def Let_def)
qed

section \<open>Refreshing the statfs data\<close>

lemma statfs_forced: "\<not> fst (tgt_grant_statfs r True d)"
  by (simp add: tgt_grant_statfs_def tgt_statfs_internal_def Let_def split: prod.splits)

lemma write_refresh_2: "write_refresh (Suc k) os n 2 d rnb chunk = Some (snd (tgt_grant_statfs (os n) True d), tgt_grant_space_left (lut_tgd (snd (tgt_grant_statfs (os n) True d))))"
  using statfs_forced [of "os n" d] by (simp add: Let_def case_prod_beta)

lemma write_refresh_1:
  "write_refresh (Suc (Suc k)) os n (Suc 0) d rnb chunk = write_refresh (Suc (Suc 0)) os n (Suc 0) d rnb chunk \<and> write_refresh (Suc (Suc 0)) os n (Suc 0) d rnb chunk \<noteq> None"
  using statfs_forced [of "os n" d] write_refresh_2
  by (subst (1 2 3) write_refresh.simps(2)) (auto simp: Let_def case_prod_beta simp del: write_refresh.simps)

text \<open>
  C30. The \<open>refresh\<close> loops end: a connect asks the backend at most twice, a write at most three
  times (once more after it forces a refresh, once more after a sync), whatever the backend
  answers, and a larger bound on the iterations never changes the result.
\<close>

theorem grant_refresh_ends:
  "connect_refresh 2 os n False d chunk \<noteq> None \<and> connect_refresh (2 + k) os n False d chunk = connect_refresh 2 os n False d chunk \<and>
   write_refresh 3 os n 0 d rnb chunk \<noteq> None \<and> write_refresh (3 + k) os n 0 d rnb chunk = write_refresh 3 os n 0 d rnb chunk"
proof -
  have c: "connect_refresh (Suc j) os m True x chunk = Some (snd (tgt_grant_statfs (os m) True x), tgt_grant_space_left (lut_tgd (snd (tgt_grant_statfs (os m) True x))))" for j m x
    using statfs_forced [of "os m" x] by (simp add: Let_def case_prod_beta)
  have "connect_refresh (Suc (Suc k)) os n False d chunk = connect_refresh (Suc (Suc 0)) os n False d chunk \<and> connect_refresh (Suc (Suc 0)) os n False d chunk \<noteq> None"
    by (subst (1 2 3) connect_refresh.simps(2)) (simp add: Let_def case_prod_beta c del: connect_refresh.simps)
  moreover have "write_refresh (Suc (Suc (Suc k))) os n 0 d rnb chunk = write_refresh (Suc (Suc (Suc 0))) os n 0 d rnb chunk \<and> write_refresh (Suc (Suc (Suc 0))) os n 0 d rnb chunk \<noteq> None"
    using write_refresh_1 write_refresh_2
    by (subst (1 2 3) write_refresh.simps(2)) (auto simp: Let_def case_prod_beta simp del: write_refresh.simps)
  ultimately show ?thesis by (simp only: numeral_2_eq_2 numeral_3_eq_3 add_Suc add_0 simp_thms)
qed

text \<open>Writes that commit while another thread is in \<open>dt_statfs\<close>.\<close>

fun run_commits :: "obd_device \<Rightarrow> (nat \<times> u64 \<times> int) list \<Rightarrow> obd_device option" where
  "run_commits d [] = Some d"
| "run_commits d ((e, p, rc) # cs) = Option.bind (tgt_grant_commit d e p rc) (\<lambda>d. run_commits d cs)"

definition committed :: "(nat \<times> u64 \<times> int) list \<Rightarrow> u64" where
  "committed cs = (\<Sum>(e, p, rc) \<leftarrow> cs. if rc = 0 then p else 0)"

lemma commit_inflight:
  assumes "tgt_grant_commit d e p rc = Some d'" "tgd_statfs_inflight (lut_tgd d) \<noteq> 0"
  shows "tgd_statfs_inflight (lut_tgd d') = tgd_statfs_inflight (lut_tgd d) \<and> tgd_blockbits (lut_tgd d') = tgd_blockbits (lut_tgd d) \<and>
    tgd_osfs_inflight (lut_tgd d') = tgd_osfs_inflight (lut_tgd d) + (if rc = 0 then p else 0)"
  using assms by (auto simp: tgt_grant_commit_def Let_def split: if_split_asm)

lemma commits_inflight:
  "run_commits d cs = Some d' \<Longrightarrow> tgd_statfs_inflight (lut_tgd d) \<noteq> 0 \<Longrightarrow>
   tgd_blockbits (lut_tgd d') = tgd_blockbits (lut_tgd d) \<and> tgd_osfs_inflight (lut_tgd d') = tgd_osfs_inflight (lut_tgd d) + committed cs"
proof (induction cs arbitrary: d)
  case (Cons c cs)
  obtain e p rc where c: "c = (e, p, rc)" by (cases c)
  obtain d1 where d1: "tgt_grant_commit d e p rc = Some d1" "run_commits d1 cs = Some d'" using Cons.prems(1) c by (auto elim: bind_SomeE)
  show ?case using Cons.IH [OF d1(2)] commit_inflight [OF d1(1) Cons.prems(2)] Cons.prems(2) c by (simp add: committed_def add.assoc)
qed (simp add: committed_def)

text \<open>
  C29. A write that commits while the target waits for \<open>dt_statfs\<close> is not lost: however many
  writes commit in between, the available space that is cached afterwards is the answer of the
  backend less the blocks of those writes, and the space that may be counted twice is theirs and
  that of the writes still pending.
\<close>

theorem statfs_sees_commits:
  assumes "tgt_statfs_begin (lut_tgd d) = (u, t)" "tgd_statfs_inflight (lut_tgd d) \<noteq> - 1"
    and "run_commits (d\<lparr>lut_tgd := t\<rparr>) cs = Some d'" "tgt_statfs_end u osfs now (lut_tgd d') = (osfs', t')"
  shows "os_bavail osfs' = os_bavail osfs - min (os_bavail osfs) (drop_bit (tgd_blockbits (lut_tgd d)) (committed cs)) \<and>
    tgd_osfs t' = osfs' \<and> tgd_osfs_unstable t' = committed cs + tgd_tot_pending (lut_tgd d')"
proof -
  have n: "tgd_statfs_inflight t \<noteq> 0"
    using assms(1,2) by (auto simp: tgt_statfs_begin_def Let_def eq_neg_iff_add_eq_0 split: if_split_asm)
  have t: "tgd_blockbits t = tgd_blockbits (lut_tgd d)" "tgd_osfs_inflight t = u"
    using assms(1) by (auto simp: tgt_statfs_begin_def Let_def)
  have c: "tgd_osfs_inflight (lut_tgd d') - u = committed cs" "tgd_blockbits (lut_tgd d') = tgd_blockbits (lut_tgd d)"
    using commits_inflight [OF assms(3)] n t by simp_all
  show ?thesis using assms(4) c by (auto simp: tgt_statfs_end_def Let_def split: if_split_asm)
qed

theorem statfs_sees_commits_witness:
  "let d = upd_tgd (\<lambda>t. t\<lparr>tgd_tot_granted := 8192, tgd_tot_pending := 8192\<rparr>) (upd_ted 1 (\<lambda>_. \<lparr>ted_dirty = 0, ted_grant = 0, ted_pending = 8192\<rparr>) gx_dev1);
       (u, t) = tgt_statfs_begin (lut_tgd d)
   in \<exists>d'. run_commits (d\<lparr>lut_tgd := t\<rparr>) [(1, 8192, 0)] = Some d' \<and> os_bavail (fst (tgt_statfs_end u gx_osfs 7 (lut_tgd d'))) = 4194302"
proof -
  define d where "d = upd_tgd (\<lambda>t. t\<lparr>tgd_tot_granted := 8192, tgd_tot_pending := 8192\<rparr>) (upd_ted 1 (\<lambda>_. \<lparr>ted_dirty = 0, ted_grant = 0, ted_pending = 8192\<rparr>) gx_dev1)"
  obtain u t where b: "tgt_statfs_begin (lut_tgd d) = (u, t)" by fastforce
  have n: "tgd_statfs_inflight (lut_tgd d) \<noteq> - 1" "tgd_blockbits (lut_tgd d) = 12" by (simp_all add: d_def gx_defs)
  have "t = snd (tgt_statfs_begin (lut_tgd d))" using b by simp
  then have "\<exists>d'. run_commits (d\<lparr>lut_tgd := t\<rparr>) [(1, 8192, 0)] = Some d'"
    by (simp add: tgt_grant_commit_def tgt_statfs_begin_def d_def gx_defs ted_of_def upd_ted_def upd_tgd_def Let_def)
  then obtain d' where r: "run_commits (d\<lparr>lut_tgd := t\<rparr>) [(1, 8192, 0)] = Some d'" by blast
  obtain o' t' where e: "tgt_statfs_end u gx_osfs 7 (lut_tgd d') = (o', t')" by fastforce
  have "os_bavail o' = 4194302" using statfs_sees_commits [OF b n(1) r e] by (simp add: n(2) gx_osfs_def committed_def)
  then show ?thesis using b r e unfolding d_def by (simp add: Let_def del: run_commits.simps)
qed

section \<open>Errors\<close>

lemma sint_neg: "2 ^ 63 \<le> unat (a :: u64) \<Longrightarrow> sint a < 0"
  by (meson linorder_not_less sint_nonneg_unat)

lemma unat_sub_wrap:
  assumes "(b :: u64) < a"
  shows "unat (b - a) + unat a = 2 ^ 64 + unat b"
  using assms unat_lt_bound [of a] by (simp add: unat_sub_if_size word_less_nat_alt word_size)

text \<open>
  C38. A client that gives back more grant than the target has on record for it brings the target
  down: \<open>tgt_grant_shrink\<close> subtracts the amount unchecked, the grant of the export becomes negative,
  and the next request of that client with grant information fails the assertion, whatever it
  holds.
\<close>

theorem shrink_below_zero:
  assumes "left < scast (tgd_tot_granted_clients (lut_tgd d)) * TGT_GRANT_SHRINK_LIMIT (obd_exp d e)"
    and "ted_grant (ted_of d e) < o_grant oa" "unat (o_grant oa) \<le> 2 ^ 62"
    and "o_valid oa2 AND (OBD_MD_FLBLOCKS OR OBD_MD_FLGRANT) = OBD_MD_FLBLOCKS OR OBD_MD_FLGRANT"
  shows "tgt_grant_incoming (fst (tgt_grant_shrink d e oa left)) e oa2 chunk = None"
proof -
  let ?d = "fst (tgt_grant_shrink d e oa left)"
  have g: "ted_grant (ted_of ?d e) = ted_grant (ted_of d e) - o_grant oa"
    using assms(1) by (simp add: tgt_grant_shrink_def Let_def not_le [THEN iffD2])
  have "2 ^ 63 \<le> unat (ted_grant (ted_of d e) - o_grant oa)" using unat_sub_wrap [OF assms(2)] assms(3) by simp
  then have neg: "sint (ted_grant (ted_of ?d e)) < 0" unfolding g by (rule sint_neg)
  obtain oa1 dirty dropped where c: "incoming_counts ?d e oa2 chunk = (oa1, dirty, dropped)" by (cases "incoming_counts ?d e oa2 chunk") auto
  have "0 \<le> sint (ucast (x :: u32) :: u64)" for x
    using sint_u64_small [of "ucast x"] unat_lt_bound [of x] by simp
  then have "sint (ted_grant (ted_of ?d e)) < sint (ucast (x :: u32) :: u64)" for x by (rule less_le_trans [OF neg])
  then have "dropped = 0" using c by (auto simp: incoming_counts_def Let_def)
  then show ?thesis using c neg assms(4) by (simp add: tgt_grant_incoming_def negative_def Let_def)
qed

theorem shrink_below_zero_witness:
  "let d = upd_tgd (\<lambda>t. t\<lparr>tgd_tot_granted := 4096, tgd_tot_granted_clients := 1\<rparr>) (upd_ted 1 (\<lambda>_. \<lparr>ted_dirty = 0, ted_grant = 4096, ted_pending = 0\<rparr>) gx_dev1);
       oa = \<lparr>o_valid = OBD_MD_FLBLOCKS OR OBD_MD_FLGRANT, o_dirty = 0, o_grant = 8192, o_undirty = 0, o_flags = 0, o_dropped = 0, o_grant_used = 0\<rparr>
   in tgt_grant_incoming (fst (tgt_grant_shrink d 1 oa 0)) 1 oa 2105344 = None"
  unfolding Let_def
  by (rule shrink_below_zero)
    (simp_all add: TGT_GRANT_SHRINK_LIMIT_def exp_max_brw_size_def gx_defs const_defs has_def ted_of_def upd_ted_def upd_tgd_def)

text \<open>
  A client without the grant parameters whose dirty space turns negative when it is converted to the blocks of the target
  brings the target down as well: the sign is checked before the conversion only.
\<close>

lemma dirty_overflow_asserts:
  assumes "\<not> exp_grant_param_supp (obd_exp d e)" "0 \<le> sint (o_dirty oa)" "sint (tgt_grant_inflate (lut_tgd d) (o_dirty oa)) < 0"
    and "o_valid oa AND (OBD_MD_FLBLOCKS OR OBD_MD_FLGRANT) = OBD_MD_FLBLOCKS OR OBD_MD_FLGRANT"
  shows "tgt_grant_incoming d e oa chunk = None"
proof -
  obtain oa1 dirty dropped where c: "incoming_counts d e oa chunk = (oa1, dirty, dropped)" by (cases "incoming_counts d e oa chunk") auto
  have "sint dirty < 0" using c assms(1-3) by (auto simp: incoming_counts_def obdo_inflate_def Let_def split: if_split_asm)
  then show ?thesis using c assms(4) by (simp add: tgt_grant_incoming_def negative_def Let_def)
qed

lemma dirty_overflow_instance: "0 \<le> sint (2 ^ 62 :: u64)" "tgd_blockbits t = 13 \<Longrightarrow> sint (tgt_grant_inflate t (2 ^ 62)) < 0"
  by (simp_all add: tgt_grant_inflate_def COMPAT_BSIZE_SHIFT_def)

text \<open>
  C39. \<open>tgt_grant_alloc\<close> can grant a negative amount. When the target has more on record for a
  client than the client wants and a chunk, the limit at its end takes the difference away: the
  amount it returns is negative. A client without the grant parameters on a backend with large
  blocks gets that amount shifted right as an unsigned number, a grant of 32 TiB or more.
\<close>

theorem alloc_grants_negative:
  assumes "tgt_grant_alloc d e cur want left chunk cons = Some (g, d')" "alloc_amount d e cur want left chunk cons \<noteq> None"
    and "unat want + unat chunk < unat (ted_grant (ted_of d e))"
    and "unat (ted_grant (ted_of d e)) \<le> 2 ^ 61" "unat left \<le> 2 ^ 61" "unat chunk \<le> 2 ^ 40" "tgd_blockbits (lut_tgd d) \<le> 30"
  shows "sint g < 0 \<and> ted_grant (ted_of d' e) = want + chunk \<and>
    (tgd_blockbits (lut_tgd d) > COMPAT_BSIZE_SHIFT \<longrightarrow> 2 ^ 45 \<le> unat (tgt_grant_deflate (lut_tgd d) g))"
proof -
  let ?G = "ted_grant (ted_of d e)" and ?bb = "tgd_blockbits (lut_tgd d)"
  obtain a where a: "alloc_amount d e cur want left chunk cons = Some a" using assms(2) by blast
  then have g: "a = g" "ted_grant (ted_of d' e) = ?G + g"
    using assms(1) by (auto simp: tgt_grant_alloc_def Let_def split: if_split_asm)
  have b: "unat (?G + g) \<le> unat want + unat chunk" "want \<le> OBD_MAX_GRANT" using alloc_amounts [OF a assms(4-7)] g(1) by simp_all
  have w: "unat (want + chunk) = unat want + unat chunk"
    using b(2) assms(6) by (intro unat_plus_no_wrap) (simp add: word_le_nat_alt OBD_MAX_GRANT_def)
  then have lt: "want + chunk < ?G" using assms(3) by (simp add: word_less_nat_alt)
  have g': "g = want + chunk - ?G" using alloc_amounts [OF a assms(4-7)] g(1) assms(3) by simp
  have u: "2 ^ 63 \<le> unat g" using unat_sub_wrap [OF lt] assms(4) unfolding g' by simp
  have "2 ^ 45 \<le> unat (drop_bit (?bb - COMPAT_BSIZE_SHIFT) g)"
  proof -
    have "(2::nat) ^ (?bb - COMPAT_BSIZE_SHIFT) \<le> 2 ^ 18" using assms(7) by (intro power_increasing) (simp_all add: COMPAT_BSIZE_SHIFT_def)
    then have "(2::nat) ^ 63 div 2 ^ 18 \<le> 2 ^ 63 div 2 ^ (?bb - COMPAT_BSIZE_SHIFT)" by (intro div_le_mono2) simp_all
    also have "\<dots> \<le> unat g div 2 ^ (?bb - COMPAT_BSIZE_SHIFT)" using u by (rule div_le_mono)
    also have "\<dots> = unat (drop_bit (?bb - COMPAT_BSIZE_SHIFT) g)"
      using unat_lt_bound [of g] by (simp only: unsigned_drop_bit_eq) (simp add: drop_bit_eq_div take_bit_nat_eq_self)
    finally show ?thesis by simp
  qed
  then show ?thesis using sint_neg [OF u] g g' by (simp add: tgt_grant_deflate_def)
qed

theorem alloc_grants_negative_witness:
  "let d = upd_tgd (\<lambda>t. t\<lparr>tgd_tot_granted := 2 ^ 24, tgd_blockbits := 16\<rparr>)
         (upd_ted 2 (\<lambda>_. \<lparr>ted_dirty = 0, ted_grant = 2 ^ 24, ted_pending = 0\<rparr>) gx_dev1)
   in \<exists>g d'. tgt_grant_alloc d 2 0 65536 (2 ^ 30) (2 ^ 21) True = Some (g, d') \<and> sint g < 0 \<and> 2 ^ 45 \<le> unat (tgt_grant_deflate (lut_tgd d) g)"
proof -
  define d where "d = upd_tgd (\<lambda>t. t\<lparr>tgd_tot_granted := 2 ^ 24, tgd_blockbits := 16\<rparr>)
         (upd_ted 2 (\<lambda>_. \<lparr>ted_dirty = 0, ted_grant = 2 ^ 24, ted_pending = 0\<rparr>) gx_dev1)"
  note defs = d_def gx_defs const_defs exp_grant_param_supp_def has_def ted_of_def upd_ted_def upd_tgd_def
  have a: "alloc_amount d 2 0 65536 (2 ^ 30) (2 ^ 21) True \<noteq> None" by (simp add: alloc_amount_def defs)
  have "tgt_grant_alloc d 2 0 65536 (2 ^ 30) (2 ^ 21) True \<noteq> None" by (simp add: tgt_grant_alloc_def alloc_amount_def defs)
  then obtain g d' where r: "tgt_grant_alloc d 2 0 65536 (2 ^ 30) (2 ^ 21) True = Some (g, d')" by fastforce
  have "ted_grant (ted_of d 2) = 2 ^ 24" "tgd_blockbits (lut_tgd d) = 16" by (simp_all add: defs)
  then show ?thesis using alloc_grants_negative [OF r a] r unfolding d_def [symmetric] by (simp add: COMPAT_BSIZE_SHIFT_def Let_def)
qed

text \<open>
  C40. An error of \<open>dt_statfs\<close> leaks a reference: the counter of the running statfs calls is the
  same after a call that succeeds, and one higher for ever after a call that fails, so the counter
  of the writes in flight is not reset any more.
\<close>

theorem statfs_error_leaks:
  "tgd_statfs_inflight (lut_tgd (snd (tgt_grant_statfs r True d))) =
     (if sr_rc r = 0 then tgd_statfs_inflight (lut_tgd d) else tgd_statfs_inflight (lut_tgd d) + 1)"
  by (simp add: tgt_grant_statfs_def tgt_statfs_internal_def tgt_statfs_begin_def tgt_statfs_end_def Let_def split: prod.splits)

end
