(* ===== verification/Fld_Cache.thy ===== *)
theory Fld_Cache
  imports Seq_Range
begin

text \<open>
  The cache of the FID location database (\<open>lustre/fld/fld_cache.c\<close>): which target holds which
  range of sequences. The entries are kept sorted by the start of their range; an insertion cuts,
  merges or replaces the entries it overlaps.

  An entry has the address of its node and its range. The two lists of the C code are the sorted
  list of the entries and the least-recently-used list of their addresses. A node that the code
  allocates is an argument (\<open>None\<close> is a failed allocation); the read-write lock makes each
  operation atomic.
\<close>

section \<open>Data\<close>

record fld_cache_entry =
  fce_node :: nat
  fce_range :: lu_seq_range

record fld_stats =
  fst_count :: u64
  fst_cache :: u64

record fld_cache =
  fci_threshold :: int
  fci_cache_size :: int
  fci_cache_count :: int
  fci_lru :: "nat list"
  fci_entries :: "fld_cache_entry list"
  fci_stat :: fld_stats
  fci_no_shrink :: bool

text \<open>The result is \<open>Inl\<close> the error, or the empty cache.\<close>

definition fld_cache_init :: "bool \<Rightarrow> int \<Rightarrow> int \<Rightarrow> (int + fld_cache) option" where
  "fld_cache_init alloc cache_size cache_threshold = do {
     LASSERT (cache_threshold < cache_size);
     Some (if \<not> alloc then Inl (- ENOMEM)
           else Inr \<lparr>fci_threshold = cache_threshold, fci_cache_size = cache_size, fci_cache_count = 0, fci_lru = [],
                     fci_entries = [], fci_stat = \<lparr>fst_count = 0, fst_cache = 0\<rparr>, fci_no_shrink = False\<rparr>)
   }"

section \<open>Lists\<close>

text \<open>\<open>list_add\<close> after the node \<open>pos\<close>, or at the head of the list.\<close>

fun list_add :: "fld_cache_entry \<Rightarrow> nat option \<Rightarrow> fld_cache_entry list \<Rightarrow> fld_cache_entry list option" where
  "list_add x None xs = Some (x # xs)"
| "list_add x (Some p) [] = None"
| "list_add x (Some p) (y # ys) =
     (if fce_node y = p then Some (y # x # ys) else map_option (\<lambda>zs. y # zs) (list_add x (Some p) ys))"

text \<open>The node before \<open>p\<close>; \<open>None\<close> is the head of the list.\<close>

fun list_prev :: "nat \<Rightarrow> nat option \<Rightarrow> fld_cache_entry list \<Rightarrow> nat option" where
  "list_prev p prev [] = prev"
| "list_prev p prev (y # ys) = (if fce_node y = p then prev else list_prev p (Some (fce_node y)) ys)"

definition set_range :: "nat \<Rightarrow> (lu_seq_range \<Rightarrow> lu_seq_range) \<Rightarrow> fld_cache \<Rightarrow> fld_cache" where
  "set_range p f cache =
     cache\<lparr>fci_entries := map (\<lambda>y. if fce_node y = p then y\<lparr>fce_range := f (fce_range y)\<rparr> else y) (fci_entries cache)\<rparr>"

definition fld_cache_entry_delete :: "fld_cache \<Rightarrow> nat \<Rightarrow> fld_cache" where
  "fld_cache_entry_delete cache node =
     cache\<lparr>fci_entries := filter (\<lambda>y. fce_node y \<noteq> node) (fci_entries cache),
           fci_lru := filter (\<lambda>p. p \<noteq> node) (fci_lru cache),
           fci_cache_count := fci_cache_count cache - 1\<rparr>"

section \<open>Fixing the list\<close>

text \<open>
  One pass of the loop of \<open>fld_fix_new_list\<close>. The result is whether the loop restarts, the list
  and the nodes deleted from it.
\<close>

fun fix_scan :: "fld_cache_entry list \<Rightarrow> (bool \<times> fld_cache_entry list \<times> nat list) option" where
  "fix_scan [] = Some (False, [], [])"
| "fix_scan [c] = (if lu_seq_range_is_sane (fce_range c) then Some (False, [c], []) else None)"
| "fix_scan (c # n # rest) =
     (let c_range = fce_range c; n_range = fce_range n;
          keep = map_option (\<lambda>(r, ys, ds). (r, c # ys, ds));
          kill = map_option (\<lambda>(r, ys, ds). (r, ys, fce_node c # ds)) in
      if \<not> lu_seq_range_is_sane c_range then None
      else if lsr_flags c_range \<noteq> lsr_flags n_range then keep (fix_scan (n # rest))
      else if \<not> lsr_start c_range \<le> lsr_start n_range then None
      else if lsr_end c_range = lsr_start n_range then
        (if lsr_index c_range \<noteq> lsr_index n_range then keep (fix_scan (n # rest))
         else kill (fix_scan (n\<lparr>fce_range := n_range\<lparr>lsr_start := lsr_start c_range\<rparr>\<rparr> # rest)))
      else if lsr_start n_range < lsr_end c_range then
        (if lsr_index c_range = lsr_index n_range then
           Some (True, n\<lparr>fce_range := n_range\<lparr>lsr_start := lsr_start c_range, lsr_end := max (lsr_end c_range) (lsr_end n_range)\<rparr>\<rparr> # rest,
                 [fce_node c])
         else if lsr_end n_range \<le> lsr_end c_range then Some (True, n\<lparr>fce_range := c_range\<rparr> # rest, [fce_node c])
         else Some (True, c # n\<lparr>fce_range := n_range\<lparr>lsr_start := lsr_end c_range\<rparr>\<rparr> # rest, []))
      else if lsr_start c_range = lsr_start n_range \<and> lsr_end c_range = lsr_end n_range then kill (fix_scan (n # rest))
      else keep (fix_scan (n # rest)))"

abbreviation estart :: "fld_cache_entry \<Rightarrow> u64" where "estart e \<equiv> lsr_start (fce_range e)"
abbreviation eend :: "fld_cache_entry \<Rightarrow> u64" where "eend e \<equiv> lsr_end (fce_range e)"
abbreviation eflags :: "fld_cache_entry \<Rightarrow> u32" where "eflags e \<equiv> lsr_flags (fce_range e)"
abbreviation eindex :: "fld_cache_entry \<Rightarrow> u32" where "eindex e \<equiv> lsr_index (fce_range e)"

text \<open>The branches of one pass, as an induction rule for the passes that meet no assertion.\<close>

lemma fix_scan_induct [consumes 1, case_names Nil One Keep Merge Union Cover Cut Dup]:
  assumes "fix_scan xs = Some (r, ys, ds)"
    and "P [] False [] []"
    and "\<And>c. estart c \<le> eend c \<Longrightarrow> P [c] False [c] []"
    and keep: "\<And>c n rest r ys ds. \<lbrakk>estart c \<le> eend c; eflags c \<noteq> eflags n \<or> estart c \<le> estart n \<and> eend c \<le> estart n;
           fix_scan (n # rest) = Some (r, ys, ds); P (n # rest) r ys ds\<rbrakk> \<Longrightarrow> P (c # n # rest) r (c # ys) ds"
    and merge: "\<And>c n rest r ys ds. \<lbrakk>estart c \<le> eend c; eflags c = eflags n; estart c \<le> estart n; eend c = estart n; eindex c = eindex n;
           fix_scan (n\<lparr>fce_range := (fce_range n)\<lparr>lsr_start := estart c\<rparr>\<rparr> # rest) = Some (r, ys, ds);
           P (n\<lparr>fce_range := (fce_range n)\<lparr>lsr_start := estart c\<rparr>\<rparr> # rest) r ys ds\<rbrakk> \<Longrightarrow> P (c # n # rest) r ys (fce_node c # ds)"
    and union: "\<And>c n rest. \<lbrakk>estart c \<le> eend c; eflags c = eflags n; estart c \<le> estart n; estart n < eend c; eindex c = eindex n\<rbrakk> \<Longrightarrow>
           P (c # n # rest) True (n\<lparr>fce_range := (fce_range n)\<lparr>lsr_start := estart c, lsr_end := max (eend c) (eend n)\<rparr>\<rparr> # rest) [fce_node c]"
    and cover: "\<And>c n rest. \<lbrakk>estart c \<le> eend c; eflags c = eflags n; estart c \<le> estart n; estart n < eend c; eend n \<le> eend c\<rbrakk> \<Longrightarrow>
           P (c # n # rest) True (n\<lparr>fce_range := fce_range c\<rparr> # rest) [fce_node c]"
    and cut: "\<And>c n rest. \<lbrakk>estart c \<le> eend c; eflags c = eflags n; estart c \<le> estart n; estart n < eend c; eend c < eend n\<rbrakk> \<Longrightarrow>
           P (c # n # rest) True (c # n\<lparr>fce_range := (fce_range n)\<lparr>lsr_start := eend c\<rparr>\<rparr> # rest) []"
    and dup: "\<And>c n rest r ys ds. \<lbrakk>eflags c = eflags n; estart c = estart n; eend c = eend n; eend c = estart c;
           fix_scan (n # rest) = Some (r, ys, ds); P (n # rest) r ys ds\<rbrakk> \<Longrightarrow> P (c # n # rest) r ys (fce_node c # ds)"
  shows "P xs r ys ds"
  using assms(1)
proof (induction "length xs" arbitrary: xs r ys ds rule: less_induct)
  case less
  consider "xs = []" | (one) c where "xs = [c]" | (more) c n rest where "xs = c # n # rest"
    by (metis list.exhaust)
  then show ?case
  proof cases
    case more
    have IH: "P (m # rest) r' ys' ds'" if "fix_scan (m # rest) = Some (r', ys', ds')" for m r' ys' ds'
      using less.hyps [OF _ that] more by simp
    show ?thesis
      using less.prems unfolding more fix_scan.simps Let_def lu_seq_range_is_sane_def
      by (auto split: if_split_asm simp: not_less intro: IH keep merge union cover cut dup)
  qed (use less.prems assms(2,3) in \<open>auto simp: lu_seq_range_is_sane_def split: if_split_asm\<close>)
qed

text \<open>A restart shortens the list or moves the start of an entry up, so the loop ends.\<close>

definition fix_measure :: "fld_cache_entry list \<Rightarrow> nat" where
  "fix_measure xs = (\<Sum>e \<leftarrow> xs. 2 ^ 64 - unat (lsr_start (fce_range e)))"

lemma fix_scan_length:
  "fix_scan xs = Some (r, ys, ds) \<Longrightarrow> length ys + length ds = length xs"
  by (induction rule: fix_scan_induct) auto

lemma fix_measure_up:
  assumes "s < (t :: u64)"
  shows "2 ^ 64 - unat t < 2 ^ 64 - unat s"
  using assms unat_lt_bound [of t] unat_lt_bound [of s] by (simp add: word_less_nat_alt)

lemma fix_scan_measure:
  "fix_scan xs = Some (r, ys, ds) \<Longrightarrow>
   length ys \<le> length xs \<and> (r \<longrightarrow> length ys < length xs \<or> length ys = length xs \<and> fix_measure ys < fix_measure xs)"
proof (induction rule: fix_scan_induct)
  case (Cut c n rest)
  then show ?case using fix_measure_up [of "estart n" "eend c"] by (simp add: fix_measure_def)
next
  case (Keep c n rest r ys ds)
  then show ?case by (auto simp: fix_measure_def)
qed auto

function fix_list :: "fld_cache_entry list \<Rightarrow> (fld_cache_entry list \<times> nat list) option" where
  "fix_list xs =
     (case fix_scan xs of
        None \<Rightarrow> None
      | Some (r, ys, ds) \<Rightarrow>
          if r then map_option (\<lambda>(zs, ds'). (zs, ds @ ds')) (fix_list ys) else Some (ys, ds))"
  by pat_completeness auto
termination
  by (relation "measures [length, fix_measure]") (auto dest: fix_scan_measure)

definition fld_fix_new_list :: "fld_cache \<Rightarrow> fld_cache option" where
  "fld_fix_new_list cache =
     (case fix_list (fci_entries cache) of
        None \<Rightarrow> None
      | Some (ys, ds) \<Rightarrow>
          Some (cache\<lparr>fci_entries := ys, fci_lru := filter (\<lambda>p. p \<notin> set ds) (fci_lru cache),
                      fci_cache_count := fci_cache_count cache - int (length ds)\<rparr>))"

section \<open>Adding and shrinking\<close>

definition fld_cache_entry_add :: "fld_cache \<Rightarrow> fld_cache_entry \<Rightarrow> nat option \<Rightarrow> fld_cache option" where
  "fld_cache_entry_add cache f_new pos = do {
     ys \<leftarrow> list_add f_new pos (fci_entries cache);
     fld_fix_new_list (cache\<lparr>fci_entries := ys, fci_lru := fce_node f_new # fci_lru cache,
                             fci_cache_count := fci_cache_count cache + 1\<rparr>)
   }"

text \<open>The loop of \<open>fld_cache_shrink\<close>, over the least-recently-used list from its tail.\<close>

fun shrink_loop :: "nat list \<Rightarrow> fld_cache \<Rightarrow> fld_cache" where
  "shrink_loop [] cache = cache"
| "shrink_loop (p # ps) cache =
     (if fci_cache_count cache + fci_threshold cache > fci_cache_size cache
      then shrink_loop ps (fld_cache_entry_delete cache p) else cache)"

definition fld_cache_shrink :: "fld_cache \<Rightarrow> fld_cache" where
  "fld_cache_shrink cache =
     (if fci_cache_count cache < fci_cache_size cache then cache else shrink_loop (rev (fci_lru cache)) cache)"

definition fld_cache_flush :: "fld_cache \<Rightarrow> fld_cache" where
  "fld_cache_flush cache = fld_cache_shrink (cache\<lparr>fci_cache_size := 0\<rparr>)"

text \<open>\<open>fld_cache_fini\<close> flushes the cache and frees it; the result is the flushed cache and the percentage of
  hits that is printed.\<close>

definition fld_cache_fini :: "fld_cache \<Rightarrow> fld_cache \<times> u64" where
  "fld_cache_fini cache =
     (let cache' = fld_cache_flush cache; st = fci_stat cache' in
      (cache', if fst_count st > 0 then fst_cache st * 100 div fst_count st else 0))"

section \<open>Insertion\<close>

text \<open>The second entry that \<open>fld_cache_punch_hole\<close> allocates is zeroed, so its flags are zero.\<close>

definition fld_cache_punch_hole :: "fld_cache \<Rightarrow> fld_cache_entry \<Rightarrow> fld_cache_entry \<Rightarrow> nat option \<Rightarrow> fld_cache option" where
  "fld_cache_punch_hole cache f_curr f_new fldt =
     (case fldt of
        None \<Rightarrow> Some cache
      | Some t \<Rightarrow>
          (let new_start = lsr_start (fce_range f_new); new_end = lsr_end (fce_range f_new);
               tail = \<lparr>fce_node = t, fce_range = \<lparr>lsr_start = new_end, lsr_end = lsr_end (fce_range f_curr),
                                                  lsr_index = lsr_index (fce_range f_curr), lsr_flags = 0\<rparr>\<rparr> in do {
             c1 \<leftarrow> fld_cache_entry_add (set_range (fce_node f_curr) (\<lambda>r. r\<lparr>lsr_end := new_start\<rparr>) cache) f_new (Some (fce_node f_curr));
             fld_cache_entry_add c1 tail (Some (fce_node f_new))
           }))"

definition fld_cache_overlap_handle :: "fld_cache \<Rightarrow> fld_cache_entry \<Rightarrow> fld_cache_entry \<Rightarrow> nat option \<Rightarrow> fld_cache option" where
  "fld_cache_overlap_handle cache f_curr f_new fldt =
     (let rng = fce_range f_new; new_start = lsr_start rng; new_end = lsr_end rng; mdt = lsr_index rng;
          curr = fce_range f_curr; node = fce_node f_curr in
      if lsr_index curr = mdt then
        fld_fix_new_list (set_range node (\<lambda>r. r\<lparr>lsr_start := min (lsr_start r) new_start, lsr_end := max (lsr_end r) new_end\<rparr>) cache)
      else if new_start \<le> lsr_start curr \<and> lsr_end curr \<le> new_end then
        fld_fix_new_list (set_range node (\<lambda>r. rng) cache)
      else if lsr_start curr < new_start \<and> new_end < lsr_end curr then
        fld_cache_punch_hole cache f_curr f_new fldt
      else if new_end \<le> lsr_end curr then do {
        LASSERT (new_start \<le> lsr_start curr);
        fld_cache_entry_add (set_range node (\<lambda>r. r\<lparr>lsr_start := new_end\<rparr>) cache) f_new (list_prev node None (fci_entries cache))
      }
      else if lsr_start curr \<le> new_start then do {
        LASSERT (lsr_end curr \<le> new_end);
        fld_cache_entry_add (set_range node (\<lambda>r. r\<lparr>lsr_end := new_start\<rparr>) cache) f_new (Some node)
      }
      else Some cache)"

definition fld_cache_entry_create :: "lu_seq_range \<Rightarrow> nat option \<Rightarrow> (int + fld_cache_entry) option" where
  "fld_cache_entry_create rng f_new = do {
     LASSERT (lu_seq_range_is_sane rng);
     Some (case f_new of None \<Rightarrow> Inl (- ENOMEM) | Some p \<Rightarrow> Inr \<lparr>fce_node = p, fce_range = rng\<rparr>)
   }"

text \<open>The search of \<open>fld_cache_insert_nolock\<close>: \<open>Inl\<close> the node to insert after, or \<open>Inr\<close> the overlapped entry.\<close>

fun insert_scan :: "lu_seq_range \<Rightarrow> nat option \<Rightarrow> fld_cache_entry list \<Rightarrow> nat option + fld_cache_entry" where
  "insert_scan new prev [] = Inl prev"
| "insert_scan new prev (f_curr # xs) =
     (let curr = fce_range f_curr in
      if lsr_end new < lsr_start curr \<or> lsr_end new = lsr_start curr \<and> lsr_flags new \<noteq> lsr_flags curr then Inl prev
      else if lsr_start new < lsr_end curr \<and> lsr_flags new = lsr_flags curr then Inr f_curr
      else insert_scan new (Some (fce_node f_curr)) xs)"

definition fld_cache_insert_nolock :: "fld_cache \<Rightarrow> fld_cache_entry \<Rightarrow> nat option \<Rightarrow> (int \<times> fld_cache) option" where
  "fld_cache_insert_nolock cache f_new fldt =
     (let cache = if \<not> fci_no_shrink cache then fld_cache_shrink cache else cache in
      map_option (\<lambda>c. (0, c))
        (case insert_scan (fce_range f_new) None (fci_entries cache) of
           Inr f_curr \<Rightarrow> fld_cache_overlap_handle cache f_curr f_new fldt
         | Inl prev \<Rightarrow> fld_cache_entry_add cache f_new prev))"

definition fld_cache_insert :: "fld_cache \<Rightarrow> lu_seq_range \<Rightarrow> nat option \<Rightarrow> nat option \<Rightarrow> (int \<times> fld_cache) option" where
  "fld_cache_insert cache rng f_new fldt = do {
     flde \<leftarrow> fld_cache_entry_create rng f_new;
     (case flde of Inl e \<Rightarrow> Some (e, cache) | Inr flde \<Rightarrow> fld_cache_insert_nolock cache flde fldt)
   }"

section \<open>Deletion and lookup\<close>

definition entry_match :: "lu_seq_range \<Rightarrow> fld_cache_entry \<Rightarrow> bool" where
  "entry_match rng flde \<longleftrightarrow>
     lsr_start rng = lsr_start (fce_range flde) \<or>
     lsr_end rng = lsr_end (fce_range flde) \<and> lsr_flags rng = lsr_flags (fce_range flde)"

definition fld_cache_entry_lookup_nolock :: "fld_cache \<Rightarrow> lu_seq_range \<Rightarrow> fld_cache_entry option" where
  "fld_cache_entry_lookup_nolock cache rng = find (entry_match rng) (fci_entries cache)"

definition fld_cache_delete_nolock :: "fld_cache \<Rightarrow> lu_seq_range \<Rightarrow> fld_cache" where
  "fld_cache_delete_nolock cache rng =
     (case find (entry_match rng) (fci_entries cache) of
        None \<Rightarrow> cache | Some flde \<Rightarrow> fld_cache_entry_delete cache (fce_node flde))"

definition fld_cache_delete :: "fld_cache \<Rightarrow> lu_seq_range \<Rightarrow> fld_cache" where
  "fld_cache_delete cache rng = fld_cache_delete_nolock cache rng"

definition fld_cache_entry_lookup :: "fld_cache \<Rightarrow> lu_seq_range \<Rightarrow> fld_cache_entry option" where
  "fld_cache_entry_lookup cache rng = fld_cache_entry_lookup_nolock cache rng"

text \<open>The loop of \<open>fld_cache_lookup\<close>: whether the sequence is found, and what the range is set to.\<close>

fun lookup_scan :: "u64 \<Rightarrow> lu_seq_range option \<Rightarrow> fld_cache_entry list \<Rightarrow> bool \<times> lu_seq_range option" where
  "lookup_scan seq prev [] = (False, None)"
| "lookup_scan seq prev (flde # xs) =
     (if lsr_start (fce_range flde) > seq then (False, prev)
      else if lu_seq_range_within (fce_range flde) seq then (True, Some (fce_range flde))
      else lookup_scan seq (Some (fce_range flde)) xs)"

definition fld_cache_lookup :: "fld_cache \<Rightarrow> u64 \<Rightarrow> lu_seq_range \<Rightarrow> int \<times> fld_cache \<times> lu_seq_range" where
  "fld_cache_lookup cache seq rng =
     (let st = fci_stat cache; st1 = st\<lparr>fst_count := fst_count st + 1\<rparr>;
          (found, r) = lookup_scan seq None (fci_entries cache);
          rng' = (case r of None \<Rightarrow> rng | Some x \<Rightarrow> x) in
      if found then (0, cache\<lparr>fci_stat := st1\<lparr>fst_cache := fst_cache st1 + 1\<rparr>\<rparr>, rng')
      else (- ENOENT, cache\<lparr>fci_stat := st1\<rparr>, rng'))"

section \<open>What a list of entries means\<close>

text \<open>
  The abstract cache maps a sequence to the index and the flags of its target: those of the first
  entry that holds the sequence.
\<close>

fun fld_abs :: "fld_cache_entry list \<Rightarrow> u64 \<Rightarrow> (u32 \<times> u32) option" where
  "fld_abs [] s = None"
| "fld_abs (e # xs) s =
     (if lu_seq_range_within (fce_range e) s then Some (lsr_index (fce_range e), lsr_flags (fce_range e)) else fld_abs xs s)"

text \<open>The list between operations: ranges that are not empty, in order and disjoint.\<close>

fun fld_sorted :: "fld_cache_entry list \<Rightarrow> bool" where
  "fld_sorted [] \<longleftrightarrow> True"
| "fld_sorted (c # xs) \<longleftrightarrow> estart c < eend c \<and> (\<forall>n \<in> set xs. eend c \<le> estart n) \<and> fld_sorted xs"

text \<open>The list during an insertion: one entry may reach over its successors, of its own type.\<close>

fun fld_dirty :: "fld_cache_entry list \<Rightarrow> bool" where
  "fld_dirty [] \<longleftrightarrow> True"
| "fld_dirty (c # xs) \<longleftrightarrow> estart c < eend c \<and>
     ((\<forall>n \<in> set xs. eend c \<le> estart n) \<and> fld_dirty xs \<or>
      fld_sorted xs \<and> (\<forall>n \<in> set xs. estart c \<le> estart n \<and> (eflags n = eflags c \<or> eend c \<le> estart n)))"

lemma fld_sorted_dirty: "fld_sorted xs \<Longrightarrow> fld_dirty xs"
  by (induction xs) auto

lemma fld_sorted_nonempty: "fld_sorted xs \<Longrightarrow> e \<in> set xs \<Longrightarrow> estart e < eend e"
  by (induction xs) auto

lemma fld_sorted_append:
  "fld_sorted (xs @ ys) \<longleftrightarrow> fld_sorted xs \<and> fld_sorted ys \<and> (\<forall>x \<in> set xs. \<forall>y \<in> set ys. eend x \<le> estart y)"
  by (induction xs) auto

lemma fld_dirty_append:
  "(\<forall>x \<in> set xs. \<forall>y \<in> set ys. eend x \<le> estart y) \<Longrightarrow> fld_sorted xs \<Longrightarrow> fld_dirty ys \<Longrightarrow> fld_dirty (xs @ ys)"
  by (induction xs) auto

lemma fld_abs_append: "fld_abs (xs @ ys) s = (case fld_abs xs s of None \<Rightarrow> fld_abs ys s | Some v \<Rightarrow> Some v)"
  by (induction xs) auto

lemma fld_abs_None: "fld_abs xs s = None \<longleftrightarrow> (\<forall>e \<in> set xs. \<not> lu_seq_range_within (fce_range e) s)"
  by (induction xs) auto

lemma fld_abs_below: "(\<And>e. e \<in> set xs \<Longrightarrow> s < estart e) \<Longrightarrow> fld_abs xs s = None"
  unfolding fld_abs_None lu_seq_range_within_def by (meson leD)

lemma fld_abs_above: "(\<And>e. e \<in> set xs \<Longrightarrow> eend e \<le> s) \<Longrightarrow> fld_abs xs s = None"
  unfolding fld_abs_None lu_seq_range_within_def by (meson leD)

section \<open>Fixing keeps the meaning\<close>

lemma fix_scan_abs:
  "fix_scan xs = Some (r, ys, ds) \<Longrightarrow> \<forall>e \<in> set xs. estart e \<le> eend e \<Longrightarrow> fld_abs ys s = fld_abs xs s"
  by (induction rule: fix_scan_induct) (auto simp: lu_seq_range_within_def max_def)

lemma fix_scan_lower:
  "fix_scan xs = Some (r, ys, ds) \<Longrightarrow> \<forall>e \<in> set xs. b \<le> estart e \<Longrightarrow> \<forall>e \<in> set ys. b \<le> estart e"
  by (induction rule: fix_scan_induct) auto

lemma fix_scan_nodes: "fix_scan xs = Some (r, ys, ds) \<Longrightarrow> mset (map fce_node xs) = mset (map fce_node ys) + mset ds"
  by (induction rule: fix_scan_induct) auto

lemma fld_dirty_sane: "fld_dirty xs \<Longrightarrow> \<forall>e \<in> set xs. estart e < eend e"
  by (induction xs) (auto dest: fld_sorted_nonempty)

lemma fld_dirty_Cons_sorted:
  "fld_dirty (c # n # rest) \<Longrightarrow> eflags c \<noteq> eflags n \<or> eend c \<le> estart n \<Longrightarrow>
   fld_dirty (n # rest) \<and> (\<forall>e \<in> set (n # rest). eend c \<le> estart e)"
  using fld_sorted_dirty [of "n # rest"] by (auto intro: order.trans order.strict_implies_order)

lemma fld_dirty_start: "fld_dirty (c # xs) \<Longrightarrow> \<forall>e \<in> set xs. estart c \<le> estart e"
  by (auto intro: order.trans order.strict_implies_order)

lemma fld_dirty_merge:
  assumes "fld_dirty (c # n # rest)" "eend c = estart n" "eflags c = eflags n"
  shows "fld_dirty (n\<lparr>fce_range := (fce_range n)\<lparr>lsr_start := estart c\<rparr>\<rparr> # rest)"
  using fld_dirty_Cons_sorted [OF assms(1)] fld_dirty_start [OF assms(1)] assms
  by (auto intro: order.strict_trans order.trans)

lemma fld_dirty_overlap:
  assumes "fld_dirty (c # n # rest)" "estart n < eend c"
  shows "fld_sorted (n # rest)" "estart c < eend c" "\<forall>e \<in> set (n # rest). estart c \<le> estart e \<and> (eflags e = eflags c \<or> eend c \<le> estart e)"
  using assms by auto

lemma fix_scan_runs: "fld_dirty xs \<Longrightarrow> fix_scan xs \<noteq> None"
proof (induction "length xs" arbitrary: xs rule: less_induct)
  case less
  consider "xs = []" | (one) c where "xs = [c]" | (more) c n rest where "xs = c # n # rest"
    by (metis list.exhaust)
  then show ?case
  proof cases
    case more
    have IH: "fix_scan (m # rest) \<noteq> None" if "fld_dirty (m # rest)" for m
      using less.hyps [OF _ that] more by simp
    have D: "fld_dirty (c # n # rest)" using less.prems unfolding more .
    have c: "estart c \<le> eend c" "estart c \<le> estart n"
      using fld_dirty_sane [OF D] fld_dirty_start [OF D] by (simp_all add: less_imp_le)
    have keep: "\<exists>z. fix_scan (n # rest) = Some z" if "eflags c \<noteq> eflags n \<or> eend c \<le> estart n"
      using IH [OF conjunct1 [OF fld_dirty_Cons_sorted [OF D that]]] by (rule not_None_eq [THEN iffD1])
    have merge: "\<exists>z. fix_scan (n\<lparr>fce_range := (fce_range n)\<lparr>lsr_start := estart c\<rparr>\<rparr> # rest) = Some z"
      if "eend c = estart n" "eflags c = eflags n"
      using IH [OF fld_dirty_merge [OF D that]] by (rule not_None_eq [THEN iffD1])
    consider "eflags c \<noteq> eflags n" | "eflags c = eflags n" "estart n < eend c"
      | "eflags c = eflags n" "eend c < estart n" | "eflags c = eflags n" "eend c = estart n"
      by (metis linorder_less_linear)
    then show ?thesis
    proof cases
      case 1 then show ?thesis unfolding more fix_scan.simps Let_def lu_seq_range_is_sane_def using c keep by auto
    next
      case 2
      then have "eend c \<noteq> estart n" by auto
      with 2 show ?thesis unfolding more fix_scan.simps Let_def lu_seq_range_is_sane_def using c by auto
    next
      case 3 
      then obtain z where "fix_scan (n # rest) = Some z" using keep less_imp_le by blast
      moreover have "eend c \<noteq> estart n" "\<not> estart n < eend c" using 3 by auto
      ultimately show ?thesis unfolding more fix_scan.simps Let_def lu_seq_range_is_sane_def using c 3 by (cases z) simp
    next
      case 4 
      obtain z1 where "fix_scan (n # rest) = Some z1" using keep 4 by auto
      moreover obtain z2 where "fix_scan (n\<lparr>fce_range := (fce_range n)\<lparr>lsr_start := estart c\<rparr>\<rparr> # rest) = Some z2"
        using merge [OF 4(2,1)] by blast
      ultimately show ?thesis unfolding more fix_scan.simps Let_def lu_seq_range_is_sane_def using 4 c by (cases z1; cases z2) simp
    qed
  qed (use less.prems in \<open>simp_all add: lu_seq_range_is_sane_def less_imp_le\<close>)
qed

lemma fld_dirtyI:
  assumes "estart c < eend c" "fld_sorted xs" "\<And>e. e \<in> set xs \<Longrightarrow> estart c \<le> estart e"
    and "\<And>e. e \<in> set xs \<Longrightarrow> eflags e = eflags c \<or> eend c \<le> estart e"
  shows "fld_dirty (c # xs)"
  using assms by simp

lemma fld_sorted_Cons_start:
  assumes "fld_sorted (n # rest)" "e \<in> set (n # rest)"
  shows "estart n \<le> estart e"
  using assms by (cases "e = n") (simp, meson fld_sorted.simps(2) less_imp_le order.trans set_ConsD)

lemma fix_scan_shape:
  "fix_scan xs = Some (r, ys, ds) \<Longrightarrow> fld_dirty xs \<Longrightarrow> if r then fld_dirty ys else fld_sorted ys"
proof (induction rule: fix_scan_induct)
  case (Keep c n rest r ys ds)
  have D: "fld_dirty (n # rest)" and lo: "\<forall>e \<in> set (n # rest). eend c \<le> estart e"
    using fld_dirty_Cons_sorted [OF Keep.prems] Keep.hyps by blast+
  have "estart c < eend c" using fld_dirty_sane [OF Keep.prems] by (simp only: list.set_intros)
  then show ?case
    using Keep.IH [OF D] fix_scan_lower [OF Keep.hyps(3) lo] by (cases r) simp_all
next
  case (Merge c n rest r ys ds)
  show ?case by (rule Merge.IH [OF fld_dirty_merge [OF Merge.prems Merge.hyps(4,2)]])
next
  case (Union c n rest)
  note o = fld_dirty_overlap [OF Union.prems Union.hyps(4)]
  have "fld_dirty (n\<lparr>fce_range := (fce_range n)\<lparr>lsr_start := estart c, lsr_end := max (eend c) (eend n)\<rparr>\<rparr> # rest)"
  proof (rule fld_dirtyI)
    show "eflags e = eflags (n\<lparr>fce_range := (fce_range n)\<lparr>lsr_start := estart c, lsr_end := max (eend c) (eend n)\<rparr>\<rparr>)
      \<or> eend (n\<lparr>fce_range := (fce_range n)\<lparr>lsr_start := estart c, lsr_end := max (eend c) (eend n)\<rparr>\<rparr>) \<le> estart e" if "e \<in> set rest" for e
      using o(1,3) Union.hyps(2) that by auto
  qed (use o in \<open>auto simp: less_max_iff_disj\<close>)
  then show ?case by (simp only: if_True)
next
  case (Cover c n rest)
  note o = fld_dirty_overlap [OF Cover.prems Cover.hyps(4)]
  have "fld_dirty (n\<lparr>fce_range := fce_range c\<rparr> # rest)"
    by (rule fld_dirtyI) (use o in auto)
  then show ?case by (simp only: if_True)
next
  case (Cut c n rest)
  note o = fld_dirty_overlap [OF Cut.prems Cut.hyps(4)]
  have "fld_dirty (c # n\<lparr>fce_range := (fce_range n)\<lparr>lsr_start := eend c\<rparr>\<rparr> # rest)"
    by (rule fld_dirtyI) (use o Cut.hyps in auto)
  then show ?case by (simp only: if_True)
next
  case (Dup c n rest r ys ds)
  have "estart c < eend c" using fld_dirty_sane [OF Dup.prems] by (simp only: list.set_intros)
  then show ?case using Dup.hyps(4) by simp
qed auto

lemma fix_scan_sorted: "fix_scan xs = Some (r, ys, ds) \<Longrightarrow> fld_sorted xs \<Longrightarrow> \<not> r"
  by (induction rule: fix_scan_induct) (auto intro: less_trans)

lemma fix_list_spec:
  "fld_dirty xs \<Longrightarrow> \<exists>ys ds. fix_list xs = Some (ys, ds) \<and> fld_sorted ys \<and> (\<forall>s. fld_abs ys s = fld_abs xs s) \<and>
     mset (map fce_node xs) = mset (map fce_node ys) + mset ds"
proof (induction xs rule: fix_list.induct)
  case (1 xs)
  obtain r ys ds where scan: "fix_scan xs = Some (r, ys, ds)" using fix_scan_runs [OF "1.prems"] by auto
  note shape = fix_scan_shape [OF scan "1.prems"]
  have abs: "\<forall>s. fld_abs ys s = fld_abs xs s"
    using fix_scan_abs [OF scan] fld_dirty_sane [OF "1.prems"] less_imp_le by blast
  note nodes = fix_scan_nodes [OF scan]
  show ?case
  proof (cases r)
    case False
    then have "fix_list xs = Some (ys, ds)" using scan by simp
    then show ?thesis using shape abs nodes False by auto
  next
    case True
    obtain zs ds' where zs: "fix_list ys = Some (zs, ds')" "fld_sorted zs" "\<forall>s. fld_abs zs s = fld_abs ys s"
      "mset (map fce_node ys) = mset (map fce_node zs) + mset ds'"
      using "1.IH" [OF scan refl refl True] shape True by (metis (full_types))
    have "fix_list xs = Some (zs, ds @ ds')" using scan True zs(1) by simp
    then show ?thesis using zs abs nodes by auto
  qed
qed

declare fix_list.simps [simp del]

section \<open>The invariant of the cache\<close>

text \<open>The two lists hold the same nodes, each once, and the counter counts them.\<close>

definition fld_nodes :: "fld_cache \<Rightarrow> bool" where
  "fld_nodes cache \<longleftrightarrow> distinct (map fce_node (fci_entries cache)) \<and>
     mset (fci_lru cache) = mset (map fce_node (fci_entries cache)) \<and>
     fci_cache_count cache = int (length (fci_entries cache))"

definition fld_cache_wf :: "fld_cache \<Rightarrow> bool" where
  "fld_cache_wf cache \<longleftrightarrow> fld_sorted (fci_entries cache) \<and> fld_nodes cache"

text \<open>The fields that only \<open>fld_cache_flush\<close> and the lookups write.\<close>

definition same_conf :: "fld_cache \<Rightarrow> fld_cache \<Rightarrow> bool" where
  "same_conf a b \<longleftrightarrow> fci_threshold a = fci_threshold b \<and> fci_cache_size a = fci_cache_size b \<and>
     fci_stat a = fci_stat b \<and> fci_no_shrink a = fci_no_shrink b"

lemma filter_lru:
  assumes "mset lru = mset xs + mset ds" "distinct lru"
  shows "mset (filter (\<lambda>p. p \<notin> set ds) lru) = mset xs"
proof -
  have d: "distinct (xs @ ds)" using assms mset_eq_imp_distinct_iff [of lru "xs @ ds"] by simp
  have "mset (filter (\<lambda>p. p \<notin> set ds) lru) = filter_mset (\<lambda>p. p \<notin> set ds) (mset (xs @ ds))"
    using assms(1) by simp
  also have "\<dots> = mset (filter (\<lambda>p. p \<notin> set ds) (xs @ ds))" by (simp only: mset_filter)
  also have "filter (\<lambda>p. p \<notin> set ds) (xs @ ds) = xs"
    using d by (auto simp: filter_id_conv)
  finally show ?thesis .
qed

text \<open>Whatever the list, a run of the loop that meets no assertion keeps the nodes and leaves sane ranges.\<close>

lemma fix_scan_sane: "fix_scan xs = Some (r, ys, ds) \<Longrightarrow> \<not> r \<Longrightarrow> \<forall>e \<in> set ys. estart e \<le> eend e"
  by (induction rule: fix_scan_induct) auto

lemma fix_list_nodes:
  "fix_list xs = Some (ys, ds) \<Longrightarrow>
   mset (map fce_node xs) = mset (map fce_node ys) + mset ds \<and> (\<forall>e \<in> set ys. estart e \<le> eend e)"
proof (induction xs arbitrary: ys ds rule: fix_list.induct)
  case (1 xs)
  obtain r zs es where scan: "fix_scan xs = Some (r, zs, es)"
    using "1.prems" by (auto simp: fix_list.simps [of xs] split: option.split_asm)
  show ?case
  proof (cases r)
    case False
    then have "ys = zs" "ds = es" using "1.prems" scan by (simp_all add: fix_list.simps [of xs])
    then show ?thesis using fix_scan_nodes [OF scan] fix_scan_sane [OF scan False] by blast
  next
    case True
    then obtain ds' where f: "fix_list zs = Some (ys, ds')" "ds = es @ ds'"
      using "1.prems" scan by (auto simp: fix_list.simps [of xs])
    then show ?thesis using "1.IH" [OF scan refl refl True f(1)] fix_scan_nodes [OF scan] by simp
  qed
qed

lemma fld_nodes_fix:
  assumes N: "fld_nodes cache" and ds: "mset (map fce_node (fci_entries cache)) = mset (map fce_node ys) + mset ds"
  shows "fld_nodes (cache\<lparr>fci_entries := ys, fci_lru := filter (\<lambda>p. p \<notin> set ds) (fci_lru cache),
                         fci_cache_count := fci_cache_count cache - int (length ds)\<rparr>)"
proof -
  have dist: "distinct (map fce_node (fci_entries cache))"
    and lru: "mset (fci_lru cache) = mset (map fce_node (fci_entries cache))"
    and n: "fci_cache_count cache = int (length (fci_entries cache))"
    using N unfolding fld_nodes_def by blast+
  have dl: "distinct (fci_lru cache)" using dist lru mset_eq_imp_distinct_iff by metis
  have "length (fci_entries cache) = length ys + length ds"
    using arg_cong [OF ds, of size] by simp
  moreover have "distinct (map fce_node ys)"
    using mset_eq_imp_distinct_iff [of "map fce_node (fci_entries cache)" "map fce_node ys @ ds"] ds dist by simp
  moreover have "mset (filter (\<lambda>p. p \<notin> set ds) (fci_lru cache)) = mset (map fce_node ys)"
    by (rule filter_lru) (use ds lru dl in simp_all)
  ultimately show ?thesis using n by (simp add: fld_nodes_def)
qed

lemma fld_fix_new_list_spec:
  assumes D: "fld_dirty (fci_entries cache)" and "fld_nodes cache"
  shows "\<exists>c. fld_fix_new_list cache = Some c \<and> fld_cache_wf c \<and> same_conf c cache \<and>
     fld_abs (fci_entries c) = fld_abs (fci_entries cache) \<and>
     set (fci_lru c) \<subseteq> set (fci_lru cache)"
proof -
  obtain ys ds where f: "fix_list (fci_entries cache) = Some (ys, ds)" "fld_sorted ys"
    "\<forall>s. fld_abs ys s = fld_abs (fci_entries cache) s"
    "mset (map fce_node (fci_entries cache)) = mset (map fce_node ys) + mset ds"
    using fix_list_spec [OF D] by blast
  show ?thesis
    using f fld_nodes_fix [OF assms(2) f(4)] by (auto simp: fld_fix_new_list_def fld_cache_wf_def same_conf_def)
qed

text \<open>What every cache keeps: the nodes, and ranges that are sane.\<close>

definition fld_ok :: "fld_cache \<Rightarrow> bool" where
  "fld_ok cache \<longleftrightarrow> fld_nodes cache \<and> (\<forall>e \<in> set (fci_entries cache). estart e \<le> eend e)"

lemma fld_fix_new_list_ok:
  assumes "fld_nodes cache" "fld_fix_new_list cache = Some c"
  shows "fld_ok c" "set (fci_lru c) \<subseteq> set (fci_lru cache)"
proof -
  obtain ys ds where f: "fix_list (fci_entries cache) = Some (ys, ds)"
    using assms(2) by (auto simp: fld_fix_new_list_def split: option.split_asm)
  note n = fix_list_nodes [OF f]
  show "fld_ok c" "set (fci_lru c) \<subseteq> set (fci_lru cache)"
    using assms(2) f n fld_nodes_fix [OF assms(1), of ys ds] by (auto simp: fld_fix_new_list_def fld_ok_def)
qed

lemma fld_nodes_lru: "fld_nodes cache \<Longrightarrow> set (fci_lru cache) = fce_node ` set (fci_entries cache)"
  unfolding fld_nodes_def by (metis list.set_map set_mset_mset)

section \<open>Adding an entry\<close>

text \<open>The position after the entries \<open>pre\<close>.\<close>

definition after :: "fld_cache_entry list \<Rightarrow> nat option" where
  "after pre = (if pre = [] then None else Some (fce_node (last pre)))"

lemma list_add_split:
  "distinct (map fce_node (pre @ post)) \<Longrightarrow> list_add x (after pre) (pre @ post) = Some (pre @ x # post)"
proof (induction pre)
  case (Cons y ys)
  then show ?case by (cases ys) (auto simp: after_def)
qed (simp add: after_def)

lemma list_prev_split:
  "fce_node c \<notin> fce_node ` set pre \<Longrightarrow> list_prev (fce_node c) prev (pre @ c # post) = (if pre = [] then prev else after pre)"
  by (induction pre arbitrary: prev) (auto simp: after_def)

lemma fld_nodes_set_range: "fld_nodes (set_range p f cache) = fld_nodes cache" "fci_lru (set_range p f cache) = fci_lru cache"
proof -
  have m: "fce_node \<circ> (\<lambda>y. if fce_node y = p then y\<lparr>fce_range := f (fce_range y)\<rparr> else y) = fce_node"
    by (auto simp: fun_eq_iff)
  show "fld_nodes (set_range p f cache) = fld_nodes cache" by (simp add: fld_nodes_def set_range_def m)
qed (simp add: set_range_def)

lemma set_range_split:
  assumes "fci_entries cache = pre @ c # post" "fld_nodes cache"
  shows "fci_entries (set_range (fce_node c) f cache) = pre @ c\<lparr>fce_range := f (fce_range c)\<rparr> # post"
    and "fld_nodes (set_range (fce_node c) f cache)"
proof -
  have c: "fce_node c \<notin> fce_node ` set pre" "fce_node c \<notin> fce_node ` set post"
    using assms unfolding fld_nodes_def by auto
  have i: "p \<notin> fce_node ` set xs \<Longrightarrow> map (\<lambda>y. if fce_node y = p then y\<lparr>fce_range := f (fce_range y)\<rparr> else y) xs = xs" for p xs
    by (induction xs) auto
  show "fci_entries (set_range (fce_node c) f cache) = pre @ c\<lparr>fce_range := f (fce_range c)\<rparr> # post"
    using assms(1) i [OF c(1)] i [OF c(2)] by (simp add: set_range_def)
  show "fld_nodes (set_range (fce_node c) f cache)"
    using assms(2) by (simp add: fld_nodes_set_range)
qed

lemma fld_cache_entry_add_spec:
  assumes e: "fci_entries cache = pre @ post" and N: "fld_nodes cache" and fresh: "fce_node f_new \<notin> set (fci_lru cache)"
    and D: "fld_dirty (pre @ f_new # post)"
  shows "\<exists>c. fld_cache_entry_add cache f_new (after pre) = Some c \<and> fld_cache_wf c \<and> same_conf c cache \<and>
     fld_abs (fci_entries c) = fld_abs (pre @ f_new # post) \<and> set (fci_lru c) \<subseteq> insert (fce_node f_new) (set (fci_lru cache))"
proof -
  let ?c = "cache\<lparr>fci_entries := pre @ f_new # post, fci_lru := fce_node f_new # fci_lru cache,
                  fci_cache_count := fci_cache_count cache + 1\<rparr>"
  have "fld_nodes ?c" using N fresh fld_nodes_lru [OF N] e by (auto simp: fld_nodes_def)
  moreover have "list_add f_new (after pre) (fci_entries cache) = Some (pre @ f_new # post)"
    using N unfolding e fld_nodes_def by (intro list_add_split) blast
  ultimately show ?thesis
    using fld_fix_new_list_spec [of ?c] D by (auto simp: fld_cache_entry_add_def same_conf_def)
qed

lemma list_add_mset: "list_add x pos xs = Some ys \<Longrightarrow> mset ys = add_mset x (mset xs)"
  by (induction x pos xs arbitrary: ys rule: list_add.induct) (auto split: if_split_asm)

lemma fld_nodes_add:
  assumes "fld_nodes cache" "fce_node f_new \<notin> set (fci_lru cache)" "mset ys = add_mset f_new (mset (fci_entries cache))"
  shows "fld_nodes (cache\<lparr>fci_entries := ys, fci_lru := fce_node f_new # fci_lru cache,
                         fci_cache_count := fci_cache_count cache + 1\<rparr>)"
proof -
  have n: "mset (map fce_node ys) = mset (map fce_node (f_new # fci_entries cache))"
    using arg_cong [OF assms(3), of "image_mset fce_node"] by simp
  moreover have "distinct (map fce_node (f_new # fci_entries cache))"
    using assms(1,2) fld_nodes_lru [OF assms(1)] by (simp add: fld_nodes_def)
  ultimately have "distinct (map fce_node ys)" using mset_eq_imp_distinct_iff by blast
  moreover have "length ys = length (fci_entries cache) + 1" using arg_cong [OF assms(3), of size] by simp
  ultimately show ?thesis using assms(1) n by (simp add: fld_nodes_def)
qed

lemma fld_cache_entry_add_ok:
  assumes "fld_nodes cache" "fce_node f_new \<notin> set (fci_lru cache)" "fld_cache_entry_add cache f_new pos = Some c"
  shows "fld_ok c" "set (fci_lru c) \<subseteq> insert (fce_node f_new) (set (fci_lru cache))"
proof -
  obtain ys where ys: "list_add f_new pos (fci_entries cache) = Some ys"
    "fld_fix_new_list (cache\<lparr>fci_entries := ys, fci_lru := fce_node f_new # fci_lru cache,
                             fci_cache_count := fci_cache_count cache + 1\<rparr>) = Some c"
    using assms(3) by (auto simp: fld_cache_entry_add_def bind_eq_Some_conv)
  note f = fld_fix_new_list_ok [OF fld_nodes_add [OF assms(1,2) list_add_mset [OF ys(1)]] ys(2)]
  show "fld_ok c" "set (fci_lru c) \<subseteq> insert (fce_node f_new) (set (fci_lru cache))" using f by auto
qed

lemma fld_cache_overlap_ok:
  assumes ok: "fld_ok cache" and new: "fce_node f_new \<notin> set (fci_lru cache)"
    and t: "\<forall>q. t = Some q \<longrightarrow> q \<noteq> fce_node f_new \<and> q \<notin> set (fci_lru cache)"
    and h: "fld_cache_overlap_handle cache c f_new t = Some c'"
  shows "fld_ok c'"
proof -
  have N: "fld_nodes (set_range p f cache)" for p f using ok fld_nodes_set_range unfolding fld_ok_def by blast
  have new': "fce_node f_new \<notin> set (fci_lru (set_range p f cache))" for p f using new fld_nodes_set_range by metis
  note add = fld_cache_entry_add_ok [OF N new'] and fix_ok = fld_fix_new_list_ok(1) [OF N]
  have punch: "fld_ok c'" if p: "fld_cache_punch_hole cache c f_new t = Some c'"
  proof (cases t)
    case None
    then show ?thesis using p ok by (simp add: fld_cache_punch_hole_def)
  next
    case (Some q)
    obtain c1 tail where c1: "fld_cache_entry_add (set_range (fce_node c) (\<lambda>r. r\<lparr>lsr_end := estart f_new\<rparr>) cache) f_new
        (Some (fce_node c)) = Some c1"
      "fld_cache_entry_add c1 tail (Some (fce_node f_new)) = Some c'" "fce_node tail = q"
      using p Some by (auto simp: fld_cache_punch_hole_def Let_def bind_eq_Some_conv)
    have "q \<notin> set (fci_lru c1)" using add(2) [OF c1(1)] t Some fld_nodes_set_range(2) by auto
    moreover have "fld_nodes c1" using add(1) [OF c1(1)] by (simp add: fld_ok_def)
    ultimately show ?thesis using fld_cache_entry_add_ok(1) [OF _ _ c1(2)] c1(3) by blast
  qed
  show ?thesis
    using h ok by (auto simp: fld_cache_overlap_handle_def Let_def split: if_split_asm intro: fix_ok add(1) punch)
qed

section \<open>Insertion refines the update of a map\<close>

definition fld_update :: "lu_seq_range \<Rightarrow> (u64 \<Rightarrow> (u32 \<times> u32) option) \<Rightarrow> u64 \<Rightarrow> (u32 \<times> u32) option" where
  "fld_update r m s = (if lu_seq_range_within r s then Some (lsr_index r, lsr_flags r) else m s)"

text \<open>The ranges of one type are disjoint from those of the other.\<close>

definition types_apart :: "lu_seq_range \<Rightarrow> fld_cache_entry list \<Rightarrow> bool" where
  "types_apart r xs \<longleftrightarrow> (\<forall>e \<in> set xs. eflags e = lsr_flags r \<or> eend e \<le> lsr_start r \<or> lsr_end r \<le> estart e)"

lemma types_apart_Cons [simp]:
  "types_apart r (c # xs) \<longleftrightarrow> (eflags c = lsr_flags r \<or> eend c \<le> lsr_start r \<or> lsr_end r \<le> estart c) \<and> types_apart r xs"
  by (simp add: types_apart_def)

text \<open>An entry that the search of an insertion passes is left of the new range.\<close>

lemma passed_left:
  assumes "\<not> (lsr_end r < estart c \<or> lsr_end r = estart c \<and> lsr_flags r \<noteq> eflags c)"
    and "\<not> (lsr_start r < eend c \<and> lsr_flags r = eflags c)" "types_apart r (c # xs)"
  shows "eend c \<le> lsr_start r"
proof (cases "eflags c = lsr_flags r")
  case True
  then show ?thesis using assms(2) by simp
next
  case False
  then have "\<not> lsr_end r \<le> estart c" using assms(1) by (simp add: order_le_less)
  then show ?thesis using assms(3) False by simp
qed

lemma insert_scan_Inl:
  assumes "insert_scan r prev xs = Inl p" "fld_sorted xs" "types_apart r xs"
  shows "\<exists>pre post. xs = pre @ post \<and> p = (if pre = [] then prev else after pre) \<and>
     (\<forall>e \<in> set pre. eend e \<le> lsr_start r) \<and> (\<forall>e \<in> set post. lsr_end r \<le> estart e)"
  using assms
proof (induction xs arbitrary: prev)
  case (Cons c xs)
  show ?case
  proof (cases "lsr_end r < estart c \<or> lsr_end r = estart c \<and> lsr_flags r \<noteq> eflags c")
    case True
    then have "lsr_end r \<le> estart c" by auto
    then have "\<forall>e \<in> set (c # xs). lsr_end r \<le> estart e"
      using fld_sorted_Cons_start [OF Cons.prems(2)] order.trans by blast
    moreover have "p = prev" using True Cons.prems(1) by (auto simp: Let_def)
    ultimately show ?thesis by (intro exI [of _ "[]"] exI [of _ "c # xs"]) simp
  next
    case False
    then have n: "\<not> (lsr_start r < eend c \<and> lsr_flags r = eflags c)" and i: "insert_scan r (Some (fce_node c)) xs = Inl p"
      using Cons.prems(1) by (auto simp: Let_def split: if_split_asm)
    have ce: "eend c \<le> lsr_start r"
      by (rule passed_left [OF False n Cons.prems(3)])
    obtain pre post where "xs = pre @ post" "p = (if pre = [] then Some (fce_node c) else after pre)"
      "\<forall>e \<in> set pre. eend e \<le> lsr_start r" "\<forall>e \<in> set post. lsr_end r \<le> estart e"
      using Cons.IH [OF i] Cons.prems(2,3) unfolding types_apart_Cons fld_sorted.simps by blast
    then show ?thesis using ce by (intro exI [of _ "c # pre"] exI [of _ post]) (auto simp: after_def)
  qed
qed simp

lemma insert_scan_Inr:
  assumes "insert_scan r prev xs = Inr c" "types_apart r xs"
  shows "\<exists>pre post. xs = pre @ c # post \<and> (\<forall>e \<in> set pre. eend e \<le> lsr_start r) \<and>
     eflags c = lsr_flags r \<and> lsr_start r < eend c \<and> estart c \<le> lsr_end r"
  using assms
proof (induction xs arbitrary: prev)
  case (Cons d xs)
  show ?case
  proof (cases "lsr_start r < eend d \<and> lsr_flags r = eflags d")
    case True
    then have "c = d" "\<not> lsr_end r < estart d" using Cons.prems(1) by (auto simp: Let_def split: if_split_asm)
    then show ?thesis using True by (intro exI [of _ "[]"] exI [of _ xs]) auto
  next
    case False
    then have i: "insert_scan r (Some (fce_node d)) xs = Inr c" and
      n: "\<not> (lsr_end r < estart d \<or> lsr_end r = estart d \<and> lsr_flags r \<noteq> eflags d)"
      using Cons.prems(1) by (auto simp: Let_def split: if_split_asm)
    have de: "eend d \<le> lsr_start r" by (rule passed_left [OF n False Cons.prems(2)])
    obtain pre post where "xs = pre @ c # post" "\<forall>e \<in> set pre. eend e \<le> lsr_start r"
      "eflags c = lsr_flags r" "lsr_start r < eend c" "estart c \<le> lsr_end r"
      using Cons.IH [OF i] Cons.prems(2) unfolding types_apart_Cons by blast
    then show ?thesis using de by (intro exI [of _ "d # pre"] exI [of _ post]) auto
  qed
qed simp

text \<open>The entries after the overlapped one.\<close>

lemma types_apart_post:
  assumes "types_apart r (pre @ c # post)" "fld_sorted (pre @ c # post)" "lsr_start r < eend c" "e \<in> set post"
  shows "eend c \<le> estart e" "eflags e = lsr_flags r \<or> lsr_end r \<le> estart e"
proof -
  show ce: "eend c \<le> estart e" using assms by (auto simp: fld_sorted_append)
  have "estart e < eend e" using fld_sorted_nonempty [OF assms(2)] assms(4) by simp
  then have "\<not> eend e \<le> lsr_start r" using ce assms(3) by auto
  then show "eflags e = lsr_flags r \<or> lsr_end r \<le> estart e" using assms(1,4) by (auto simp: types_apart_def)
qed

lemma fld_abs_update:
  assumes pre: "\<forall>e \<in> set pre. eend e \<le> lsr_start r" and eq: "\<And>s. fld_abs ys s = fld_update r (fld_abs xs) s"
  shows "fld_abs (pre @ ys) = fld_update r (fld_abs (pre @ xs))"
proof
  fix s
  show "fld_abs (pre @ ys) s = fld_update r (fld_abs (pre @ xs)) s"
  proof (cases "lu_seq_range_within r s")
    case True
    then have "fld_abs pre s = None"
      using pre by (intro fld_abs_above) (auto simp: lu_seq_range_within_def intro: order.trans)
    then show ?thesis using True eq by (simp add: fld_abs_append fld_update_def)
  next
    case False
    then show ?thesis using eq [of s] by (simp add: fld_abs_append fld_update_def split: option.split)
  qed
qed

text \<open>The cut of one entry by the branches of \<open>fld_cache_overlap_handle\<close>.\<close>

lemma fld_abs_union:
  assumes "lsr_start r < eend c" "estart c \<le> lsr_end r" "eflags c = lsr_flags r" "eindex c = lsr_index r"
  shows "fld_abs (c\<lparr>fce_range := (fce_range c)\<lparr>lsr_start := min (estart c) (lsr_start r), lsr_end := max (eend c) (lsr_end r)\<rparr>\<rparr> # post) s =
         fld_update r (fld_abs (c # post)) s"
  using assms by (auto simp: fld_update_def lu_seq_range_within_def min_def max_def)

lemma fld_abs_replace:
  assumes "lsr_start r \<le> estart c" "eend c \<le> lsr_end r"
  shows "fld_abs (c\<lparr>fce_range := r\<rparr> # post) s = fld_update r (fld_abs (c # post)) s"
  using assms by (auto simp: fld_update_def lu_seq_range_within_def)

lemma fld_abs_cut_left:
  assumes "lsr_start r \<le> estart c" "lsr_end r \<le> eend c" "fce_range f = r" "estart c \<le> lsr_end r"
  shows "fld_abs (f # c\<lparr>fce_range := (fce_range c)\<lparr>lsr_start := lsr_end r\<rparr>\<rparr> # post) s = fld_update r (fld_abs (c # post)) s"
  using assms by (auto simp: fld_update_def lu_seq_range_within_def)

lemma fld_abs_cut_right:
  assumes "estart c \<le> lsr_start r" "eend c \<le> lsr_end r" "fce_range f = r" "lsr_start r < eend c"
  shows "fld_abs (c\<lparr>fce_range := (fce_range c)\<lparr>lsr_end := lsr_start r\<rparr>\<rparr> # f # post) s = fld_update r (fld_abs (c # post)) s"
  using assms by (auto simp: fld_update_def lu_seq_range_within_def)

lemma fld_abs_punch:
  assumes "estart c < lsr_start r" "lsr_start r < lsr_end r" "lsr_end r < eend c" "fce_range f = r"
    and "fce_range t = (fce_range c)\<lparr>lsr_start := lsr_end r\<rparr>"
  shows "fld_abs (c\<lparr>fce_range := (fce_range c)\<lparr>lsr_end := lsr_start r\<rparr>\<rparr> # f # t # post) s = fld_update r (fld_abs (c # post)) s"
  using assms by (auto simp: fld_update_def lu_seq_range_within_def)


text \<open>The state in which the search of an insertion meets an overlapped entry, and what an insertion promises.\<close>

definition overlapped :: "fld_cache \<Rightarrow> lu_seq_range \<Rightarrow> fld_cache_entry list \<Rightarrow> fld_cache_entry \<Rightarrow> fld_cache_entry list \<Rightarrow> bool" where
  "overlapped cache r pre c post \<longleftrightarrow> fci_entries cache = pre @ c # post \<and> fld_cache_wf cache \<and>
     types_apart r (pre @ c # post) \<and> (\<forall>e \<in> set pre. eend e \<le> lsr_start r) \<and> eflags c = lsr_flags r \<and>
     lsr_start r < eend c \<and> estart c \<le> lsr_end r \<and> lsr_start r < lsr_end r"

definition inserted :: "lu_seq_range \<Rightarrow> nat set \<Rightarrow> fld_cache \<Rightarrow> fld_cache \<Rightarrow> bool" where
  "inserted r ps cache c' \<longleftrightarrow> fld_cache_wf c' \<and> same_conf c' cache \<and>
     fld_abs (fci_entries c') = fld_update r (fld_abs (fci_entries cache)) \<and> set (fci_lru c') \<subseteq> ps \<union> set (fci_lru cache)"

lemma overlapped_facts:
  assumes "overlapped cache r pre c post"
  shows "fci_entries cache = pre @ c # post" "fld_nodes cache" "\<forall>e \<in> set pre. eend e \<le> lsr_start r"
    "eflags c = lsr_flags r" "lsr_start r < eend c" "estart c \<le> lsr_end r" "lsr_start r < lsr_end r"
    "estart c < eend c" "fld_sorted pre" "fld_sorted post" "\<forall>e \<in> set pre. eend e \<le> estart c"
    "\<forall>e \<in> set post. eend c \<le> estart e" "\<forall>e \<in> set post. eflags e = lsr_flags r \<or> lsr_end r \<le> estart e"
    "\<forall>x \<in> set pre. \<forall>e \<in> set post. eend x \<le> estart e"
proof -
  show e: "fci_entries cache = pre @ c # post" and "fld_nodes cache" "\<forall>e \<in> set pre. eend e \<le> lsr_start r"
    "eflags c = lsr_flags r" "lsr_start r < eend c" "estart c \<le> lsr_end r" "lsr_start r < lsr_end r"
    using assms unfolding overlapped_def fld_cache_wf_def by blast+
  have s: "fld_sorted (pre @ c # post)" using assms unfolding overlapped_def fld_cache_wf_def by metis
  then show "estart c < eend c" "fld_sorted pre" "fld_sorted post" "\<forall>e \<in> set pre. eend e \<le> estart c"
    "\<forall>e \<in> set post. eend c \<le> estart e" "\<forall>x \<in> set pre. \<forall>e \<in> set post. eend x \<le> estart e"
    by (simp_all add: fld_sorted_append)
  show "\<forall>e \<in> set post. eflags e = lsr_flags r \<or> lsr_end r \<le> estart e"
    using types_apart_post(2) [OF _ s] assms unfolding overlapped_def by blast
qed

lemma overlap_fix:
  assumes O: "overlapped cache r pre c post"
    and c': "f (fce_range c) = cr" "lsr_flags cr = lsr_flags r" "lsr_start cr = min (estart c) (lsr_start r)"
      "lsr_end cr = max (eend c) (lsr_end r)"
    and eq: "\<And>s. fld_abs (c\<lparr>fce_range := cr\<rparr> # post) s = fld_update r (fld_abs (c # post)) s"
  shows "\<exists>c'. fld_fix_new_list (set_range (fce_node c) f cache) = Some c' \<and> inserted r ps cache c'"
proof -
  note o = overlapped_facts [OF O]
  note sr = set_range_split [OF o(1,2), of f, unfolded c'(1)]
  have "fld_dirty (c\<lparr>fce_range := cr\<rparr> # post)"
  proof (rule fld_dirtyI)
    show "estart (c\<lparr>fce_range := cr\<rparr>) \<le> estart e" if "e \<in> set post" for e
      using o(8,12) that c'(3) by (simp add: min_le_iff_disj) (meson less_imp_le order.trans)
    show "eflags e = eflags (c\<lparr>fce_range := cr\<rparr>) \<or> eend (c\<lparr>fce_range := cr\<rparr>) \<le> estart e" if "e \<in> set post" for e
      using o(12,13) that c'(2,4) by simp
  qed (use o(8,10) c'(3,4) in \<open>simp_all add: min_less_iff_disj less_max_iff_disj\<close>)
  moreover have "eend x \<le> estart y" if "x \<in> set pre" "y \<in> set (c\<lparr>fce_range := cr\<rparr> # post)" for x y
    using o(3,11,14) that c'(3) by auto
  ultimately have "fld_dirty (fci_entries (set_range (fce_node c) f cache))"
    unfolding sr(1) by (intro fld_dirty_append) (use o(9) in blast)+
  from fld_fix_new_list_spec [OF this sr(2)] show ?thesis
    using fld_abs_update [OF o(3) eq] o(1) unfolding inserted_def sr(1) same_conf_def
    by (auto simp: set_range_def)
qed

lemma set_range_conf [simp]: "same_conf c (set_range p f cache) = same_conf c cache" "fci_lru (set_range p f cache) = fci_lru cache"
  by (simp_all add: set_range_def same_conf_def)

lemma overlap_left:
  assumes O: "overlapped cache r pre c post" and new: "fce_range f_new = r" "fce_node f_new \<notin> set (fci_lru cache)"
    and le: "lsr_start r \<le> estart c" "lsr_end r < eend c"
  shows "\<exists>c'. fld_cache_entry_add (set_range (fce_node c) (\<lambda>r'. r'\<lparr>lsr_start := lsr_end r\<rparr>) cache) f_new
            (list_prev (fce_node c) None (fci_entries cache)) = Some c' \<and> inserted r (insert (fce_node f_new) ps) cache c'"
proof -
  note o = overlapped_facts [OF O]
  let ?f = "\<lambda>r'. r'\<lparr>lsr_start := lsr_end r\<rparr>" and ?c = "c\<lparr>fce_range := (fce_range c)\<lparr>lsr_start := lsr_end r\<rparr>\<rparr>"
  note sr = set_range_split [OF o(1,2), of ?f]
  have "\<forall>e \<in> set post. lsr_end r \<le> estart e" using o(12) le(2) by (meson less_imp_le order.trans)
  moreover have "\<forall>e \<in> set pre. eend e \<le> lsr_end r" using o(3,7) by (meson less_imp_le order.trans)
  ultimately have D: "fld_sorted (pre @ f_new # ?c # post)"
    using o le new(1) by (simp add: fld_sorted_append)
  have prev: "list_prev (fce_node c) None (fci_entries cache) = after pre"
    using list_prev_split [of c pre] o(1,2) by (auto simp: fld_nodes_def after_def)
  show ?thesis
    using fld_cache_entry_add_spec [OF sr _ fld_sorted_dirty [OF D]] new(2)
      fld_abs_update [OF o(3) fld_abs_cut_left [OF le(1) less_imp_le [OF le(2)] new(1) o(6)]]
    unfolding prev unfolding inserted_def o(1) by auto
qed

lemma overlap_right:
  assumes O: "overlapped cache r pre c post" and new: "fce_range f_new = r" "fce_node f_new \<notin> set (fci_lru cache)"
    and le: "estart c < lsr_start r" "eend c \<le> lsr_end r"
  shows "\<exists>c'. fld_cache_entry_add (set_range (fce_node c) (\<lambda>r'. r'\<lparr>lsr_end := lsr_start r\<rparr>) cache) f_new
            (Some (fce_node c)) = Some c' \<and> inserted r (insert (fce_node f_new) ps) cache c'"
proof -
  note o = overlapped_facts [OF O]
  let ?f = "\<lambda>r'. r'\<lparr>lsr_end := lsr_start r\<rparr>" and ?c = "c\<lparr>fce_range := (fce_range c)\<lparr>lsr_end := lsr_start r\<rparr>\<rparr>"
  note sr = set_range_split [OF o(1,2), of ?f]
  have post: "\<forall>e \<in> set post. lsr_start r \<le> estart e" using o(5,12) by (meson less_imp_le order.trans)
  have "fld_dirty (f_new # post)"
    by (rule fld_dirtyI) (use o new(1) post in auto)
  then have D: "fld_dirty ((pre @ [?c]) @ f_new # post)"
    by (intro fld_dirty_append) (use o le new(1) post in \<open>auto simp: fld_sorted_append\<close>)
  have aft: "Some (fce_node c) = after (pre @ [?c])" by (simp add: after_def)
  have e: "fci_entries (set_range (fce_node c) ?f cache) = (pre @ [?c]) @ post" using sr(1) by simp
  show ?thesis
    using fld_cache_entry_add_spec [OF e sr(2) _ D] new(2)
      fld_abs_update [OF o(3) fld_abs_cut_right [OF less_imp_le [OF le(1)] le(2) new(1) o(5)]]
    unfolding aft inserted_def o(1) by auto
qed

text \<open>A pass over a sorted list keeps an entry that has no neighbour of its own target.\<close>

lemma fix_scan_keeps:
  "fix_scan xs = Some (r, ys, ds) \<Longrightarrow> fld_sorted xs \<Longrightarrow> e \<in> set xs \<Longrightarrow>
   (\<And>x. x \<in> set xs \<Longrightarrow> x \<noteq> e \<Longrightarrow> eindex x = eindex e \<Longrightarrow> eend x \<noteq> estart e \<and> eend e \<noteq> estart x) \<Longrightarrow> e \<in> set ys"
proof (induction rule: fix_scan_induct)
  case (Merge c n rest r ys ds)
  have lt: "estart c < eend c" using Merge.prems(1) by simp
  have "c \<noteq> n" using lt Merge.hyps(4) by auto
  then have ne: "e \<noteq> c" "e \<noteq> n" using Merge.prems(3) [of n] Merge.prems(3) [of c] Merge.hyps by auto
  show ?case
  proof (rule Merge.IH)
    show "fld_sorted (n\<lparr>fce_range := (fce_range n)\<lparr>lsr_start := estart c\<rparr>\<rparr> # rest)"
      using Merge.prems(1) Merge.hyps(4) by (auto intro: order.strict_trans)
    show "e \<in> set (n\<lparr>fce_range := (fce_range n)\<lparr>lsr_start := estart c\<rparr>\<rparr> # rest)" using Merge.prems(2) ne by simp
    show "eend x \<noteq> estart e \<and> eend e \<noteq> estart x"
      if "x \<in> set (n\<lparr>fce_range := (fce_range n)\<lparr>lsr_start := estart c\<rparr>\<rparr> # rest)" "x \<noteq> e" "eindex x = eindex e" for x
      using that Merge.prems(3) [of n] Merge.prems(3) [of c] Merge.prems(3) [of x] ne Merge.hyps(5) by auto
  qed
next
  case (Keep c n rest r ys ds)
  then show ?case by auto
next
  case (Dup c n rest r ys ds)
  then show ?case by auto
qed auto

lemma fix_list_sorted:
  assumes "fld_sorted xs"
  shows "\<exists>ys ds. fix_scan xs = Some (False, ys, ds) \<and> fix_list xs = Some (ys, ds)"
proof -
  obtain r ys ds where scan: "fix_scan xs = Some (r, ys, ds)"
    using fix_scan_runs [OF fld_sorted_dirty [OF assms]] by auto
  then have "\<not> r" using fix_scan_sorted assms by blast
  then show ?thesis using scan by (simp add: fix_list.simps)
qed

lemma fld_abs_insert:
  assumes "\<forall>e \<in> set xs. eend e \<le> estart t"
  shows "fld_abs (xs @ t # ys) s = fld_update (fce_range t) (fld_abs (xs @ ys)) s"
proof (cases "lu_seq_range_within (fce_range t) s")
  case True
  then have "fld_abs xs s = None"
    using assms by (intro fld_abs_above) (auto simp: lu_seq_range_within_def intro: order.trans)
  then show ?thesis using True by (simp add: fld_abs_append fld_update_def)
qed (simp add: fld_abs_append fld_update_def split: option.split)

lemma entry_add_keeps:
  assumes e: "fci_entries cache = pre @ post" and N: "fld_nodes cache" and D: "fld_sorted (pre @ f_new # post)"
    and add: "fld_cache_entry_add cache f_new (after pre) = Some c1"
    and nb: "\<And>x. x \<in> set (pre @ post) \<Longrightarrow> eindex x = eindex f_new \<Longrightarrow> eend x \<noteq> estart f_new \<and> eend f_new \<noteq> estart x"
  shows "f_new \<in> set (fci_entries c1)"
proof -
  have la: "list_add f_new (after pre) (fci_entries cache) = Some (pre @ f_new # post)"
    using N unfolding e fld_nodes_def by (intro list_add_split) blast
  obtain ys ds where f: "fix_scan (pre @ f_new # post) = Some (False, ys, ds)" "fix_list (pre @ f_new # post) = Some (ys, ds)"
    using fix_list_sorted [OF D] by blast
  have "f_new \<in> set ys" by (rule fix_scan_keeps [OF f(1) D]) (use nb in auto)
  moreover have "fci_entries c1 = ys"
    using add la f(2) by (auto simp: fld_cache_entry_add_def fld_fix_new_list_def)
  ultimately show ?thesis by simp
qed

text \<open>The gap that the split leaves after the new entry.\<close>

lemma fld_sorted_gap:
  assumes S: "fld_sorted (A @ f # B)" and none: "\<And>s. eend f \<le> s \<Longrightarrow> s < ce \<Longrightarrow> fld_abs (A @ f # B) s = None" and h: "h \<in> set B"
  shows "ce \<le> estart h"
proof (rule ccontr)
  assume "\<not> ce \<le> estart h"
  moreover have "eend f \<le> estart h" "estart h < eend h"
    using S h fld_sorted_nonempty [OF S, of h] by (auto simp: fld_sorted_append)
  ultimately have "fld_abs (A @ f # B) (estart h) = None" "lu_seq_range_within (fce_range h) (estart h)"
    using none by (auto simp: lu_seq_range_within_def)
  then show False using h by (auto simp: fld_abs_None)
qed

lemma punch_first:
  assumes O: "overlapped cache r pre c post" and new: "fce_range f_new = r" "fce_node f_new \<notin> set (fci_lru cache)"
    and le: "estart c < lsr_start r" "lsr_end r < eend c" and ix: "eindex c \<noteq> lsr_index r"
    and c'_def: "c' = c\<lparr>fce_range := (fce_range c)\<lparr>lsr_end := lsr_start r\<rparr>\<rparr>"
  shows "\<exists>c1 A B. fld_cache_entry_add (set_range (fce_node c) (\<lambda>r'. r'\<lparr>lsr_end := lsr_start r\<rparr>) cache) f_new (Some (fce_node c)) = Some c1 \<and>
    fld_cache_wf c1 \<and> same_conf c1 cache \<and> fld_abs (fci_entries c1) = fld_abs ((pre @ [c', f_new]) @ post) \<and>
    set (fci_lru c1) \<subseteq> insert (fce_node f_new) (set (fci_lru cache)) \<and>
    fci_entries c1 = A @ f_new # B \<and> (\<forall>h \<in> set B. eend c \<le> estart h) \<and> (\<forall>e \<in> set (pre @ [c', f_new]). eend e \<le> lsr_end r)"
proof -
  note o = overlapped_facts [OF O]
  let ?f = "\<lambda>r'. r'\<lparr>lsr_end := lsr_start r\<rparr>"
  note sr = set_range_split [OF o(1,2), of ?f, folded c'_def]
  have e: "fci_entries (set_range (fce_node c) ?f cache) = (pre @ [c']) @ post" using sr(1) by simp
  have aft: "Some (fce_node c) = after (pre @ [c'])" by (simp add: after_def c'_def)
  have post: "\<forall>e \<in> set post. lsr_end r < estart e \<and> lsr_start r < estart e" using o(7,12) le by (meson less_trans less_le_trans)
  have pre: "\<forall>e \<in> set pre. eend e < lsr_start r" using o(11) le(1) by (meson le_less_trans)
  have S: "fld_sorted ((pre @ [c']) @ f_new # post)"
    using o le new(1) post pre by (auto simp: fld_sorted_append less_imp_le c'_def)
  obtain c1 where c1: "fld_cache_entry_add (set_range (fce_node c) ?f cache) f_new (after (pre @ [c'])) = Some c1"
    "fld_cache_wf c1" "same_conf c1 cache" "fld_abs (fci_entries c1) = fld_abs ((pre @ [c']) @ f_new # post)"
    "set (fci_lru c1) \<subseteq> insert (fce_node f_new) (set (fci_lru cache))"
    using fld_cache_entry_add_spec [OF e sr(2) _ fld_sorted_dirty [OF S]] new(2) by auto
  have "f_new \<in> set (fci_entries c1)"
  proof (rule entry_add_keeps [OF e sr(2) S c1(1)])
    fix x assume x: "x \<in> set ((pre @ [c']) @ post)" "eindex x = eindex f_new"
    then have "x \<in> set pre \<or> x \<in> set post" using ix new(1) by (auto simp: c'_def)
    moreover have "estart x < eend x" using fld_sorted_nonempty [OF S, of x] x by auto
    ultimately show "eend x \<noteq> estart f_new \<and> eend f_new \<noteq> estart x"
      using pre post o(7) new(1) by auto
  qed
  then obtain A B where AB: "fci_entries c1 = A @ f_new # B" by (meson split_list)
  have "eend c \<le> estart h" if "h \<in> set B" for h
  proof (rule fld_sorted_gap [OF _ _ that])
    show "fld_sorted (A @ f_new # B)" using c1(2) unfolding fld_cache_wf_def AB by blast
    fix s assume s: "eend f_new \<le> s" "s < eend c"
    have "fld_abs ((pre @ [c']) @ f_new # post) s = None"
      unfolding fld_abs_None lu_seq_range_within_def c'_def using s new(1) pre post o(7,12) by fastforce
    then show "fld_abs (A @ f_new # B) s = None" using c1(4) AB by simp
  qed
  moreover have "\<forall>e \<in> set (pre @ [c', f_new]). eend e \<le> lsr_end r"
    using pre o(7) new(1) by (auto simp: c'_def intro: less_imp_le less_trans)
  ultimately show ?thesis using c1 AB unfolding aft by auto
qed

lemma overlap_punch:
  assumes O: "overlapped cache r pre c post" and new: "fce_range f_new = r" "fce_node f_new \<notin> set (fci_lru cache)"
    and t: "t \<noteq> fce_node f_new" "t \<notin> set (fci_lru cache)"
    and le: "estart c < lsr_start r" "lsr_end r < eend c" and ix: "eindex c \<noteq> lsr_index r"
  shows "\<exists>c'. fld_cache_punch_hole cache c f_new (Some t) = Some c' \<and> fld_cache_wf c' \<and>
    (eflags c = 0 \<longrightarrow> inserted r {fce_node f_new, t} cache c')"
proof -
  note o = overlapped_facts [OF O]
  define T where "T = \<lparr>fce_node = t, fce_range = \<lparr>lsr_start = lsr_end r, lsr_end = eend c, lsr_index = eindex c, lsr_flags = 0\<rparr>\<rparr>"
  define c' where "c' = c\<lparr>fce_range := (fce_range c)\<lparr>lsr_end := lsr_start r\<rparr>\<rparr>"
  obtain c1 A B where c1: "fld_cache_entry_add (set_range (fce_node c) (\<lambda>r'. r'\<lparr>lsr_end := lsr_start r\<rparr>) cache) f_new (Some (fce_node c)) = Some c1"
    "fld_cache_wf c1" "same_conf c1 cache" "fld_abs (fci_entries c1) = fld_abs ((pre @ [c', f_new]) @ post)"
    "set (fci_lru c1) \<subseteq> insert (fce_node f_new) (set (fci_lru cache))"
    and AB: "fci_entries c1 = (A @ [f_new]) @ B" and gap: "\<forall>h \<in> set B. eend c \<le> estart h"
    and ends: "\<forall>e \<in> set (pre @ [c', f_new]). eend e \<le> lsr_end r"
    using punch_first [OF O new le ix c'_def] by auto
  have SAB: "fld_sorted ((A @ [f_new]) @ B)" and N1: "fld_nodes c1" using c1(2) unfolding fld_cache_wf_def AB by blast+
  have endsA: "\<forall>e \<in> set (A @ [f_new]). eend e \<le> estart T"
    using SAB new(1) o(7) unfolding T_def by (auto simp: fld_sorted_append intro: order.trans less_imp_le)
  have "fld_sorted ((A @ [f_new]) @ T # B)"
    using SAB gap le(2) endsA unfolding fld_sorted_append [of "A @ [f_new]"] by (auto simp: T_def simp del: set_append)
  from fld_cache_entry_add_spec [OF AB N1 _ fld_sorted_dirty [OF this]]
  obtain c2 where c2: "fld_cache_entry_add c1 T (Some (fce_node f_new)) = Some c2" "fld_cache_wf c2" "same_conf c2 c1"
    "fld_abs (fci_entries c2) = fld_abs ((A @ [f_new]) @ T # B)" "set (fci_lru c2) \<subseteq> insert t (set (fci_lru c1))"
    using t c1(5) unfolding T_def by (auto simp: after_def)
  have T: "fce_range T = (fce_range c)\<lparr>lsr_start := lsr_end r\<rparr>" if "eflags c = 0" using that unfolding T_def by simp
  have "fld_abs (fci_entries c2) = fld_update (fce_range T) (fld_abs ((pre @ [c', f_new]) @ post))"
    using ext [OF fld_abs_insert [OF endsA, of B]] by (simp only: c2(4) c1(4) [unfolded AB])
  also have "\<dots> = fld_abs ((pre @ [c', f_new]) @ T # post)"
    using fld_abs_insert [of "pre @ [c', f_new]" T post] ends by (simp add: fun_eq_iff T_def)
  finally have "fld_abs (fci_entries c2) = fld_update r (fld_abs (fci_entries cache))" if "eflags c = 0"
    using fld_abs_update [OF o(3) fld_abs_punch [OF le(1) o(7) le(2) new(1) T [OF that]]] unfolding c'_def o(1) by simp
  then show ?thesis
    using c1(1,3,5) c2(1,2,3,5) new(1) unfolding inserted_def fld_cache_punch_hole_def T_def same_conf_def by auto
qed

section \<open>Shrinking\<close>

lemma fld_sorted_filter: "fld_sorted xs \<Longrightarrow> fld_sorted (filter P xs)"
  by (induction xs) auto

lemma fld_abs_filter: "fld_sorted xs \<Longrightarrow> fld_abs (filter P xs) s = Some v \<Longrightarrow> fld_abs xs s = Some v"
proof (induction xs)
  case (Cons c xs)
  have "fld_abs (filter P xs) s = None" if w: "lu_seq_range_within (fce_range c) s"
  proof (rule fld_abs_below)
    fix e assume "e \<in> set (filter P xs)"
    then have "eend c \<le> estart e" using Cons.prems(1) by auto
    then show "s < estart e" using w by (auto simp: lu_seq_range_within_def)
  qed
  then show ?case using Cons by (auto split: if_split_asm)
qed simp

lemma length_delete_node:
  "distinct (map fce_node xs) \<Longrightarrow> p \<in> fce_node ` set xs \<Longrightarrow> Suc (length (filter (\<lambda>y. fce_node y \<noteq> p) xs)) = length xs"
proof (induction xs)
  case (Cons y ys)
  show ?case
  proof (cases "fce_node y = p")
    case True
    then have "filter (\<lambda>y. fce_node y \<noteq> p) ys = ys" using Cons.prems(1) by (auto simp: filter_id_conv) (metis image_eqI)
    then show ?thesis using True by simp
  next
    case False
    then show ?thesis using Cons by auto
  qed
qed simp

lemma fld_cache_entry_delete_nodes:
  assumes N: "fld_nodes cache" and p: "p \<in> set (fci_lru cache)"
  shows "fld_nodes (fld_cache_entry_delete cache p)"
    and "set (fci_lru (fld_cache_entry_delete cache p)) = set (fci_lru cache) - {p}"
    and "same_conf (fld_cache_entry_delete cache p) cache"
proof -
  let ?xs = "fci_entries cache"
  have d: "distinct (map fce_node ?xs)" and m: "mset (fci_lru cache) = mset (map fce_node ?xs)"
    and n: "fci_cache_count cache = int (length ?xs)" using N unfolding fld_nodes_def by blast+
  have "p \<in> fce_node ` set ?xs" using p fld_nodes_lru [OF N] by simp
  then have "Suc (length (filter (\<lambda>y. fce_node y \<noteq> p) ?xs)) = length ?xs"
    by (rule length_delete_node [OF d])
  moreover have "map fce_node (filter (\<lambda>y. fce_node y \<noteq> p) ?xs) = filter (\<lambda>q. q \<noteq> p) (map fce_node ?xs)"
    by (simp add: filter_map comp_def)
  ultimately show "fld_nodes (fld_cache_entry_delete cache p)"
    using d m n by (auto simp: fld_nodes_def fld_cache_entry_delete_def)
  show "set (fci_lru (fld_cache_entry_delete cache p)) = set (fci_lru cache) - {p}"
    "same_conf (fld_cache_entry_delete cache p) cache"
    by (auto simp: fld_cache_entry_delete_def same_conf_def)
qed

lemma shrink_loop_spec:
  "fld_nodes cache \<Longrightarrow> distinct ps \<Longrightarrow> set ps \<subseteq> set (fci_lru cache) \<Longrightarrow>
   fld_nodes (shrink_loop ps cache) \<and> same_conf (shrink_loop ps cache) cache \<and>
   set (fci_lru (shrink_loop ps cache)) \<subseteq> set (fci_lru cache) \<and>
   (\<exists>P. fci_entries (shrink_loop ps cache) = filter P (fci_entries cache))"
proof (induction ps arbitrary: cache)
  case (Cons p ps)
  have p: "p \<in> set (fci_lru cache)" using Cons.prems(3) by simp
  note d = fld_cache_entry_delete_nodes [OF Cons.prems(1) p]
  have sub: "set ps \<subseteq> set (fci_lru (fld_cache_entry_delete cache p))" using Cons.prems(2,3) d(2) by auto
  obtain P where ih: "fld_nodes (shrink_loop ps (fld_cache_entry_delete cache p))"
    "same_conf (shrink_loop ps (fld_cache_entry_delete cache p)) (fld_cache_entry_delete cache p)"
    "set (fci_lru (shrink_loop ps (fld_cache_entry_delete cache p))) \<subseteq> set (fci_lru (fld_cache_entry_delete cache p))"
    "fci_entries (shrink_loop ps (fld_cache_entry_delete cache p)) = filter P (fci_entries (fld_cache_entry_delete cache p))"
    using Cons.IH [OF d(1) _ sub] Cons.prems(2) by auto
  have "fci_entries (shrink_loop ps (fld_cache_entry_delete cache p)) = filter (\<lambda>x. fce_node x \<noteq> p \<and> P x) (fci_entries cache)"
    unfolding ih(4) by (simp add: fld_cache_entry_delete_def conj_commute)
  then have e: "\<exists>P. fci_entries (shrink_loop ps (fld_cache_entry_delete cache p)) = filter P (fci_entries cache)" by blast
  show ?case
  proof (cases "fci_cache_count cache + fci_threshold cache > fci_cache_size cache")
    case True
    then show ?thesis using ih(1-3) d(2,3) e by (auto simp: same_conf_def)
  next
    case False
    then show ?thesis using Cons.prems(1) by (auto simp: same_conf_def intro: exI [of _ "\<lambda>_. True"])
  qed
qed (auto simp: same_conf_def intro: exI [of _ "\<lambda>_. True"])

lemma fld_cache_shrink_nodes:
  assumes "fld_nodes cache"
  shows "fld_nodes (fld_cache_shrink cache)" "same_conf (fld_cache_shrink cache) cache"
    "set (fci_lru (fld_cache_shrink cache)) \<subseteq> set (fci_lru cache)"
    "\<exists>P. fci_entries (fld_cache_shrink cache) = filter P (fci_entries cache)"
proof -
  have "distinct (rev (fci_lru cache))"
    using assms mset_eq_imp_distinct_iff unfolding fld_nodes_def distinct_rev by metis
  note L = shrink_loop_spec [OF assms this]
  have "\<exists>P. fci_entries cache = filter P (fci_entries cache)" by (rule exI [of _ "\<lambda>_. True"]) simp
  then show "fld_nodes (fld_cache_shrink cache)" "same_conf (fld_cache_shrink cache) cache"
    "set (fci_lru (fld_cache_shrink cache)) \<subseteq> set (fci_lru cache)"
    "\<exists>P. fci_entries (fld_cache_shrink cache) = filter P (fci_entries cache)"
    using L assms by (simp_all add: fld_cache_shrink_def same_conf_def)
qed

lemma fld_cache_shrink_spec:
  assumes "fld_cache_wf cache"
  shows "fld_cache_wf (fld_cache_shrink cache)" "same_conf (fld_cache_shrink cache) cache"
    "set (fci_lru (fld_cache_shrink cache)) \<subseteq> set (fci_lru cache)"
    "\<exists>P. fci_entries (fld_cache_shrink cache) = filter P (fci_entries cache)"
proof -
  have N: "fld_nodes cache" and S: "fld_sorted (fci_entries cache)" using assms unfolding fld_cache_wf_def by blast+
  note n = fld_cache_shrink_nodes [OF N]
  then show "fld_cache_wf (fld_cache_shrink cache)" "same_conf (fld_cache_shrink cache) cache"
    "set (fci_lru (fld_cache_shrink cache)) \<subseteq> set (fci_lru cache)"
    "\<exists>P. fci_entries (fld_cache_shrink cache) = filter P (fci_entries cache)"
    using fld_sorted_filter [OF S] unfolding fld_cache_wf_def by metis+
qed

lemma fld_cache_shrink_ok:
  assumes "fld_ok cache"
  shows "fld_ok (fld_cache_shrink cache)" "set (fci_lru (fld_cache_shrink cache)) \<subseteq> set (fci_lru cache)"
proof -
  note n = fld_cache_shrink_nodes [OF conjunct1 [OF assms [unfolded fld_ok_def]]]
  show "set (fci_lru (fld_cache_shrink cache)) \<subseteq> set (fci_lru cache)" by (rule n(3))
  show "fld_ok (fld_cache_shrink cache)" using n(1,4) assms unfolding fld_ok_def by auto
qed

section \<open>The insertion as a whole\<close>

text \<open>
  The insertions that the code handles right: it does not cut the tail of an entry of another
  target, and it cuts a hole only in an entry whose flags are zero.
\<close>

definition split_safe :: "lu_seq_range \<Rightarrow> fld_cache_entry list \<Rightarrow> bool" where
  "split_safe r xs \<longleftrightarrow> (\<forall>e \<in> set xs. eflags e = lsr_flags r \<and> eindex e \<noteq> lsr_index r \<and>
     estart e < lsr_start r \<and> lsr_end r \<le> eend e \<longrightarrow> lsr_end r < eend e \<and> eflags e = 0)"

lemma fld_cache_overlap_spec:
  assumes O: "overlapped cache r pre c post" and safe: "split_safe r [c]"
    and new: "fce_range f_new = r" "fce_node f_new \<notin> set (fci_lru cache)"
    and t: "t \<noteq> fce_node f_new" "t \<notin> set (fci_lru cache)"
  shows "\<exists>c'. fld_cache_overlap_handle cache c f_new (Some t) = Some c' \<and> inserted r {fce_node f_new, t} cache c'"
proof -
  note o = overlapped_facts [OF O]
  have mono: "inserted r {fce_node f_new, t} cache c'" if "inserted r (insert (fce_node f_new) {}) cache c'" for c'
    using that unfolding inserted_def by blast
  consider (same) "eindex c = lsr_index r"
    | (cover) "eindex c \<noteq> lsr_index r" "lsr_start r \<le> estart c" "eend c \<le> lsr_end r"
    | (punch) "eindex c \<noteq> lsr_index r" "estart c < lsr_start r" "lsr_end r < eend c" "eflags c = 0"
    | (left) "eindex c \<noteq> lsr_index r" "lsr_start r \<le> estart c" "lsr_end r < eend c"
    | (right) "eindex c \<noteq> lsr_index r" "estart c < lsr_start r" "eend c < lsr_end r"
  proof -
    have "lsr_end r \<le> eend c \<longrightarrow> lsr_end r < eend c \<and> eflags c = 0" if "eindex c \<noteq> lsr_index r" "estart c < lsr_start r"
      using safe o(4) that unfolding split_safe_def by auto
    then show thesis using that by (meson not_less)
  qed
  then show ?thesis
  proof cases
    case same
    then show ?thesis
      using overlap_fix [OF O _ _ _ _ fld_abs_union [OF o(5,6,4) same],
          of "\<lambda>r'. r'\<lparr>lsr_start := min (lsr_start r') (lsr_start r), lsr_end := max (lsr_end r') (lsr_end r)\<rparr>" "{fce_node f_new, t}"] o(4) new(1)
      by (simp add: fld_cache_overlap_handle_def Let_def)
  next
    case cover
    then show ?thesis
      using overlap_fix [OF O _ _ _ _ fld_abs_replace [OF cover(2,3)], of "\<lambda>r'. r" "{fce_node f_new, t}"] new(1)
      by (simp add: fld_cache_overlap_handle_def Let_def min_absorb2 max_absorb2)
  next
    case punch
    then show ?thesis
      using overlap_punch [OF O new t punch(2,3,1)] new(1) by (auto simp: fld_cache_overlap_handle_def Let_def)
  next
    case left
    then show ?thesis
      using overlap_left [OF O new left(2,3), of "{}"] mono new(1)
      by (auto simp: fld_cache_overlap_handle_def Let_def)
  next
    case right
    then have "\<not> lsr_end r \<le> eend c" "\<not> lsr_end r < eend c" by auto
    then show ?thesis
      using overlap_right [OF O new right(2) less_imp_le [OF right(3)], of "{}"] mono new(1) right
      by (auto simp: fld_cache_overlap_handle_def Let_def)
  qed
qed

lemma insert_no_overlap:
  assumes wf: "fld_cache_wf cache" and r: "lsr_start r < lsr_end r" and apart: "types_apart r (fci_entries cache)"
    and Inl: "insert_scan r None (fci_entries cache) = Inl p"
    and new: "fce_range f_new = r" "fce_node f_new \<notin> set (fci_lru cache)"
  shows "\<exists>c'. fld_cache_entry_add cache f_new p = Some c' \<and> inserted r (insert (fce_node f_new) ps) cache c'"
proof -
  have S: "fld_sorted (fci_entries cache)" and N: "fld_nodes cache" using wf unfolding fld_cache_wf_def by blast+
  obtain pre post where sp: "fci_entries cache = pre @ post" "p = (if pre = [] then None else after pre)"
    "\<forall>e \<in> set pre. eend e \<le> lsr_start r" "\<forall>e \<in> set post. lsr_end r \<le> estart e"
    using insert_scan_Inl [OF Inl S apart] by blast
  have p: "p = after pre" using sp(2) by (simp add: after_def)
  have "fld_sorted (pre @ f_new # post)"
    using S sp(3,4) r new(1) unfolding sp(1) by (auto simp: fld_sorted_append)
  from fld_cache_entry_add_spec [OF sp(1) N new(2) fld_sorted_dirty [OF this]]
  obtain c' where c': "fld_cache_entry_add cache f_new p = Some c'" "fld_cache_wf c'" "same_conf c' cache"
    "fld_abs (fci_entries c') = fld_abs (pre @ f_new # post)" "set (fci_lru c') \<subseteq> insert (fce_node f_new) (set (fci_lru cache))"
    unfolding p by blast
  have "fld_abs (pre @ f_new # post) = fld_update r (fld_abs (fci_entries cache))"
    unfolding sp(1) new(1) [symmetric] by (rule ext, rule fld_abs_insert) (use sp(3) new(1) in simp)
  from trans [OF c'(4) this] have "inserted r (insert (fce_node f_new) ps) cache c'" using c'(2,3,5) unfolding inserted_def by blast
  then show ?thesis using c'(1) by blast
qed

lemma fld_cache_insert_nolock_spec:
  assumes wf: "fld_cache_wf cache" and r: "lsr_start r < lsr_end r" and apart: "types_apart r (fci_entries cache)"
    and safe: "split_safe r (fci_entries cache)"
    and new: "fce_range f_new = r" "fce_node f_new \<notin> set (fci_lru cache)"
    and t: "t \<noteq> fce_node f_new" "t \<notin> set (fci_lru cache)"
  shows "\<exists>c'. fld_cache_insert_nolock cache f_new (Some t) = Some (0, c') \<and>
     inserted r {fce_node f_new, t} (if \<not> fci_no_shrink cache then fld_cache_shrink cache else cache) c'"
proof -
  let ?cache = "if \<not> fci_no_shrink cache then fld_cache_shrink cache else cache"
  note sh = fld_cache_shrink_spec [OF wf]
  have wf1: "fld_cache_wf ?cache" using sh(1) wf by simp
  have new1: "fce_node f_new \<notin> set (fci_lru ?cache)" and t1: "t \<notin> set (fci_lru ?cache)" using sh(3) new(2) t(2) by auto
  have sub: "set (fci_entries ?cache) \<subseteq> set (fci_entries cache)" using sh(4) by auto
  have apart1: "types_apart r (fci_entries ?cache)" and safe1: "split_safe r (fci_entries ?cache)"
    using apart safe sub unfolding types_apart_def split_safe_def by blast+
  have unf: "fld_cache_insert_nolock cache f_new (Some t) = map_option (\<lambda>c. (0, c))
      (case insert_scan (fce_range f_new) None (fci_entries ?cache) of
         Inr f_curr \<Rightarrow> fld_cache_overlap_handle ?cache f_curr f_new (Some t)
       | Inl prev \<Rightarrow> fld_cache_entry_add ?cache f_new prev)"
    by (simp only: fld_cache_insert_nolock_def Let_def)
  show ?thesis
  proof (cases "insert_scan r None (fci_entries ?cache)")
    case (Inr c)
    then obtain pre post where "overlapped ?cache r pre c post" "fci_entries ?cache = pre @ c # post"
      using insert_scan_Inr [OF Inr apart1] apart1 wf1 r unfolding overlapped_def by auto
    then show ?thesis
      using fld_cache_overlap_spec [of ?cache r pre c post f_new t] safe1 new(1) new1 t(1) t1 Inr unfolding unf split_safe_def by auto
  next
    case (Inl p)
    show ?thesis using insert_no_overlap [OF wf1 r apart1 Inl new(1) new1, of "{t}"] Inl new(1) unfolding unf by auto
  qed
qed

section \<open>Lookup and deletion\<close>

lemma lookup_scan_spec:
  "fld_sorted xs \<Longrightarrow>
   (case fld_abs xs seq of
      None \<Rightarrow> \<not> fst (lookup_scan seq prev xs)
    | Some v \<Rightarrow> \<exists>e \<in> set xs. lookup_scan seq prev xs = (True, Some (fce_range e)) \<and>
        lu_seq_range_within (fce_range e) seq \<and> v = (eindex e, eflags e))"
proof (induction xs arbitrary: prev)
  case (Cons c xs)
  show ?case
  proof (cases "lu_seq_range_within (fce_range c) seq")
    case True
    then show ?thesis by (auto simp: lu_seq_range_within_def)
  next
    case False
    have "fld_abs xs seq = None" if "seq < estart c"
      by (rule fld_abs_below) (use fld_sorted_Cons_start [OF Cons.prems] that in \<open>auto intro: less_le_trans\<close>)
    then show ?thesis
      using False Cons.IH [of "Some (fce_range c)"] Cons.prems by (auto split: option.split_asm option.split)
  qed
qed simp

text \<open>The search of an insertion that starts inside an entry finds that entry.\<close>

lemma insert_scan_inside:
  assumes "fld_sorted (pre @ c # post)" "estart c < lsr_start r" "lsr_start r < eend c" "lsr_start r < lsr_end r" "lsr_flags r = eflags c"
  shows "insert_scan r prev (pre @ c # post) = Inr c"
  using assms
proof (induction pre arbitrary: prev)
  case Nil
  then show ?case by (auto simp: Let_def)
next
  case (Cons d pre)
  have d: "estart d < eend d" "eend d \<le> estart c" using Cons.prems(1) by auto
  then have "\<not> lsr_start r < eend d" "\<not> lsr_end r \<le> estart d" using Cons.prems(2,4) by auto
  then show ?case using Cons.IH [of "Some (fce_node d)"] Cons.prems by (auto simp: Let_def)
qed

lemma fld_cache_delete_nodes:
  assumes N: "fld_nodes cache"
  shows "fld_nodes (fld_cache_delete cache r)" "\<exists>P. fci_entries (fld_cache_delete cache r) = filter P (fci_entries cache)"
proof -
  have "fld_nodes (fld_cache_delete cache r) \<and> (\<exists>P. fci_entries (fld_cache_delete cache r) = filter P (fci_entries cache))"
  proof (cases "find (entry_match r) (fci_entries cache)")
    case None
    moreover have "\<exists>P. fci_entries cache = filter P (fci_entries cache)" by (rule exI [of _ "\<lambda>_. True"]) simp
    ultimately show ?thesis using N by (simp add: fld_cache_delete_def fld_cache_delete_nolock_def)
  next
    case (Some e)
    then have "e \<in> set (fci_entries cache)" by (auto simp: find_Some_iff in_set_conv_nth)
    then have "fce_node e \<in> set (fci_lru cache)" using fld_nodes_lru [OF N] by simp
    then show ?thesis
      using Some fld_cache_entry_delete_nodes(1) [OF N]
      by (auto simp: fld_cache_delete_def fld_cache_delete_nolock_def fld_cache_entry_delete_def)
  qed
  then show "fld_nodes (fld_cache_delete cache r)" "\<exists>P. fci_entries (fld_cache_delete cache r) = filter P (fci_entries cache)"
    by blast+
qed

lemma fld_cache_delete_spec:
  assumes "fld_cache_wf cache"
  shows "fld_cache_wf (fld_cache_delete cache r)"
    and "fld_abs (fci_entries (fld_cache_delete cache r)) s = Some v \<Longrightarrow> fld_abs (fci_entries cache) s = Some v"
proof -
  have N: "fld_nodes cache" and S: "fld_sorted (fci_entries cache)" using assms unfolding fld_cache_wf_def by blast+
  note d = fld_cache_delete_nodes [OF N, of r]
  show "fld_cache_wf (fld_cache_delete cache r)" using d fld_sorted_filter [OF S] unfolding fld_cache_wf_def by metis
  show "fld_abs (fci_entries (fld_cache_delete cache r)) s = Some v \<Longrightarrow> fld_abs (fci_entries cache) s = Some v"
    using d(2) fld_abs_filter [OF S] by metis
qed

lemma fld_cache_lookup_wf: "fld_cache_wf (fst (snd (fld_cache_lookup cache seq r))) = fld_cache_wf cache"
  by (simp add: fld_cache_lookup_def Let_def fld_cache_wf_def fld_nodes_def split: prod.split)

section \<open>Histories\<close>

text \<open>
  The caches that the operations build, in any order: an insertion may have any range, and either of its
  allocations may fail. \<open>apart\<close> restricts the insertions to ranges that are not empty and overlap no cached range
  of another type.
\<close>

inductive fld_reach :: "bool \<Rightarrow> fld_cache \<Rightarrow> bool" for apart where
  fr_init: "fld_cache_init True sz threshold = Some (Inr c) \<Longrightarrow> fld_reach apart c"
| fr_insert: "\<lbrakk>fld_reach apart c; apart \<longrightarrow> lsr_start r < lsr_end r \<and> types_apart r (fci_entries c);
     p \<notin> set (fci_lru c); \<forall>q. t = Some q \<longrightarrow> q \<noteq> p \<and> q \<notin> set (fci_lru c);
     fld_cache_insert c r (Some p) t = Some (rc, c')\<rbrakk> \<Longrightarrow> fld_reach apart c'"
| fr_nomem: "\<lbrakk>fld_reach apart c; fld_cache_insert c r None t = Some (rc, c')\<rbrakk> \<Longrightarrow> fld_reach apart c'"
| fr_delete: "fld_reach apart c \<Longrightarrow> fld_reach apart (fld_cache_delete c r)"
| fr_lookup: "\<lbrakk>fld_reach apart c; fld_cache_lookup c seq r = (rc, c', r')\<rbrakk> \<Longrightarrow> fld_reach apart c'"
| fr_flush: "fld_reach apart c \<Longrightarrow> fld_reach apart (fld_cache_flush c)"

lemma fld_cache_insert_spec:
  assumes wf: "fld_cache_wf cache" and r: "lsr_start r < lsr_end r" and apart: "types_apart r (fci_entries cache)"
    and safe: "split_safe r (fci_entries cache)" and p: "p \<notin> set (fci_lru cache)"
    and t: "t \<noteq> p" "t \<notin> set (fci_lru cache)"
  shows "\<exists>c'. fld_cache_insert cache r (Some p) (Some t) = Some (0, c') \<and>
     inserted r {p, t} (if \<not> fci_no_shrink cache then fld_cache_shrink cache else cache) c'"
  using fld_cache_insert_nolock_spec [OF wf r apart safe, of "\<lparr>fce_node = p, fce_range = r\<rparr>" t] p t r
  by (simp add: fld_cache_insert_def fld_cache_entry_create_def lu_seq_range_is_sane_def less_imp_le)

lemma fld_cache_flush_wf:
  assumes "fld_cache_wf cache"
  shows "fld_cache_wf (fld_cache_flush cache)"
proof -
  have "fld_cache_wf (cache\<lparr>fci_cache_size := 0\<rparr>)" using assms by (simp add: fld_cache_wf_def fld_nodes_def)
  then show ?thesis unfolding fld_cache_flush_def by (rule fld_cache_shrink_spec)
qed

text \<open>An insertion that meets no assertion, of any range and with any outcome of the second allocation.\<close>

lemma fld_cache_insert_ok:
  assumes ok: "fld_ok cache" and p: "p \<notin> set (fci_lru cache)" and t: "\<forall>q. t = Some q \<longrightarrow> q \<noteq> p \<and> q \<notin> set (fci_lru cache)"
    and i: "fld_cache_insert cache r (Some p) t = Some (rc, c')"
  shows "fld_ok c'"
proof -
  let ?c = "if \<not> fci_no_shrink cache then fld_cache_shrink cache else cache" and ?f = "\<lparr>fce_node = p, fce_range = r\<rparr>"
  note sh = fld_cache_shrink_ok [OF ok]
  have ok1: "fld_ok ?c" and p1: "p \<notin> set (fci_lru ?c)" and t1: "\<forall>q. t = Some q \<longrightarrow> q \<noteq> p \<and> q \<notin> set (fci_lru ?c)"
    using ok p t sh by auto
  have "fld_cache_insert_nolock cache ?f t = Some (rc, c')"
    using i by (simp add: fld_cache_insert_def fld_cache_entry_create_def split: if_split_asm)
  then have "(case insert_scan r None (fci_entries ?c) of
      Inr f_curr \<Rightarrow> fld_cache_overlap_handle ?c f_curr ?f t | Inl prev \<Rightarrow> fld_cache_entry_add ?c ?f prev) = Some c'"
    unfolding fld_cache_insert_nolock_def Let_def by (simp only: fld_cache_entry.select_convs) auto
  then show ?thesis
    using fld_cache_overlap_ok [OF ok1, of ?f t] fld_cache_entry_add_ok(1) [of ?c ?f] ok1 p1 t1
    by (auto simp: fld_ok_def split: sum.split_asm)
qed

lemma fld_cache_overlap_wf:
  assumes O: "overlapped cache r pre c post" and new: "fce_range f_new = r" "fce_node f_new \<notin> set (fci_lru cache)"
    and t: "\<forall>q. t = Some q \<longrightarrow> q \<noteq> fce_node f_new \<and> q \<notin> set (fci_lru cache)"
    and h: "fld_cache_overlap_handle cache c f_new t = Some c'"
  shows "fld_cache_wf c'"
proof -
  have wf: "fld_cache_wf cache" using O unfolding overlapped_def by blast
  note o = overlapped_facts [OF O]
  consider (punch) "eindex c \<noteq> lsr_index r" "estart c < lsr_start r" "lsr_end r < eend c"
    | (suffix) "eindex c \<noteq> lsr_index r" "estart c < lsr_start r" "lsr_end r = eend c"
    | (other) "eindex c = lsr_index r \<or> lsr_start r \<le> estart c \<or> eend c < lsr_end r"
    by (meson not_less linorder_neqE)
  then show ?thesis
  proof cases
    case punch
    then have p: "fld_cache_punch_hole cache c f_new t = Some c'" using h new(1) by (auto simp: fld_cache_overlap_handle_def Let_def split: if_split_asm)
    show ?thesis
    proof (cases t)
      case None
      then show ?thesis using p wf by (simp add: fld_cache_punch_hole_def)
    next
      case (Some q)
      then show ?thesis using overlap_punch [OF O new, of q] punch t p by auto
    qed
  next
    case suffix
    then show ?thesis using h new(1) by (auto simp: fld_cache_overlap_handle_def Let_def split: if_split_asm)
  next
    case other
    obtain q where q: "q \<notin> insert (fce_node f_new) (set (fci_lru cache))" using ex_new_if_finite [OF infinite_UNIV_nat] by blast
    have safe: "split_safe r [c]" using other by (auto simp: split_safe_def)
    have "fld_cache_overlap_handle cache c f_new t = fld_cache_overlap_handle cache c f_new (Some q)"
      using other new(1) by (auto simp: fld_cache_overlap_handle_def Let_def)
    then show ?thesis using fld_cache_overlap_spec [OF O safe new, of q] q h unfolding inserted_def by auto
  qed
qed

lemma fld_cache_insert_wf:
  assumes wf: "fld_cache_wf cache" and r: "lsr_start r < lsr_end r" and apart: "types_apart r (fci_entries cache)"
    and p: "p \<notin> set (fci_lru cache)" and t: "\<forall>q. t = Some q \<longrightarrow> q \<noteq> p \<and> q \<notin> set (fci_lru cache)"
    and i: "fld_cache_insert cache r (Some p) t = Some (rc, c')"
  shows "fld_cache_wf c'"
proof -
  let ?c = "if \<not> fci_no_shrink cache then fld_cache_shrink cache else cache" and ?f = "\<lparr>fce_node = p, fce_range = r\<rparr>"
  note sh = fld_cache_shrink_spec [OF wf]
  have wf1: "fld_cache_wf ?c" and p1: "p \<notin> set (fci_lru ?c)" and t1: "\<forall>q. t = Some q \<longrightarrow> q \<noteq> p \<and> q \<notin> set (fci_lru ?c)"
    and apart1: "types_apart r (fci_entries ?c)"
    using wf p t apart sh by (auto simp: types_apart_def)
  have n: "fld_cache_insert_nolock cache ?f t = Some (rc, c')"
    using i by (simp add: fld_cache_insert_def fld_cache_entry_create_def split: if_split_asm)
  show ?thesis
  proof (cases "insert_scan r None (fci_entries ?c)")
    case (Inr c)
    then obtain pre post where "overlapped ?c r pre c post"
      using insert_scan_Inr [OF Inr apart1] apart1 wf1 r unfolding overlapped_def by auto
    moreover have "fld_cache_overlap_handle ?c c ?f t = Some c'"
      using n Inr unfolding fld_cache_insert_nolock_def Let_def by auto
    ultimately show ?thesis using fld_cache_overlap_wf [of ?c r pre c post ?f t c'] p1 t1 by simp
  next
    case (Inl pos)
    then have "fld_cache_entry_add ?c ?f pos = Some c'" using n unfolding fld_cache_insert_nolock_def Let_def by auto
    then show ?thesis using insert_no_overlap [OF wf1 r apart1 Inl, of ?f "{}"] p1 unfolding inserted_def by auto
  qed
qed

lemma fld_reach_ok: "fld_reach apart c \<Longrightarrow> fld_ok c \<and> (apart \<longrightarrow> fld_cache_wf c)"
proof (induction rule: fld_reach.induct)
  case (fr_init sz threshold c)
  then show ?case by (auto simp: fld_cache_init_def fld_cache_wf_def fld_ok_def fld_nodes_def split: if_split_asm)
next
  case (fr_insert c r p t rc c')
  then show ?case
    using fld_cache_insert_ok [OF _ fr_insert.hyps(3-5)] fld_cache_insert_wf [OF _ _ _ fr_insert.hyps(3-5)] by blast
next
  case (fr_nomem c r t rc c')
  then show ?case by (auto simp: fld_cache_insert_def fld_cache_entry_create_def split: if_split_asm)
next
  case (fr_delete c r)
  then show ?case using fld_cache_delete_nodes [of c r] fld_cache_delete_spec(1) [of c r] unfolding fld_ok_def by auto
next
  case (fr_lookup c seq r rc c' r')
  then show ?case
    using fld_cache_lookup_wf [of c seq r] by (auto simp: fld_cache_lookup_def fld_ok_def fld_nodes_def Let_def split: prod.split_asm if_split_asm)
next
  case (fr_flush c)
  have "fld_ok (c\<lparr>fci_cache_size := 0\<rparr>)" using fr_flush.IH by (simp add: fld_ok_def fld_nodes_def)
  then show ?case using fld_cache_shrink_ok(1) fld_cache_flush_wf fr_flush.IH by (simp add: fld_cache_flush_def)
qed


section \<open>Properties\<close>

text \<open>A cache with two ranges of metadata targets and one of an object storage target.\<close>

definition fx_cache :: fld_cache where
  "fx_cache = \<lparr>fci_threshold = 2, fci_cache_size = 16, fci_cache_count = 3, fci_lru = [3, 2, 1],
     fci_entries =
       [\<lparr>fce_node = 1, fce_range = \<lparr>lsr_start = 0x400, lsr_end = 0x800, lsr_index = 0, lsr_flags = 0\<rparr>\<rparr>,
        \<lparr>fce_node = 2, fce_range = \<lparr>lsr_start = 0x800, lsr_end = 0xc00, lsr_index = 1, lsr_flags = 0\<rparr>\<rparr>,
        \<lparr>fce_node = 3, fce_range = \<lparr>lsr_start = 0xc00, lsr_end = 0x1000, lsr_index = 0, lsr_flags = 1\<rparr>\<rparr>],
     fci_stat = \<lparr>fst_count = 0, fst_cache = 0\<rparr>, fci_no_shrink = False\<rparr>"

lemma fx_cache_wf: "fld_cache_wf fx_cache"
  by (simp add: fx_cache_def fld_cache_wf_def fld_nodes_def)

text \<open>C9. Inserting a range into the FLD cache updates the location map that the cache stands for. On a
  well-formed cache, for a range that is not empty, that is apart from the ranges of the other target
  type and that the code can split, the insertion returns 0, leaves a well-formed cache, maps the
  sequences of the range to its target and every other sequence to what it was mapped to after the
  cache was shrunk. No assertion fails, whatever number of entries the range overlaps.\<close>

theorem fld_insert_refines:
  assumes "fld_cache_wf cache" "lsr_start r < lsr_end r" "types_apart r (fci_entries cache)"
    and "split_safe r (fci_entries cache)" "p \<notin> set (fci_lru cache)" "t \<noteq> p" "t \<notin> set (fci_lru cache)"
  shows "\<exists>c'. fld_cache_insert cache r (Some p) (Some t) = Some (0, c') \<and> fld_cache_wf c' \<and>
    fld_abs (fci_entries c') =
      fld_update r (fld_abs (fci_entries (if fci_no_shrink cache then cache else fld_cache_shrink cache)))"
  using fld_cache_insert_spec [OF assms] by (auto simp: inserted_def)

theorem fld_insert_refines_witness:
  "\<exists>c'. fld_cache_insert fx_cache \<lparr>lsr_start = 0x500, lsr_end = 0x900, lsr_index = 2, lsr_flags = 0\<rparr> (Some 4) (Some 5) = Some (0, c') \<and>
    fld_cache_wf c' \<and> fld_abs (fci_entries c') =
      fld_update \<lparr>lsr_start = 0x500, lsr_end = 0x900, lsr_index = 2, lsr_flags = 0\<rparr>
        (fld_abs (fci_entries (if fci_no_shrink fx_cache then fx_cache else fld_cache_shrink fx_cache)))"
  by (rule fld_insert_refines [OF fx_cache_wf]) (simp_all add: fx_cache_def types_apart_def split_safe_def)

text \<open>C19. A lookup in a well-formed FLD cache is exact. It returns 0 just for the sequences that the cache
  maps, with a cached range that holds the sequence and has the mapped index and flags; for every other
  sequence it returns \<open>-ENOENT\<close>. The entries do not change.\<close>

theorem fld_lookup_exact:
  assumes "fld_cache_wf cache" "fld_cache_lookup cache seq r = (rc, c', r')"
  shows "fci_entries c' = fci_entries cache \<and>
    (case fld_abs (fci_entries cache) seq of
       None \<Rightarrow> rc = - ENOENT
     | Some (i, f) \<Rightarrow> rc = 0 \<and> lu_seq_range_within r' seq \<and> lsr_index r' = i \<and> lsr_flags r' = f)"
proof -
  have S: "fld_sorted (fci_entries cache)" using assms(1) unfolding fld_cache_wf_def by blast
  show ?thesis
    using lookup_scan_spec [OF S, of seq None] assms(2)
    by (auto simp: fld_cache_lookup_def Let_def split: option.split_asm prod.split_asm if_split_asm option.split)
qed

theorem fld_lookup_exact_witness:
  "\<exists>c' r'. fld_cache_lookup fx_cache 0x900 lu_seq_range_init = (0, c', r') \<and> fci_entries c' = fci_entries fx_cache \<and>
     lu_seq_range_within r' 0x900 \<and> lsr_index r' = 1 \<and> lsr_flags r' = 0"
proof -
  obtain rc c' r' where l: "fld_cache_lookup fx_cache 0x900 lu_seq_range_init = (rc, c', r')" by (metis prod_cases3)
  have "fld_abs (fci_entries fx_cache) 0x900 = Some (1, 0)" by (simp add: fx_cache_def lu_seq_range_within_def)
  with fld_lookup_exact [OF fx_cache_wf l] l show ?thesis by simp
qed

text \<open>C18. Every FLD cache that initialisation, insertions, deletions, lookups and flushes build, in any order, with any
  ranges and with failed allocations, keeps its two lists in step: the entry list and the least-recently-used list hold
  the same nodes, each once, the counter is their number, and every range is sane. If moreover no inserted range is
  empty or overlaps a cached range of another type (\<open>apart\<close>), the ranges are not empty, in order and disjoint.\<close>

theorem fld_cache_type:
  assumes "fld_reach apart c"
  shows "distinct (map fce_node (fci_entries c)) \<and> distinct (fci_lru c) \<and> set (fci_lru c) = fce_node ` set (fci_entries c) \<and>
    fci_cache_count c = int (length (fci_entries c)) \<and> (\<forall>e \<in> set (fci_entries c). lu_seq_range_is_sane (fce_range e)) \<and>
    (apart \<longrightarrow> fld_sorted (fci_entries c))"
proof -
  have N: "fld_nodes c" and s: "\<forall>e \<in> set (fci_entries c). estart e \<le> eend e" and wf: "apart \<longrightarrow> fld_cache_wf c"
    using fld_reach_ok [OF assms] unfolding fld_ok_def by blast+
  show ?thesis
    using fld_nodes_lru [OF N] N s wf mset_eq_imp_distinct_iff [of "fci_lru c" "map fce_node (fci_entries c)"]
    unfolding fld_nodes_def fld_cache_wf_def lu_seq_range_is_sane_def by blast
qed

text \<open>The cache after two insertions.\<close>

definition fx_init :: fld_cache where
  "fx_init = \<lparr>fci_threshold = 2, fci_cache_size = 16, fci_cache_count = 0, fci_lru = [], fci_entries = [],
     fci_stat = \<lparr>fst_count = 0, fst_cache = 0\<rparr>, fci_no_shrink = False\<rparr>"

definition fx_built :: fld_cache where
  "fx_built = fx_init\<lparr>fci_cache_count := 3, fci_lru := [3, 2, 1],
     fci_entries :=
       [\<lparr>fce_node = 1, fce_range = \<lparr>lsr_start = 0x400, lsr_end = 0x500, lsr_index = 0, lsr_flags = 0\<rparr>\<rparr>,
        \<lparr>fce_node = 2, fce_range = \<lparr>lsr_start = 0x500, lsr_end = 0x600, lsr_index = 1, lsr_flags = 0\<rparr>\<rparr>,
        \<lparr>fce_node = 3, fce_range = \<lparr>lsr_start = 0x600, lsr_end = 0x800, lsr_index = 0, lsr_flags = 0\<rparr>\<rparr>]\<rparr>"

lemma fx_built_reach: "fld_reach True fx_built"
proof -
  let ?r = "\<lparr>lsr_start = 0x400, lsr_end = 0x800, lsr_index = 0, lsr_flags = 0\<rparr>"
  let ?c = "fx_init\<lparr>fci_cache_count := 1, fci_lru := [1], fci_entries := [\<lparr>fce_node = 1, fce_range = ?r\<rparr>]\<rparr>"
  have 0: "fld_reach True fx_init"
    by (rule fr_init [of 16 2]) (simp add: fld_cache_init_def fx_init_def)
  have 1: "fld_reach True ?c"
    by (rule fr_insert [OF 0, of ?r 1 None 0])
      (simp_all add: fx_init_def fld_cache_insert_def fld_cache_entry_create_def fld_cache_insert_nolock_def fld_cache_shrink_def
        fld_cache_entry_add_def fld_fix_new_list_def fix_list.simps lu_seq_range_is_sane_def types_apart_def)
  show ?thesis
    by (rule fr_insert [OF 1, of "\<lparr>lsr_start = 0x500, lsr_end = 0x600, lsr_index = 1, lsr_flags = 0\<rparr>" 2 "Some 3" 0])
      (simp_all add: fx_built_def fx_init_def fld_cache_insert_def fld_cache_entry_create_def fld_cache_insert_nolock_def
        fld_cache_shrink_def fld_cache_overlap_handle_def fld_cache_punch_hole_def fld_cache_entry_add_def set_range_def
        fld_fix_new_list_def fix_list.simps lu_seq_range_is_sane_def types_apart_def Let_def)
qed

theorem fld_cache_type_witness:
  "fld_reach True fx_built \<and> fld_sorted (fci_entries fx_built) \<and> distinct (fci_lru fx_built) \<and>
   set (fci_lru fx_built) = fce_node ` set (fci_entries fx_built) \<and> fci_cache_count fx_built = 3 \<and> length (fci_entries fx_built) = 3"
  using fld_cache_type [OF fx_built_reach] fx_built_reach by (simp add: fx_built_def)

text \<open>C32. Moving the last part of a cached range to another target stops the node. When the inserted range
  starts inside a cached entry of its type, ends where that entry ends and has another index, none of the
  first two cases of \<open>fld_cache_overlap_handle\<close> applies, and the third one asserts that the range starts at
  or before the entry.\<close>

theorem fld_suffix_asserts:
  assumes "fld_cache_wf cache" "fci_no_shrink cache \<or> fci_cache_count cache < fci_cache_size cache"
    and "e \<in> set (fci_entries cache)" "lsr_start (fce_range e) < lsr_start r" "lsr_start r < lsr_end r"
    and "lsr_end r = lsr_end (fce_range e)" "lsr_flags r = lsr_flags (fce_range e)" "lsr_index r \<noteq> lsr_index (fce_range e)"
  shows "fld_cache_insert cache r (Some p) t = None"
proof -
  have S: "fld_sorted (fci_entries cache)" using assms(1) unfolding fld_cache_wf_def by blast
  obtain pre post where sp: "fci_entries cache = pre @ e # post" using assms(3) by (meson split_list)
  have "insert_scan r None (fci_entries cache) = Inr e"
    unfolding sp by (rule insert_scan_inside) (use S assms sp in simp_all)
  moreover have "(if \<not> fci_no_shrink cache then fld_cache_shrink cache else cache) = cache"
    using assms(2) by (auto simp: fld_cache_shrink_def)
  moreover have "fld_cache_overlap_handle cache e \<lparr>fce_node = p, fce_range = r\<rparr> t = None"
    using assms(4-8) by (auto simp: fld_cache_overlap_handle_def Let_def)
  ultimately show ?thesis
    using assms(5) by (simp add: fld_cache_insert_def fld_cache_entry_create_def fld_cache_insert_nolock_def
        lu_seq_range_is_sane_def less_imp_le Let_def)
qed

theorem fld_suffix_asserts_witness:
  "fld_cache_insert fx_cache \<lparr>lsr_start = 0x700, lsr_end = 0x800, lsr_index = 3, lsr_flags = 0\<rparr> (Some 4) (Some 5) = None"
  by (rule fld_suffix_asserts [OF fx_cache_wf, of "hd (fci_entries fx_cache)"]) (simp_all add: fx_cache_def)

text \<open>Cutting a hole into the range of an object storage target changes the type of what is left. The second
  part of the range is a new entry whose flags are not set, so the sequences after the hole are cached as
  those of the metadata target with the same index.\<close>

theorem fld_punch_loses_type:
  "fld_abs (fci_entries fx_cache) 0xf80 = Some (0, LU_SEQ_RANGE_OST) \<and>
   map_option (\<lambda>(rc, c). (rc, fld_abs (fci_entries c) 0xf80))
     (fld_cache_insert fx_cache \<lparr>lsr_start = 0xd00, lsr_end = 0xe00, lsr_index = 1, lsr_flags = LU_SEQ_RANGE_OST\<rparr> (Some 4) (Some 5)) =
   Some (0, Some (0, LU_SEQ_RANGE_MDT))"
  by (simp add: fx_cache_def fld_cache_insert_def fld_cache_entry_create_def fld_cache_insert_nolock_def fld_cache_shrink_def
      fld_cache_overlap_handle_def fld_cache_punch_hole_def fld_cache_entry_add_def fld_fix_new_list_def set_range_def
      fix_list.simps LU_SEQ_RANGE_OST_def LU_SEQ_RANGE_MDT_def lu_seq_range_is_sane_def lu_seq_range_within_def Let_def)

end
