(* ===== verification/Fld_Service.thy ===== *)
theory Fld_Service
  imports Fid Fld_Cache
begin

text \<open>
  The FID location service: the client (\<open>lustre/fld/fld_request.c\<close>), the server
  (\<open>lustre/fld/fld_handler.c\<close>) and its index (\<open>lustre/fld/fld_index.c\<close>).

  A call that waits for a peer can fail in two ways that are not error codes: an assertion
  (\<open>Bug\<close>) and a loop that has used up the answers it was given (\<open>Wait\<close>). The answers of the
  peers are a list of replies, consumed in order; the answers of the storage stack are records;
  the nodes that the cache allocates are a list of pairs, one pair for an insertion.
\<close>

section \<open>Data\<close>

datatype fld_stop = Bug | Wait

definition lift_bug :: "'a option \<Rightarrow> fld_stop + 'a" where
  "lift_bug x = (case x of None \<Rightarrow> Inl Bug | Some y \<Rightarrow> Inr y)"

definition fbind :: "fld_stop + 'a \<Rightarrow> ('a \<Rightarrow> fld_stop + 'b) \<Rightarrow> fld_stop + 'b" where
  "fbind x f = (case x of Inl e \<Rightarrow> Inl e | Inr y \<Rightarrow> f y)"

text \<open>The index is the list of its records in the order of their keys; \<open>None\<close> is no object.\<close>

record lu_server_fld =
  lsf_name :: string
  lsf_obj :: "lu_seq_range list option"
  lsf_control_exp :: bool
  lsf_cache :: fld_cache
  lsf_new :: bool

record lu_fld_target =
  ft_exp :: bool
  ft_srv :: "lu_server_fld option"
  ft_idx :: u64

record lu_client_fld =
  lcf_targets :: "lu_fld_target list"
  lcf_hash :: int
  lcf_count :: int
  lcf_cache :: fld_cache

text \<open>
  One attempt of \<open>fld_client_rpc\<close>: whether the request was allocated, the result of
  \<open>ptlrpc_queue_wait\<close>, whether the import is the one of a light-weight proxy that is neither closed
  nor deactivated, and the two buffers of the reply.
\<close>

record rpc_reply =
  rr_alloc :: bool
  rr_rc :: int
  rr_lwp :: bool
  rr_range :: "lu_seq_range option"
  rr_data :: "lu_seq_range list option"

definition FLD_QUERY :: u32 where [const_defs]: "FLD_QUERY = 900"
definition FLD_READ :: u32 where [const_defs]: "FLD_READ = 901"
definition LDD_F_SV_TYPE_MDT :: int where [const_defs]: "LDD_F_SV_TYPE_MDT = 0x0001"
definition LDD_F_SV_TYPE_OST :: int where [const_defs]: "LDD_F_SV_TYPE_OST = 0x0002"
definition LDD_F_SV_ALL :: int where [const_defs]: "LDD_F_SV_ALL = 0x0008"
definition FLD_SERVER_CACHE_SIZE :: int where [const_defs]: "FLD_SERVER_CACHE_SIZE = 4 * 0x100000"
definition FLD_CLIENT_CACHE_SIZE :: int where [const_defs]: "FLD_CLIENT_CACHE_SIZE = 1 * 0x100000"
definition FLD_SERVER_CACHE_THRESHOLD :: int where [const_defs]: "FLD_SERVER_CACHE_THRESHOLD = 10"
definition FLD_CLIENT_CACHE_THRESHOLD :: int where [const_defs]: "FLD_CLIENT_CACHE_THRESHOLD = 10"

text \<open>The size of \<open>struct fld_cache_entry\<close>: two list heads and a range.\<close>

definition sizeof_fld_cache_entry :: int where [const_defs]: "sizeof_fld_cache_entry = 56"

section \<open>Targets of a client\<close>

text \<open>\<open>do_div\<close> returns the remainder.\<close>

definition fld_rrb_hash :: "lu_client_fld \<Rightarrow> u64 \<Rightarrow> u64 option" where
  "fld_rrb_hash fld seq = do {
     LASSERT (lcf_count fld > 0);
     Some (seq mod word_of_int (lcf_count fld))
   }"

fun find_target :: "u64 \<Rightarrow> lu_fld_target list \<Rightarrow> nat \<Rightarrow> nat option" where
  "find_target idx [] i = None"
| "find_target idx (t # ts) i = (if ft_idx t = idx then Some i else find_target idx ts (i + 1))"

text \<open>A target is its position in the list.\<close>

definition fld_rrb_scan :: "lu_client_fld \<Rightarrow> u64 \<Rightarrow> nat option" where
  "fld_rrb_scan fld seq = do {
     hash \<leftarrow> (if fid_seq_is_norm seq then fld_rrb_hash fld seq else Some 0);
     (case find_target hash (lcf_targets fld) 0 of
        Some i \<Rightarrow> Some i
      | None \<Rightarrow> if hash \<noteq> 0 then find_target 0 (lcf_targets fld) 0 else None)
   }"

text \<open>The table \<open>fld_hash\<close> has the hash 0 and a terminator without functions.\<close>

definition fld_client_get_target :: "lu_client_fld \<Rightarrow> u64 \<Rightarrow> nat option" where
  "fld_client_get_target fld seq = (if lcf_hash fld = 0 then fld_rrb_scan fld seq else None)"

definition fld_client_add_target :: "lu_client_fld \<Rightarrow> lu_fld_target \<Rightarrow> bool \<Rightarrow> (int \<times> lu_client_fld) option" where
  "fld_client_add_target fld tar alloc = do {
     LASSERT (ft_srv tar \<noteq> None \<or> ft_exp tar);
     Some (if \<not> alloc then (- ENOMEM, fld)
           else if (\<exists>tmp \<in> set (lcf_targets fld). ft_idx tmp = ft_idx tar) then (- EEXIST, fld)
           else (0, fld\<lparr>lcf_targets := lcf_targets fld @ [tar], lcf_count := lcf_count fld + 1\<rparr>))
   }"

definition fld_client_del_target :: "lu_client_fld \<Rightarrow> u64 \<Rightarrow> int \<times> lu_client_fld" where
  "fld_client_del_target fld idx =
     (case find_target idx (lcf_targets fld) 0 of
        None \<Rightarrow> (- ENOENT, fld)
      | Some i \<Rightarrow> (0, fld\<lparr>lcf_count := lcf_count fld - 1,
                         lcf_targets := take i (lcf_targets fld) @ drop (i + 1) (lcf_targets fld)\<rparr>))"

definition hash_is_sane :: "int \<Rightarrow> bool" where
  "hash_is_sane hash \<longleftrightarrow> hash \<ge> 0 \<and> hash < 2"

text \<open>The result of \<open>fld_client_init\<close> without the client is that of \<open>fld_client_fini\<close>.\<close>

definition fld_client_init :: "int \<Rightarrow> bool \<Rightarrow> int \<Rightarrow> (int \<times> lu_client_fld option) option" where
  "fld_client_init hash alloc debugfs_rc =
     (if \<not> hash_is_sane hash then Some (- EINVAL, None)
      else (let cache_size = FLD_CLIENT_CACHE_SIZE div sizeof_fld_cache_entry;
                cache_threshold = cache_size * FLD_CLIENT_CACHE_THRESHOLD div 100 in do {
        c \<leftarrow> fld_cache_init alloc cache_size cache_threshold;
        Some (case c of
                Inl rc \<Rightarrow> (rc, None)
              | Inr cache \<Rightarrow>
                  if debugfs_rc \<noteq> 0 then (debugfs_rc, None)
                  else (0, Some \<lparr>lcf_targets = [], lcf_hash = hash, lcf_count = 0, lcf_cache = cache\<rparr>))
      }))"

definition fld_client_fini :: "lu_client_fld \<Rightarrow> lu_client_fld" where
  "fld_client_fini fld =
     fld\<lparr>lcf_count := lcf_count fld - int (length (lcf_targets fld)), lcf_targets := [],
         lcf_cache := fst (fld_cache_fini (lcf_cache fld))\<rparr>"

definition fld_client_flush :: "lu_client_fld \<Rightarrow> lu_client_fld" where
  "fld_client_flush fld = fld\<lparr>lcf_cache := fld_cache_flush (lcf_cache fld)\<rparr>"

section \<open>The request\<close>

text \<open>
  The result is the return code, the range, what \<open>*reqp\<close> holds (a caller that passes no \<open>reqp\<close>
  ignores it) and the answers that are left. An early return leaves \<open>*reqp\<close> as it was.
\<close>

fun fld_client_rpc :: "lu_seq_range \<Rightarrow> u32 \<Rightarrow> rpc_reply option \<Rightarrow> rpc_reply list \<Rightarrow>
    fld_stop + int \<times> lu_seq_range \<times> rpc_reply option \<times> rpc_reply list" where
  "fld_client_rpc rng fld_op req0 [] = (if fld_op \<noteq> FLD_QUERY \<and> fld_op \<noteq> FLD_READ then Inr (- EINVAL, rng, req0, []) else Inl Wait)"
| "fld_client_rpc rng fld_op req0 (r # rs) =
     (if fld_op \<noteq> FLD_QUERY \<and> fld_op \<noteq> FLD_READ then Inr (- EINVAL, rng, req0, r # rs)
      else if \<not> rr_alloc r then Inr (- ENOMEM, rng, req0, rs)
      else if rr_rc r = - ENOENT then Inr (rr_rc r, rng, None, rs)
      else if rr_rc r \<noteq> 0 then
        (if rr_lwp r \<and> rr_rc r \<noteq> - ENOTSUPP then fld_client_rpc rng fld_op req0 rs else Inr (rr_rc r, rng, None, rs))
      else if fld_op = FLD_QUERY then
        (case rr_range r of None \<Rightarrow> Inr (- EFAULT, rng, None, rs) | Some prange \<Rightarrow> Inr (0, prange, Some r, rs))
      else Inr (0, rng, Some r, rs))"

section \<open>The server\<close>

text \<open>
  The name of a server ends in the type and the index of its target. \<open>strtoul\<close> is the kernel's
  \<open>simple_strtoul\<close> for base 16. \<open>index0\<close> is what the variable held before: it keeps that for a
  name that ends in \<open>all\<close>, which no server has; the callers below pass 0 for it.
\<close>

definition target_name2index :: "(string \<Rightarrow> u64) \<Rightarrow> string \<Rightarrow> u32 \<Rightarrow> int \<times> u32" where
  "target_name2index strtoul tgtname index0 =
     (let rc = (if take 3 tgtname = ''MDT'' then LDD_F_SV_TYPE_MDT
                else if take 3 tgtname = ''OST'' then LDD_F_SV_TYPE_OST else - EINVAL);
          dash = drop 3 tgtname in
      if rc < 0 then (rc, index0)
      else if take 3 dash = ''all'' then (rc + LDD_F_SV_ALL, index0)
      else (rc, ucast (strtoul dash)))"

definition fld_name_to_index :: "(string \<Rightarrow> u64) \<Rightarrow> string \<Rightarrow> u32 \<Rightarrow> int \<times> u32" where
  "fld_name_to_index strtoul name index0 =
     (if CHR ''-'' \<notin> set name then (- EINVAL, index0)
      else target_name2index strtoul (rev (takeWhile (\<lambda>c. c \<noteq> CHR ''-'') (rev name))) index0)"

definition fld_local_lookup :: "lu_server_fld \<Rightarrow> u64 \<Rightarrow> lu_seq_range \<Rightarrow> int \<times> lu_server_fld \<times> lu_seq_range" where
  "fld_local_lookup fld seq rng =
     (let (rc, c, erange) = fld_cache_lookup (lsf_cache fld) seq lu_seq_range_init; fld = fld\<lparr>lsf_cache := c\<rparr> in
      if rc = 0 then
        (if fld_range_type erange \<noteq> fld_range_type rng \<and> \<not> fld_range_is_any rng then (- EIO, fld, rng)
         else (0, fld, erange))
      else (rc, fld, rng))"

text \<open>\<open>p\<close> and \<open>t\<close> are the nodes that the insertion allocates.\<close>

definition fld_server_lookup :: "(string \<Rightarrow> u64) \<Rightarrow> lu_server_fld \<Rightarrow> u64 \<Rightarrow> lu_seq_range \<Rightarrow> nat option \<Rightarrow> nat option \<Rightarrow> rpc_reply list \<Rightarrow>
    fld_stop + int \<times> lu_server_fld \<times> lu_seq_range \<times> rpc_reply list" where
  "fld_server_lookup strtoul fld seq rng p t rs =
     (let (rc, fld, rng) = fld_local_lookup fld seq rng in
      if rc = 0 then Inr (rc, fld, rng, rs)
      else
        (let (rc, index) = fld_name_to_index strtoul (lsf_name fld) 0 in
         if rc < 0 then Inr (rc, fld, rng, rs)
         else if index = 0 \<and> rc = LDD_F_SV_TYPE_MDT then Inr (- ENOENT, fld, rng, rs)
         else if \<not> lsf_control_exp fld then Inr (- EIO, fld, rng, rs)
         else fbind (fld_client_rpc (rng\<lparr>lsr_start := seq\<rparr>) FLD_QUERY None rs) (\<lambda>(rc, rng, _, rs).
           if rc = 0 then fbind (lift_bug (fld_cache_insert (lsf_cache fld) rng p t)) (\<lambda>(_, c).
             Inr (rc, fld\<lparr>lsf_cache := c\<rparr>, rng, rs))
           else Inr (rc, fld, rng, rs))))"

text \<open>The request that carries the range \<open>inr\<close> (\<open>None\<close> is a missing buffer), with the result of packing the reply.\<close>

definition fld_handle_lookup :: "(string \<Rightarrow> u64) \<Rightarrow> lu_server_fld \<Rightarrow> lu_seq_range option \<Rightarrow> int \<Rightarrow> bool \<Rightarrow> nat option \<Rightarrow> nat option \<Rightarrow> rpc_reply list \<Rightarrow>
    fld_stop + int \<times> lu_server_fld \<times> lu_seq_range option \<times> rpc_reply list" where
  "fld_handle_lookup strtoul fld inr pack_rc out_buf p t rs =
     (case inr of
        None \<Rightarrow> fbind (lift_bug (err_serious (- EPROTO))) (\<lambda>rc. Inr (rc, fld, None, rs))
      | Some r \<Rightarrow>
          if pack_rc \<noteq> 0 then fbind (lift_bug (err_serious pack_rc)) (\<lambda>rc. Inr (rc, fld, None, rs))
          else if \<not> out_buf then fbind (lift_bug (err_serious (- EPROTO))) (\<lambda>rc. Inr (rc, fld, None, rs))
          else fbind (fld_server_lookup strtoul fld (lsr_start r) r p t rs) (\<lambda>(rc, fld, out, rs). Inr (rc, fld, Some out, rs)))"

definition fid_is_local :: "lu_client_fld option \<Rightarrow> u32 \<Rightarrow> lu_fid \<Rightarrow> bool \<times> lu_client_fld option" where
  "fid_is_local client ss_node_id fid =
     (case client of
        None \<Rightarrow> (True, None)
      | Some cl \<Rightarrow>
          (let (rc, c, rng) = fld_cache_lookup (lcf_cache cl) (f_seq fid) lu_seq_range_init in
           (if rc = 0 then lsr_index rng = ss_node_id else True, Some (cl\<lparr>lcf_cache := c\<rparr>))))"

section \<open>The lookup of a client\<close>

text \<open>
  The loop over the targets, from the one that the hash chose around the list. The result has the
  targets as the loop left them, since a local server fills its cache. \<open>nodes\<close> are the nodes for
  the caches of local servers, a pair for each target.
\<close>

fun lookup_ring :: "(string \<Rightarrow> u64) \<Rightarrow> u64 \<Rightarrow> u32 \<Rightarrow> lu_fld_target list \<Rightarrow> lu_seq_range \<Rightarrow> (nat option \<times> nat option) list \<Rightarrow> rpc_reply list \<Rightarrow>
    fld_stop + int \<times> lu_fld_target list \<times> lu_seq_range \<times> rpc_reply list" where
  "lookup_ring strtoul seq flags [] res nodes rs = Inr (- ESHUTDOWN, [], res, rs)"
| "lookup_ring strtoul seq flags (target # ring) res nodes rs =
     (let res = fld_range_set_type (res\<lparr>lsr_start := seq\<rparr>) flags;
          (p, t) = (case nodes of [] \<Rightarrow> (None, None) | n # _ \<Rightarrow> n) in
      fbind (case ft_srv target of
               Some srv \<Rightarrow> fbind (fld_server_lookup strtoul srv seq res p t rs) (\<lambda>(rc, srv, res, rs).
                 Inr (rc, target\<lparr>ft_srv := Some srv\<rparr>, res, rs))
             | None \<Rightarrow>
                 if \<not> ft_exp target then Inl Bug
                 else fbind (fld_client_rpc res FLD_QUERY None rs) (\<lambda>(rc, res, _, rs). Inr (rc, target, res, rs)))
        (\<lambda>(rc, target, res, rs).
           if rc = - ESHUTDOWN \<and> ring \<noteq> [] then
             fbind (lookup_ring strtoul seq flags ring res (tl nodes) rs) (\<lambda>(rc, ring, res, rs). Inr (rc, target # ring, res, rs))
           else Inr (rc, target # ring, res, rs)))"

definition fld_client_lookup :: "(string \<Rightarrow> u64) \<Rightarrow> lu_client_fld \<Rightarrow> u64 \<Rightarrow> u32 \<Rightarrow> nat option \<Rightarrow> nat option \<Rightarrow> (nat option \<times> nat option) list \<Rightarrow>
    rpc_reply list \<Rightarrow> fld_stop + int \<times> u32 option \<times> lu_client_fld" where
  "fld_client_lookup strtoul fld seq flags p t nodes rs =
     (let (rc, c, res) = fld_cache_lookup (lcf_cache fld) seq lu_seq_range_init; fld = fld\<lparr>lcf_cache := c\<rparr> in
      if rc = 0 then Inr (0, Some (lsr_index res), fld)
      else fbind (lift_bug (fld_client_get_target fld seq)) (\<lambda>i.
        fbind (lookup_ring strtoul seq flags (drop i (lcf_targets fld) @ take i (lcf_targets fld)) res nodes rs) (\<lambda>(rc, ring, res, rs).
          let n = length ring; fld = fld\<lparr>lcf_targets := drop (n - i) ring @ take (n - i) ring\<rparr> in
          if rc = 0 then fbind (lift_bug (fld_cache_insert (lcf_cache fld) res p t)) (\<lambda>(_, c).
            Inr (rc, Some (lsr_index res), fld\<lparr>lcf_cache := c\<rparr>))
          else Inr (rc, None, fld))))"

section \<open>The index\<close>

text \<open>
  The answers of the storage stack to one insertion: whether the device is read-only, the results
  of creating the transaction, of declaring the deletion and the insertion, of starting it, of the
  deletion and the insertion, and the nodes that the cache allocates.
\<close>

record fld_io =
  fio_rdonly :: bool
  fio_create :: int
  fio_decl_del :: int
  fio_decl_ins :: int
  fio_start :: int
  fio_del :: int
  fio_ins :: int
  fio_node :: "nat option"
  fio_tail :: "nat option"

text \<open>A successful \<open>dt_insert\<close> and \<open>dt_delete\<close> on the records in the order of their keys.\<close>

fun idx_insert :: "lu_seq_range \<Rightarrow> lu_seq_range list \<Rightarrow> lu_seq_range list" where
  "idx_insert r [] = [r]"
| "idx_insert r (x # xs) = (if lsr_start r < lsr_start x then r # x # xs else x # idx_insert r xs)"

definition idx_delete :: "u64 \<Rightarrow> lu_seq_range list \<Rightarrow> lu_seq_range list" where
  "idx_delete key xs = filter (\<lambda>x. lsr_start x \<noteq> key) xs"

definition fld_index_lookup :: "lu_server_fld \<Rightarrow> u64 \<Rightarrow> lu_seq_range \<Rightarrow> int \<times> lu_server_fld \<times> lu_seq_range" where
  "fld_index_lookup fld seq rng =
     (let (rc, c, fld_rec) = fld_cache_lookup (lsf_cache fld) seq lu_seq_range_init; fld = fld\<lparr>lsf_cache := c\<rparr> in
      if rc = 0 then (if lu_seq_range_within fld_rec seq then 0 else - ENOENT, fld, fld_rec) else (rc, fld, rng))"

definition fld_merges :: "lu_seq_range \<Rightarrow> lu_seq_range \<Rightarrow> bool" where
  "fld_merges new_range rng \<longleftrightarrow>
     lsr_start new_range = lsr_end rng \<and> lsr_end rng \<noteq> 0 \<and> \<not> lu_seq_range_compare_loc new_range rng"

definition fld_declare_index_create :: "fld_io \<Rightarrow> lu_server_fld \<Rightarrow> lu_seq_range \<Rightarrow> (int \<times> lu_server_fld) option" where
  "fld_declare_index_create io fld new_range =
     (let (rc, fld, rng) = fld_index_lookup fld (lsr_start new_range) lu_seq_range_init in
      if rc = 0 then do { LASSERT (\<not> lu_seq_range_compare_loc new_range rng); Some (- EEXIST, fld) }
      else if rc \<noteq> - ENOENT then Some (rc, fld)
      else if fld_merges new_range rng \<and> fio_decl_del io \<noteq> 0 then Some (fio_decl_del io, fld)
      else Some (fio_decl_ins io, fld))"

definition fld_index_create :: "fld_io \<Rightarrow> lu_server_fld \<Rightarrow> lu_seq_range \<Rightarrow> (int \<times> lu_server_fld) option" where
  "fld_index_create io fld new_range =
     (let (rc, fld, rng) = fld_index_lookup fld (lsr_start new_range) lu_seq_range_init in
      if rc \<noteq> - ENOENT then Some (if rc = 0 then - EEXIST else rc, fld)
      else
        (let deleted = fld_merges new_range rng in
         if deleted \<and> fio_del io \<noteq> 0 then Some (fio_del io, fld)
         else
           (let tmp = (if deleted then new_range\<lparr>lsr_start := lsr_start rng\<rparr> else new_range);
                obj1 = map_option (\<lambda>xs. if deleted then idx_delete (lsr_start rng) xs else xs) (lsf_obj fld);
                fld1 = fld\<lparr>lsf_obj := obj1\<rparr> in
            if fio_ins io \<noteq> 0 then Some (fio_ins io, fld1)
            else do {
              let fld2 = fld1\<lparr>lsf_obj := map_option (idx_insert tmp) obj1\<rparr>;
              flde \<leftarrow> fld_cache_entry_create new_range (fio_node io);
              (case flde of
                 Inl rc \<Rightarrow> Some (rc, fld2)
               | Inr flde \<Rightarrow> do {
                   let c = (if deleted then fld_cache_delete_nolock (lsf_cache fld2) new_range else lsf_cache fld2);
                   (rc, c) \<leftarrow> fld_cache_insert_nolock c flde (fio_tail io);
                   Some (rc, fld2\<lparr>lsf_cache := c\<rparr>)
                 })
            })))"

text \<open>The callers of \<open>fld_index_create\<close> hold \<open>lsf_lock\<close>.\<close>

definition fld_server_create :: "fld_io \<Rightarrow> lu_server_fld \<Rightarrow> lu_seq_range \<Rightarrow> (int \<times> lu_server_fld) option" where
  "fld_server_create io fld rng = fld_index_create io fld rng"

definition fld_declare_server_create :: "fld_io \<Rightarrow> lu_server_fld \<Rightarrow> lu_seq_range \<Rightarrow> (int \<times> lu_server_fld) option" where
  "fld_declare_server_create io fld rng = fld_declare_index_create io fld rng"

definition fld_insert_entry :: "fld_io \<Rightarrow> lu_server_fld \<Rightarrow> lu_seq_range \<Rightarrow> (int \<times> lu_server_fld) option" where
  "fld_insert_entry io fld rng =
     (if fio_rdonly io then Some (0, fld)
      else if fio_create io \<noteq> 0 then Some (fio_create io, fld)
      else do {
        (rc, fld) \<leftarrow> fld_declare_index_create io fld rng;
        if rc \<noteq> 0 then Some (if rc = - EEXIST then 0 else rc, fld)
        else if fio_start io \<noteq> 0 then Some (fio_start io, fld)
        else do {
          (rc, fld) \<leftarrow> fld_index_create io fld rng;
          Some (if rc = - EEXIST then 0 else rc, fld)
        }
      })"

definition IGIF_FLD_RANGE :: lu_seq_range where
  "IGIF_FLD_RANGE = \<lparr>lsr_start = FID_SEQ_IGIF, lsr_end = FID_SEQ_IGIF_MAX + 1, lsr_index = 0, lsr_flags = LU_SEQ_RANGE_MDT\<rparr>"

definition DOT_LUSTRE_FLD_RANGE :: lu_seq_range where
  "DOT_LUSTRE_FLD_RANGE = \<lparr>lsr_start = FID_SEQ_DOT_LUSTRE, lsr_end = FID_SEQ_DOT_LUSTRE + 1, lsr_index = 0, lsr_flags = LU_SEQ_RANGE_MDT\<rparr>"

definition ROOT_FLD_RANGE :: lu_seq_range where
  "ROOT_FLD_RANGE = \<lparr>lsr_start = FID_SEQ_ROOT, lsr_end = FID_SEQ_ROOT + 1, lsr_index = 0, lsr_flags = LU_SEQ_RANGE_MDT\<rparr>"

definition fld_insert_special_entries :: "fld_io \<Rightarrow> fld_io \<Rightarrow> fld_io \<Rightarrow> lu_server_fld \<Rightarrow> (int \<times> lu_server_fld) option" where
  "fld_insert_special_entries io1 io2 io3 fld = do {
     (rc, fld) \<leftarrow> fld_insert_entry io1 fld IGIF_FLD_RANGE;
     if rc \<noteq> 0 then Some (rc, fld)
     else do {
       (rc, fld) \<leftarrow> fld_insert_entry io2 fld DOT_LUSTRE_FLD_RANGE;
       if rc \<noteq> 0 then Some (rc, fld) else fld_insert_entry io3 fld ROOT_FLD_RANGE
     }
   }"

text \<open>
  The records that an iterator yields: each with the result of reading it, the nodes for the cache
  and the result of the step to the next one (positive at the end of the index).
\<close>

record fld_it_step =
  its_rec_rc :: int
  its_rec :: lu_seq_range
  its_node :: "nat option"
  its_tail :: "nat option"
  its_next_rc :: int

text \<open>
  The loop of \<open>fld_index_init\<close> that loads the records. The result is whether the loop ran to the
  end of the index, the return code, the cache and the number of ranges loaded.
\<close>

fun load_loop :: "fld_it_step list \<Rightarrow> fld_cache \<Rightarrow> nat \<Rightarrow> (bool \<times> int \<times> fld_cache \<times> nat) option" where
  "load_loop [] cache n = Some (True, 0, cache, n)"
| "load_loop (x # xs) cache n =
     (if its_rec_rc x \<noteq> 0 then Some (False, its_rec_rc x, cache, n)
      else do {
        (rc, cache) \<leftarrow> (if lsr_start (its_rec x) < lsr_end (its_rec x)
                          then fld_cache_insert cache (its_rec x) (its_node x) (its_tail x) else Some (0, cache));
        let n = (if lsr_start (its_rec x) < lsr_end (its_rec x) then n + 1 else n);
        if rc \<noteq> 0 then Some (False, rc, cache, n)
        else if its_next_rc x < 0 then Some (False, its_next_rc x, cache, n)
        else if its_next_rc x = 0 then load_loop xs cache n
        else Some (True, 0, cache, n)
      })"

record fld_init_io =
  fin_attr :: bool
  fin_locate :: int
  fin_exists :: bool
  fin_create :: int
  fin_try :: int
  fin_it :: int
  fin_load :: int
  fin_next :: int

definition fld_index_init :: "(string \<Rightarrow> u64) \<Rightarrow> fld_init_io \<Rightarrow> fld_it_step list \<Rightarrow> fld_io \<Rightarrow> fld_io \<Rightarrow> fld_io \<Rightarrow> u32 \<Rightarrow> lu_server_fld \<Rightarrow>
    (int \<times> lu_server_fld) option" where
  "fld_index_init strtoul fin steps io1 io2 io3 type fld =
     (let fail = (\<lambda>rc fld. Some (rc, if rc < 0 then fld\<lparr>lsf_obj := None\<rparr> else fld));
          fld1 = (if fin_exists fin then fld else fld\<lparr>lsf_new := True\<rparr>);
          fld2 = fld1\<lparr>lsf_obj := Some (map its_rec steps)\<rparr>;
          rc0 = (if fin_load fin > 0 then 0 else if fin_load fin = 0 then fin_next fin else fin_load fin) in
      if \<not> fin_attr fin then Some (- ENOMEM, fld)
      else if fin_locate fin \<noteq> 0 then fail (fin_locate fin) fld
      else if \<not> fin_exists fin \<and> fin_create fin \<noteq> 0 then fail (fin_create fin) fld1
      else if fin_try fin \<noteq> 0 then fail (fin_try fin) fld2
      else if fin_it fin \<noteq> 0 then fail (fin_it fin) fld2
      else if rc0 < 0 then fail rc0 fld2
      else do {
        (ok, rc, c, n) \<leftarrow> load_loop (if rc0 = 0 then steps else []) (lsf_cache fld2) 0;
        let fld3 = fld2\<lparr>lsf_cache := c\<rparr>;
        if \<not> ok then fail rc fld3
        else
          (let fld4 = (if n = 0 then fld3\<lparr>lsf_new := True\<rparr> else fld3);
               (nrc, index) = fld_name_to_index strtoul (lsf_name fld4) 0 in
           if nrc < 0 then fail nrc fld4
           else if index = 0 \<and> type = LU_SEQ_RANGE_MDT then
             do { (rc, fld5) \<leftarrow> fld_insert_special_entries io1 io2 io3 fld4; fail rc fld5 }
           else Some (0, fld4))
      })"

definition fld_index_fini :: "lu_server_fld \<Rightarrow> lu_server_fld" where
  "fld_index_fini fld = fld\<lparr>lsf_obj := None\<rparr>"

text \<open>The bytes of an array of \<open>n\<close> ranges: \<open>offsetof\<close> of its entry \<open>n\<close>.\<close>

definition lsra_bytes :: "nat \<Rightarrow> nat" where
  "lsra_bytes n = 8 + 24 * n"

fun read_loop :: "lu_seq_range \<Rightarrow> nat \<Rightarrow> fld_it_step list \<Rightarrow> lu_seq_range list \<Rightarrow> int \<times> lu_seq_range list" where
  "read_loop rng data_len [] lsra = (0, lsra)"
| "read_loop rng data_len (x # xs) lsra =
     (if its_rec_rc x \<noteq> 0 then (its_rec_rc x, lsra)
      else if lsra_bytes (length lsra + 1) > data_len then (- EAGAIN, lsra)
      else
        (let entry = its_rec x;
             lsra = (if lsr_index entry = lsr_index rng \<and> lsr_flags entry = lsr_flags rng \<and> lsr_start entry > lsr_start rng
                     then lsra @ [entry] else lsra) in
         if its_next_rc x = 0 then read_loop rng data_len xs lsra
         else (if its_next_rc x > 0 then 0 else its_next_rc x, lsra)))"

text \<open>\<open>steps\<close> are the records from the position that \<open>load\<close> found on.\<close>

definition fld_server_read :: "int \<Rightarrow> int \<Rightarrow> fld_it_step list \<Rightarrow> lu_seq_range \<Rightarrow> nat \<Rightarrow> int \<times> lu_seq_range list" where
  "fld_server_read it_rc load_rc steps rng data_len =
     (if it_rc \<noteq> 0 then (it_rc, []) else if load_rc \<le> 0 then (load_rc, []) else read_loop rng data_len steps [])"

definition fld_handle_read :: "lu_seq_range option \<Rightarrow> int \<Rightarrow> int \<Rightarrow> int \<Rightarrow> fld_it_step list \<Rightarrow>
    (int \<times> lu_seq_range list) option" where
  "fld_handle_read inr pack_rc it_rc load_rc steps =
     (case inr of
        None \<Rightarrow> do { rc \<leftarrow> err_serious (- EPROTO); Some (rc, []) }
      | Some r \<Rightarrow>
          if pack_rc \<noteq> 0 then do { rc \<leftarrow> err_serious pack_rc; Some (rc, []) }
          else Some (fld_server_read it_rc load_rc steps r 4096))"

section \<open>Start and synchronisation of a server\<close>

definition fld_server_init :: "(string \<Rightarrow> u64) \<Rightarrow> bool \<Rightarrow> fld_init_io \<Rightarrow> fld_it_step list \<Rightarrow> fld_io \<Rightarrow> fld_io \<Rightarrow> fld_io \<Rightarrow> int \<Rightarrow> string \<Rightarrow> u32 \<Rightarrow>
    (int \<times> lu_server_fld option) option" where
  "fld_server_init strtoul alloc fin steps io1 io2 io3 debugfs_rc prefix type =
     (let cache_size = FLD_SERVER_CACHE_SIZE div sizeof_fld_cache_entry;
          cache_threshold = cache_size * FLD_SERVER_CACHE_THRESHOLD div 100 in do {
      c \<leftarrow> fld_cache_init alloc cache_size cache_threshold;
      (case c of
         Inl rc \<Rightarrow> Some (rc, None)
       | Inr cache \<Rightarrow> do {
           (rc, fld) \<leftarrow> fld_index_init strtoul fin steps io1 io2 io3 type
              \<lparr>lsf_name = take 79 (''srv-'' @ prefix), lsf_obj = None, lsf_control_exp = False, lsf_cache = cache, lsf_new = False\<rparr>;
           Some (if rc \<noteq> 0 then (rc, None)
                 else if debugfs_rc \<noteq> 0 then (debugfs_rc, None)
                 else (0, Some (fld\<lparr>lsf_control_exp := False\<rparr>)))
         })
     })"

definition fld_server_fini :: "lu_server_fld \<Rightarrow> lu_server_fld" where
  "fld_server_fini fld = (let fld = fld_index_fini fld in fld\<lparr>lsf_cache := fst (fld_cache_fini (lsf_cache fld))\<rparr>)"

text \<open>The loop over the ranges of one reply; \<open>ios k\<close> are the answers of the storage stack to the \<open>k\<close>-th insertion.\<close>

fun update_entries :: "u32 \<Rightarrow> (nat \<Rightarrow> fld_io) \<Rightarrow> nat \<Rightarrow> lu_seq_range list \<Rightarrow> lu_server_fld \<Rightarrow> (int \<times> nat \<times> lu_server_fld) option" where
  "update_entries index ios k [] fld = Some (0, k, fld)"
| "update_entries index ios k (r # lsra) fld =
     (if lsr_flags r \<noteq> LU_SEQ_RANGE_MDT then Some (- EINVAL, k, fld)
      else if lsr_index r \<noteq> index then Some (- EINVAL, k, fld)
      else do {
        (rc1, fld) \<leftarrow> fld_insert_entry (ios k) fld r;
        if rc1 \<noteq> 0 then Some (rc1, k + 1, fld) else update_entries index ios (k + 1) lsra fld
      })"

lemma fld_client_rpc_rest:
  "fld_client_rpc rng op req0 rs = Inr (rc, rng', req, rs') \<Longrightarrow> op = FLD_READ \<or> op = FLD_QUERY \<Longrightarrow> length rs' < length rs"
proof (induction rng op req0 rs rule: fld_client_rpc.induct)
  case (2 rng op req0 r rs)
  then show ?case by (auto split: if_split_asm option.split_asm)
qed auto

text \<open>
  The loop of \<open>fld_update_from_controller\<close>. The result has the request that is released at the end;
  \<open>req0\<close> is what the uninitialised variable held.
\<close>

function update_loop :: "u32 \<Rightarrow> (nat \<Rightarrow> fld_io) \<Rightarrow> nat \<Rightarrow> lu_seq_range \<Rightarrow> rpc_reply option \<Rightarrow> rpc_reply list \<Rightarrow> lu_server_fld \<Rightarrow>
    fld_stop + int \<times> rpc_reply option \<times> lu_server_fld" where
  "update_loop index ios k rng req0 rs fld =
     (case fld_client_rpc rng FLD_READ req0 rs of
        Inl e \<Rightarrow> Inl e
      | Inr (rc, rng, req, rs') \<Rightarrow>
          if rc \<noteq> 0 \<and> rc \<noteq> - EAGAIN then Inr (rc, req, fld)
          else if req = None then Inl Bug
          else
            (case rr_data (the req) of
               None \<Rightarrow> Inr (- EPROTO, req, fld)
             | Some lsra \<Rightarrow>
                 (case update_entries index ios k lsra fld of
                    None \<Rightarrow> Inl Bug
                  | Some (rc1, k, fld) \<Rightarrow>
                      if rc1 \<noteq> 0 then Inr (rc1, req, fld)
                      else if rc = - EAGAIN then
                        (if lsra = [] then Inl Bug else update_loop index ios k (last lsra) req rs' fld)
                      else Inr (rc, req, fld\<lparr>lsf_new := True\<rparr>))))"
  by pat_completeness auto
termination
  by (relation "measure (\<lambda>(index, ios, k, rng, req0, rs, fld). length rs)") (auto dest: fld_client_rpc_rest)

declare update_loop.simps [simp del]

definition fld_update_from_controller :: "(string \<Rightarrow> u64) \<Rightarrow> (nat \<Rightarrow> fld_io) \<Rightarrow> rpc_reply option \<Rightarrow> rpc_reply list \<Rightarrow> lu_server_fld \<Rightarrow>
    fld_stop + int \<times> rpc_reply option \<times> lu_server_fld" where
  "fld_update_from_controller strtoul ios req0 rs fld =
     (if \<not> lsf_new fld then Inr (0, None, fld)
      else
        (let (rc, index) = fld_name_to_index strtoul (lsf_name fld) 0 in
         if rc < 0 then Inr (rc, None, fld)
         else if index = 0 then Inr (0, None, fld)
         else if \<not> lsf_control_exp fld then Inl Bug
         else update_loop index ios 0 (fld_range_set_mdt (lu_seq_range_init\<lparr>lsr_index := index\<rparr>)) req0 rs fld))"

lemma fbind_simps [simp]: "fbind (Inl e) f = Inl e" "fbind (Inr x) f = f x"
  by (simp_all add: fbind_def)

lemma lift_bug_simps [simp]: "lift_bug None = Inl Bug" "lift_bug (Some x) = Inr x"
  by (simp_all add: lift_bug_def)

section \<open>Caches that agree with the locations\<close>

text \<open>
  \<open>loc\<close> is the location of every sequence, as the controller has assigned it. A cache is coherent
  when all it maps is so located; a range is right when all its sequences are located at its target.
\<close>

definition coherent :: "(u64 \<Rightarrow> (u32 \<times> u32) option) \<Rightarrow> fld_cache \<Rightarrow> bool" where
  "coherent loc cache \<longleftrightarrow> fld_cache_wf cache \<and> (\<forall>s v. fld_abs (fci_entries cache) s = Some v \<longrightarrow> loc s = Some v)"

definition range_right :: "(u64 \<Rightarrow> (u32 \<times> u32) option) \<Rightarrow> lu_seq_range \<Rightarrow> bool" where
  "range_right loc r \<longleftrightarrow> lsr_start r < lsr_end r \<and> (\<forall>s. lu_seq_range_within r s \<longrightarrow> loc s = Some (lsr_index r, lsr_flags r))"

lemma fld_abs_mem:
  "fld_sorted xs \<Longrightarrow> e \<in> set xs \<Longrightarrow> lu_seq_range_within (fce_range e) s \<Longrightarrow> fld_abs xs s = Some (eindex e, eflags e)"
proof (induction xs)
  case (Cons c xs)
  show ?case
  proof (cases "e = c")
    case False
    then have "e \<in> set xs" using Cons.prems(2) by simp
    moreover from this have "eend c \<le> estart e" using Cons.prems(1) by simp
    ultimately show ?thesis using Cons by (auto simp: lu_seq_range_within_def)
  qed (use Cons.prems in simp)
qed simp

lemma coherent_wf: "coherent loc cache \<Longrightarrow> fld_cache_wf cache" "coherent loc cache \<Longrightarrow> fld_sorted (fci_entries cache)"
  by (simp_all add: coherent_def fld_cache_wf_def)

lemma coherent_entry:
  assumes "coherent loc cache" "e \<in> set (fci_entries cache)"
  shows "range_right loc (fce_range e)"
  using assms fld_abs_mem [OF coherent_wf(2) [OF assms(1)] assms(2)] fld_sorted_nonempty [OF coherent_wf(2) [OF assms(1)] assms(2)]
  unfolding coherent_def range_right_def by blast

lemma right_overlap:
  assumes "range_right loc a" "range_right loc b" "lsr_start a < lsr_end b" "lsr_start b < lsr_end a"
  shows "lsr_index a = lsr_index b" "lsr_flags a = lsr_flags b"
proof -
  let ?s = "max (lsr_start a) (lsr_start b)"
  have "lu_seq_range_within a ?s" "lu_seq_range_within b ?s"
    using assms unfolding range_right_def lu_seq_range_within_def by (auto simp: max_def)
  then have "loc ?s = Some (lsr_index a, lsr_flags a)" "loc ?s = Some (lsr_index b, lsr_flags b)"
    using assms(1,2) unfolding range_right_def by blast+
  then show "lsr_index a = lsr_index b" "lsr_flags a = lsr_flags b" by simp_all
qed

text \<open>A right range never splits an entry of a coherent cache.\<close>

lemma coherent_safe:
  assumes "coherent loc cache" "range_right loc r"
  shows "types_apart r (fci_entries cache)" "split_safe r (fci_entries cache)"
    and "e \<in> set (fci_entries cache) \<Longrightarrow> estart e < lsr_start r \<Longrightarrow> lsr_end r < eend e \<Longrightarrow> eindex e = lsr_index r"
proof -
  have ov: "eindex e = lsr_index r" "eflags e = lsr_flags r"
    if "e \<in> set (fci_entries cache)" "estart e < lsr_end r" "lsr_start r < eend e" for e
    using right_overlap [OF coherent_entry [OF assms(1) that(1)] assms(2) that(2,3)] by blast+
  show "types_apart r (fci_entries cache)" unfolding types_apart_def using ov(2) by (meson not_less)
  have r: "lsr_start r < lsr_end r" using assms(2) unfolding range_right_def by blast
  show "split_safe r (fci_entries cache)"
    unfolding split_safe_def using ov(1) r by (meson less_trans less_le_trans)
  show "e \<in> set (fci_entries cache) \<Longrightarrow> estart e < lsr_start r \<Longrightarrow> lsr_end r < eend e \<Longrightarrow> eindex e = lsr_index r"
    using ov(1) r by (meson less_trans)
qed

lemma insert_scan_mem: "insert_scan r prev xs = Inr c \<Longrightarrow> c \<in> set xs"
  by (induction xs arbitrary: prev) (auto simp: Let_def split: if_split_asm)

text \<open>The second node of an insertion is used only for a hole.\<close>

lemma fld_cache_insert_tail:
  assumes "fld_cache_wf cache"
    and "\<And>e. e \<in> set (fci_entries cache) \<Longrightarrow> estart e < lsr_start r \<Longrightarrow> lsr_end r < eend e \<Longrightarrow> eindex e = lsr_index r"
  shows "fld_cache_insert cache r p t = fld_cache_insert cache r p t'"
proof -
  let ?cache = "if \<not> fci_no_shrink cache then fld_cache_shrink cache else cache"
  have sub: "set (fci_entries ?cache) \<subseteq> set (fci_entries cache)" using fld_cache_shrink_spec(4) [OF assms(1)] by auto
  have h: "fld_cache_overlap_handle ?cache c \<lparr>fce_node = q, fce_range = r\<rparr> t =
        fld_cache_overlap_handle ?cache c \<lparr>fce_node = q, fce_range = r\<rparr> t'"
    if "insert_scan r None (fci_entries ?cache) = Inr c" for c q
    using assms(2) [of c] insert_scan_mem [OF that] sub by (auto simp: fld_cache_overlap_handle_def Let_def)
  have "fld_cache_insert_nolock cache \<lparr>fce_node = q, fce_range = r\<rparr> t = fld_cache_insert_nolock cache \<lparr>fce_node = q, fce_range = r\<rparr> t'" for q
    unfolding fld_cache_insert_nolock_def Let_def using h by (auto split: sum.split)
  then show ?thesis
    by (cases p) (simp_all add: fld_cache_insert_def fld_cache_entry_create_def)
qed

text \<open>
  What a user of a location cache relies on: inserting a range that contradicts nothing in the
  cache succeeds, keeps the invariant, locates the sequences of the range and invents nothing.
  \<open>ready\<close> says that the resources of the insertion are fresh and \<open>full\<close> that they were granted.
\<close>

locale location_cache =
  fixes inv :: "'c \<Rightarrow> bool"
    and look :: "'c \<Rightarrow> u64 \<Rightarrow> (u32 \<times> u32) option"
    and ins :: "'c \<Rightarrow> lu_seq_range \<Rightarrow> 'a \<Rightarrow> 'c option"
    and ready :: "'a \<Rightarrow> 'c \<Rightarrow> bool"
    and full :: "'a \<Rightarrow> bool"
  assumes ins_law: "\<lbrakk>inv c; lsr_start r < lsr_end r; ready a c;
      \<And>s v. lu_seq_range_within r s \<Longrightarrow> look c s = Some v \<Longrightarrow> v = (lsr_index r, lsr_flags r)\<rbrakk> \<Longrightarrow>
    \<exists>c'. ins c r a = Some c' \<and> inv c' \<and>
      (\<forall>s v. look c' s = Some v \<longrightarrow> lu_seq_range_within r s \<and> v = (lsr_index r, lsr_flags r) \<or> look c s = Some v) \<and>
      (full a \<longrightarrow> (\<forall>s. lu_seq_range_within r s \<longrightarrow> look c' s = Some (lsr_index r, lsr_flags r)))"
begin

lemma ins_agrees:
  assumes "inv c" "ready a c" "\<And>s v. look c s = Some v \<Longrightarrow> loc s = Some v" "range_right loc r"
  shows "\<exists>c'. ins c r a = Some c' \<and> inv c' \<and> (\<forall>s v. look c' s = Some v \<longrightarrow> loc s = Some v)"
proof -
  have r: "lsr_start r < lsr_end r" "\<And>s. lu_seq_range_within r s \<Longrightarrow> loc s = Some (lsr_index r, lsr_flags r)"
    using assms(4) unfolding range_right_def by blast+
  have "\<exists>c'. ins c r a = Some c' \<and> inv c' \<and>
      (\<forall>s v. look c' s = Some v \<longrightarrow> lu_seq_range_within r s \<and> v = (lsr_index r, lsr_flags r) \<or> look c s = Some v) \<and>
      (full a \<longrightarrow> (\<forall>s. lu_seq_range_within r s \<longrightarrow> look c' s = Some (lsr_index r, lsr_flags r)))"
  proof (rule ins_law [OF assms(1) r(1) assms(2)])
    fix s v assume "lu_seq_range_within r s" "look c s = Some v"
    then show "v = (lsr_index r, lsr_flags r)" using r(2) [of s] assms(3) [of s v] by simp
  qed
  then obtain c' where c': "ins c r a = Some c'" "inv c'"
    "\<And>s v. look c' s = Some v \<Longrightarrow> lu_seq_range_within r s \<and> v = (lsr_index r, lsr_flags r) \<or> look c s = Some v" by blast
  have "loc s = Some v" if "look c' s = Some v" for s v using c'(3) [OF that] r(2) [of s] assms(3) [of s v] by auto
  then show ?thesis using c'(1,2) by blast
qed

text \<open>A new range, apart from all that is located, is located after its insertion.\<close>

lemma ins_fresh:
  assumes "inv c" "ready a c" "full a" "lsr_start r < lsr_end r" "\<And>s. lu_seq_range_within r s \<Longrightarrow> look c s = None"
  shows "\<exists>c'. ins c r a = Some c' \<and> inv c' \<and> (\<forall>s. lu_seq_range_within r s \<longrightarrow> look c' s = Some (lsr_index r, lsr_flags r))"
  using ins_law [OF assms(1,4,2)] assms(3,5) by fastforce

end

text \<open>Such an insertion returns 0 and uses only its first node.\<close>

lemma fld_insert_compat:
  assumes wf: "fld_cache_wf cache" and r: "lsr_start r < lsr_end r" and q: "q \<notin> set (fci_lru cache)"
    and compat: "\<forall>s v. lu_seq_range_within r s \<longrightarrow> fld_abs (fci_entries cache) s = Some v \<longrightarrow> v = (lsr_index r, lsr_flags r)"
  shows "\<exists>c'. fld_cache_insert cache r (Some q) t = Some (0, c') \<and>
    inserted r {q} (if \<not> fci_no_shrink cache then fld_cache_shrink cache else cache) c'"
proof -
  define loc where "loc = fld_update r (fld_abs (fci_entries cache))"
  have c: "coherent loc cache" using wf compat unfolding coherent_def loc_def fld_update_def by auto
  have rr: "range_right loc r" using r unfolding range_right_def loc_def fld_update_def by auto
  note safe = coherent_safe [OF c rr]
  let ?cache = "if \<not> fci_no_shrink cache then fld_cache_shrink cache else cache"
  have ins: "\<exists>c'. fld_cache_insert cache r (Some q) t = Some (0, c') \<and> inserted r {q, t'} ?cache c'"
    if "t' \<notin> insert q (set (fci_lru cache))" for t'
    using fld_cache_insert_spec [OF wf r safe(1,2) q, of t'] that fld_cache_insert_tail [OF wf safe(3), of "Some q" t "Some t'"] by auto
  obtain t1 where t1: "t1 \<notin> insert q (set (fci_lru cache))"
    using ex_new_if_finite [of "insert q (set (fci_lru cache))"] infinite_UNIV_nat by blast
  obtain t2 where t2: "t2 \<notin> insert t1 (insert q (set (fci_lru cache)))"
    using ex_new_if_finite [of "insert t1 (insert q (set (fci_lru cache)))"] infinite_UNIV_nat by blast
  obtain c' where c': "fld_cache_insert cache r (Some q) t = Some (0, c')" "inserted r {q, t1} ?cache c'" using ins [OF t1] by blast
  moreover have "inserted r {q, t2} ?cache c'" using ins [of t2] t2 c'(1) by auto
  ultimately have "inserted r {q} ?cache c'" using t2 unfolding inserted_def by blast
  then show ?thesis using c'(1) by blast
qed

lemma fld_insert_law:
  assumes wf: "fld_cache_wf cache" and r: "lsr_start r < lsr_end r" and p: "\<forall>q. p = Some q \<longrightarrow> q \<notin> set (fci_lru cache)"
    and compat: "\<forall>s v. lu_seq_range_within r s \<longrightarrow> fld_abs (fci_entries cache) s = Some v \<longrightarrow> v = (lsr_index r, lsr_flags r)"
  shows "\<exists>rc c'. fld_cache_insert cache r p t = Some (rc, c') \<and> fld_cache_wf c' \<and>
    (\<forall>s v. fld_abs (fci_entries c') s = Some v \<longrightarrow>
       lu_seq_range_within r s \<and> v = (lsr_index r, lsr_flags r) \<or> fld_abs (fci_entries cache) s = Some v) \<and>
    (p \<noteq> None \<longrightarrow> rc = 0 \<and> (\<forall>s. lu_seq_range_within r s \<longrightarrow> fld_abs (fci_entries c') s = Some (lsr_index r, lsr_flags r)))"
proof (cases p)
  case None
  then show ?thesis using wf r
    by (auto simp: fld_cache_insert_def fld_cache_entry_create_def lu_seq_range_is_sane_def less_imp_le)
next
  case (Some q)
  let ?cache = "if \<not> fci_no_shrink cache then fld_cache_shrink cache else cache"
  have S: "fld_sorted (fci_entries cache)" using wf unfolding fld_cache_wf_def by blast
  have sub: "fld_abs (fci_entries cache) s = Some v" if "fld_abs (fci_entries ?cache) s = Some v" for s v
    using that fld_cache_shrink_spec(4) [OF wf] fld_abs_filter [OF S] by (auto split: if_split_asm)
  obtain c' where c': "fld_cache_insert cache r p t = Some (0, c')" "inserted r {q} ?cache c'"
    using fld_insert_compat [OF wf r p [rule_format, OF Some] compat, of t] Some by blast
  have "fld_cache_wf c'" and abs: "fld_abs (fci_entries c') = fld_update r (fld_abs (fci_entries ?cache))"
    using c'(2) unfolding inserted_def by blast+
  moreover have "lu_seq_range_within r s \<and> v = (lsr_index r, lsr_flags r) \<or> fld_abs (fci_entries cache) s = Some v"
    if "fld_abs (fci_entries c') s = Some v" for s v
    using that sub [of s v] unfolding abs fld_update_def by (cases "lu_seq_range_within r s") (simp_all only: if_True if_False option.inject simp_thms)
  moreover have "fld_abs (fci_entries c') s = Some (lsr_index r, lsr_flags r)" if "lu_seq_range_within r s" for s
    using that unfolding abs fld_update_def by simp
  ultimately show ?thesis using c'(1) by (metis (no_types, lifting))
qed

interpretation flc: location_cache fld_cache_wf "\<lambda>c. fld_abs (fci_entries c)"
  "\<lambda>c r a. map_option snd (fld_cache_insert c r (fst a) (snd a))"
  "\<lambda>a c. \<forall>q. fst a = Some q \<longrightarrow> q \<notin> set (fci_lru c)" "\<lambda>a. fst a \<noteq> None"
proof (unfold_locales, goal_cases)
  case (1 c r a)
  have "\<forall>s v. lu_seq_range_within r s \<longrightarrow> fld_abs (fci_entries c) s = Some v \<longrightarrow> v = (lsr_index r, lsr_flags r)"
    using 1(4) by blast
  from fld_insert_law [OF 1(1-3) this, of "snd a"] show ?case by (elim exE conjE) (intro exI conjI, simp, blast+)
qed

lemma coherent_insert:
  assumes "coherent loc cache" "range_right loc r" "\<And>q. p = Some q \<Longrightarrow> q \<notin> set (fci_lru cache)"
  shows "\<exists>rc c'. fld_cache_insert cache r p t = Some (rc, c') \<and> coherent loc c'"
  using flc.ins_agrees [of cache "(p, t)" loc r] assms unfolding coherent_def by auto

lemma coherent_lookup:
  assumes c: "coherent loc cache" and l: "fld_cache_lookup cache seq r0 = (rc, c', r')"
  shows "coherent loc c'" "fci_lru c' = fci_lru cache" "rc = 0 \<Longrightarrow> range_right loc r' \<and> lu_seq_range_within r' seq" "rc = 0 \<or> rc = - ENOENT"
proof -
  have e: "fci_entries c' = fci_entries cache" "fci_lru c' = fci_lru cache" "fci_cache_count c' = fci_cache_count cache" "rc = 0 \<or> rc = - ENOENT"
    using l by (auto simp: fld_cache_lookup_def Let_def split: prod.split_asm if_split_asm)
  show "coherent loc c'" "fci_lru c' = fci_lru cache" "rc = 0 \<or> rc = - ENOENT"
    using c e by (simp_all add: coherent_def fld_cache_wf_def fld_nodes_def)
  show "range_right loc r' \<and> lu_seq_range_within r' seq" if "rc = 0"
    using lookup_scan_spec [OF coherent_wf(2) [OF c], of seq None] l that coherent_entry [OF c]
    by (auto simp: fld_cache_lookup_def Let_def errno_defs split: option.split_asm prod.split_asm if_split_asm)
qed

section \<open>Lookups keep the caches coherent\<close>

text \<open>The peers answer a lookup of \<open>seq\<close> with right ranges that hold it.\<close>

definition replies_right :: "(u64 \<Rightarrow> (u32 \<times> u32) option) \<Rightarrow> u64 \<Rightarrow> rpc_reply list \<Rightarrow> bool" where
  "replies_right loc seq rs \<longleftrightarrow>
     (\<forall>r \<in> set rs. rr_rc r = 0 \<longrightarrow> (case rr_range r of None \<Rightarrow> True | Some p \<Rightarrow> range_right loc p \<and> lu_seq_range_within p seq))"

lemma replies_right_Cons [simp]:
  "replies_right loc seq (r # rs) \<longleftrightarrow>
     (rr_rc r = 0 \<longrightarrow> (case rr_range r of None \<Rightarrow> True | Some p \<Rightarrow> range_right loc p \<and> lu_seq_range_within p seq)) \<and> replies_right loc seq rs"
  by (simp add: replies_right_def)

lemma fld_client_rpc_right:
  "replies_right loc seq rs \<Longrightarrow>
   (case fld_client_rpc rng FLD_QUERY req0 rs of
      Inl e \<Rightarrow> e = Wait
    | Inr (rc, rng', req, rs') \<Rightarrow> replies_right loc seq rs' \<and> (rc = 0 \<longrightarrow> range_right loc rng' \<and> lu_seq_range_within rng' seq))"
proof (induction rs)
  case Nil
  then show ?case by simp
next
  case (Cons r rs)
  then show ?case by (auto simp: errno_defs split: option.split_asm option.split)
qed

definition node_fresh :: "nat option \<Rightarrow> fld_cache \<Rightarrow> bool" where
  "node_fresh p cache \<longleftrightarrow> (case p of None \<Rightarrow> True | Some q \<Rightarrow> q \<notin> set (fci_lru cache))"

lemma fld_local_lookup_right:
  assumes c: "coherent loc (lsf_cache fld)" and l: "fld_local_lookup fld seq rng = (rc, fld', rng')"
  shows "coherent loc (lsf_cache fld')" "fci_lru (lsf_cache fld') = fci_lru (lsf_cache fld)"
    "rc = 0 \<Longrightarrow> range_right loc rng' \<and> lu_seq_range_within rng' seq"
proof -
  obtain rc0 c' er where f: "fld_cache_lookup (lsf_cache fld) seq lu_seq_range_init = (rc0, c', er)" by (metis prod_cases3)
  note k = coherent_lookup [OF c f]
  have "fld' = fld\<lparr>lsf_cache := c'\<rparr>" "rc = 0 \<Longrightarrow> rc0 = 0 \<and> rng' = er"
    using l f k(4) by (auto simp: fld_local_lookup_def Let_def errno_defs split: if_split_asm)
  then show "coherent loc (lsf_cache fld')" "fci_lru (lsf_cache fld') = fci_lru (lsf_cache fld)"
    "rc = 0 \<Longrightarrow> range_right loc rng' \<and> lu_seq_range_within rng' seq"
    using k by simp_all
qed

lemma fld_server_lookup_right:
  assumes c: "coherent loc (lsf_cache fld)" and p: "node_fresh p (lsf_cache fld)" and rs: "replies_right loc seq rs"
  shows "case fld_server_lookup strtoul fld seq rng p t rs of
      Inl e \<Rightarrow> e = Wait
    | Inr (rc, fld', rng', rs') \<Rightarrow> coherent loc (lsf_cache fld') \<and> replies_right loc seq rs' \<and>
        (rc = 0 \<longrightarrow> range_right loc rng' \<and> lu_seq_range_within rng' seq)"
proof -
  obtain rc fld1 rng1 where l: "fld_local_lookup fld seq rng = (rc, fld1, rng1)" by (metis prod_cases3)
  note k = fld_local_lookup_right [OF c l]
  obtain nrc index where n: "fld_name_to_index strtoul (lsf_name fld1) 0 = (nrc, index)" by fastforce
  show ?thesis
  proof (cases "rc = 0 \<or> nrc < 0 \<or> index = 0 \<and> nrc = LDD_F_SV_TYPE_MDT \<or> \<not> lsf_control_exp fld1")
    case True
    then show ?thesis using l k rs n by (auto simp: fld_server_lookup_def errno_defs)
  next
    case False
    note q = fld_client_rpc_right [OF rs, of "rng1\<lparr>lsr_start := seq\<rparr>" None]
    have fr: "\<And>q. p = Some q \<Longrightarrow> q \<notin> set (fci_lru (lsf_cache fld1))" using p k(2) by (simp add: node_fresh_def)
    show ?thesis
    proof (cases "fld_client_rpc (rng1\<lparr>lsr_start := seq\<rparr>) FLD_QUERY None rs")
      case (Inl e)
      then show ?thesis using False l n q by (auto simp: fld_server_lookup_def)
    next
      case (Inr x)
      obtain rc2 rng2 req rs2 where x: "x = (rc2, rng2, req, rs2)" by (metis prod_cases4)
      show ?thesis
      proof (cases "rc2 = 0")
        case True
        then have "range_right loc rng2" using q Inr x by simp
        from coherent_insert [OF k(1) this fr] obtain rc3 c3 where
          "fld_cache_insert (lsf_cache fld1) rng2 p t = Some (rc3, c3)" "coherent loc c3" by blast
        then show ?thesis using False l n q Inr x True by (auto simp: fld_server_lookup_def)
      next
        case ne: False
        then show ?thesis using False l n q Inr x k(1) by (auto simp: fld_server_lookup_def)
      qed
    qed
  qed
qed

text \<open>The targets of the loop: each has an export, or a local server with a coherent cache and fresh nodes.\<close>

fun ring_ok :: "(u64 \<Rightarrow> (u32 \<times> u32) option) \<Rightarrow> lu_fld_target list \<Rightarrow> (nat option \<times> nat option) list \<Rightarrow> bool" where
  "ring_ok loc [] nodes \<longleftrightarrow> True"
| "ring_ok loc (target # ring) nodes \<longleftrightarrow>
     (case ft_srv target of
        None \<Rightarrow> ft_exp target
      | Some srv \<Rightarrow> coherent loc (lsf_cache srv) \<and> node_fresh (case nodes of [] \<Rightarrow> None | n # _ \<Rightarrow> fst n) (lsf_cache srv)) \<and>
     ring_ok loc ring (tl nodes)"

text \<open>The caches of the local servers among the targets agree with the locations.\<close>

definition servers_coherent :: "(u64 \<Rightarrow> (u32 \<times> u32) option) \<Rightarrow> lu_fld_target list \<Rightarrow> bool" where
  "servers_coherent loc ts \<longleftrightarrow> (\<forall>target \<in> set ts. \<forall>srv. ft_srv target = Some srv \<longrightarrow> coherent loc (lsf_cache srv))"

lemma servers_coherent_simps [simp]:
  "servers_coherent loc []"
  "servers_coherent loc (target # ts) \<longleftrightarrow> (\<forall>srv. ft_srv target = Some srv \<longrightarrow> coherent loc (lsf_cache srv)) \<and> servers_coherent loc ts"
  by (auto simp: servers_coherent_def)

lemma ring_ok_coherent: "ring_ok loc ring nodes \<Longrightarrow> servers_coherent loc ring"
  by (induction ring arbitrary: nodes) (auto split: option.split_asm)

lemma servers_coherent_rotate:
  "servers_coherent loc (drop n ts @ take n ts) = servers_coherent loc ts"
proof -
  have "set (drop n ts @ take n ts) = set ts" by (metis append_take_drop_id set_append sup_commute)
  then show ?thesis by (simp add: servers_coherent_def)
qed

lemma lookup_ring_right:
  "ring_ok loc ring nodes \<Longrightarrow> replies_right loc seq rs \<Longrightarrow>
   (case lookup_ring strtoul seq flags ring res nodes rs of
      Inl e \<Rightarrow> e = Wait
    | Inr (rc, ring', res', rs') \<Rightarrow> servers_coherent loc ring' \<and> (rc = 0 \<longrightarrow> range_right loc res' \<and> lu_seq_range_within res' seq))"
proof (induction ring arbitrary: res nodes rs)
  case Nil
  then show ?case by (simp add: errno_defs)
next
  case (Cons target ring)
  obtain p t where pt: "(case nodes of [] \<Rightarrow> (None, None) | n # _ \<Rightarrow> n) = (p, t)" by fastforce
  let ?res = "fld_range_set_type (res\<lparr>lsr_start := seq\<rparr>) flags"
  define call where "call = (case ft_srv target of
      Some srv \<Rightarrow> fbind (fld_server_lookup strtoul srv seq ?res p t rs) (\<lambda>(rc, srv, res, rs).
        Inr (rc, target\<lparr>ft_srv := Some srv\<rparr>, res, rs))
    | None \<Rightarrow> if \<not> ft_exp target then Inl Bug
        else fbind (fld_client_rpc ?res FLD_QUERY None rs) (\<lambda>(rc, res, _, rs). Inr (rc, target, res, rs)))"
  have call: "case call of Inl e \<Rightarrow> e = Wait
    | Inr (rc, target', res', rs') \<Rightarrow> replies_right loc seq rs' \<and> servers_coherent loc [target'] \<and>
        (rc = 0 \<longrightarrow> range_right loc res' \<and> lu_seq_range_within res' seq)"
  proof (cases "ft_srv target")
    case None
    then show ?thesis
      using Cons.prems fld_client_rpc_right [OF Cons.prems(2), of ?res None] unfolding call_def
      by (auto split: sum.split_asm prod.split_asm)
  next
    case (Some srv)
    have c: "coherent loc (lsf_cache srv)" and f: "node_fresh p (lsf_cache srv)"
      using Cons.prems(1) Some pt by (auto split: list.split_asm)
    show ?thesis
      using fld_server_lookup_right [OF c f Cons.prems(2), of strtoul ?res t] Some unfolding call_def
      by (auto split: sum.split_asm prod.split_asm)
  qed
  have unf: "lookup_ring strtoul seq flags (target # ring) res nodes rs =
    fbind call (\<lambda>(rc, target, res, rs).
      if rc = - ESHUTDOWN \<and> ring \<noteq> [] then
        fbind (lookup_ring strtoul seq flags ring res (tl nodes) rs) (\<lambda>(rc, ring, res, rs). Inr (rc, target # ring, res, rs))
      else Inr (rc, target # ring, res, rs))"
    unfolding call_def lookup_ring.simps Let_def pt prod.case ..
  show ?case
  proof (cases call)
    case (Inl e)
    then show ?thesis using call unfolding unf by simp
  next
    case (Inr x)
    obtain rc target' res' rs' where x: "x = (rc, target', res', rs')" by (metis prod_cases4)
    have rs': "replies_right loc seq rs'" using call Inr x by simp
    have ok: "ring_ok loc ring (tl nodes)" using Cons.prems(1) by simp
    show ?thesis
      using Cons.IH [OF ok rs', of res'] call ring_ok_coherent [OF ok] unfolding unf Inr x
      by (auto split: sum.split_asm prod.split_asm)
  qed
qed

lemma fld_server_lookup_cached:
  assumes wf: "fld_cache_wf (lsf_cache fld)" and a: "fld_abs (fci_entries (lsf_cache fld)) seq = Some (lsr_index r, lsr_flags r)"
    and ty: "fld_range_type rng = fld_range_type r \<or> fld_range_is_any rng"
  shows "\<exists>fld' rng'. fld_server_lookup strtoul fld seq rng q t rs = Inr (0, fld', rng', rs) \<and>
          lu_seq_range_within rng' seq \<and> lsr_index rng' = lsr_index r \<and> lsr_flags rng' = lsr_flags r"
proof -
  have S: "fld_sorted (fci_entries (lsf_cache fld))" using wf unfolding fld_cache_wf_def by blast
  obtain e where e: "lookup_scan seq None (fci_entries (lsf_cache fld)) = (True, Some (fce_range e))" "lu_seq_range_within (fce_range e) seq"
    "eindex e = lsr_index r" "eflags e = lsr_flags r"
    using lookup_scan_spec [OF S, of seq None] a by auto
  then have "fld_range_type (fce_range e) = fld_range_type r" by (simp add: fld_range_type_def)
  then show ?thesis
    using e ty by (auto simp: fld_server_lookup_def fld_local_lookup_def fld_cache_lookup_def Let_def)
qed

section \<open>A database filled by the controller\<close>

text \<open>The calls of \<open>fld_server_create\<close> for the ranges that a controller hands out, one after the other.\<close>

fun fld_create_all :: "(nat \<Rightarrow> fld_io) \<Rightarrow> nat \<Rightarrow> lu_seq_range list \<Rightarrow> lu_server_fld \<Rightarrow> (int \<times> lu_server_fld) option" where
  "fld_create_all ios k [] fld = Some (0, fld)"
| "fld_create_all ios k (r # rs) fld = do {
     (rc, fld) \<leftarrow> fld_server_create (ios k) fld r;
     if rc \<noteq> 0 then Some (rc, fld) else fld_create_all ios (k + 1) rs fld
   }"

lemma fld_index_create_fresh:
  assumes "fld_abs (fci_entries (lsf_cache fld)) (lsr_start r) = None" "fld_cache_wf (lsf_cache fld)" "lsr_start r < lsr_end r"
    and "fio_ins io = 0" "fio_node io = Some p"
  shows "\<exists>c1. fci_entries c1 = fci_entries (lsf_cache fld) \<and> fci_lru c1 = fci_lru (lsf_cache fld) \<and> fld_cache_wf c1 \<and>
     fci_cache_count c1 = fci_cache_count (lsf_cache fld) \<and> fci_cache_size c1 = fci_cache_size (lsf_cache fld) \<and>
     fld_server_create io fld r = map_option (\<lambda>(rc, c). (rc, fld\<lparr>lsf_cache := c, lsf_obj := map_option (idx_insert r) (lsf_obj fld)\<rparr>))
       (fld_cache_insert c1 r (Some p) (fio_tail io))"
proof -
  obtain rc c1 er where l: "fld_cache_lookup (lsf_cache fld) (lsr_start r) lu_seq_range_init = (rc, c1, er)" by (metis prod_cases3)
  have c1: "fci_entries c1 = fci_entries (lsf_cache fld)" "fci_lru c1 = fci_lru (lsf_cache fld)" "fld_cache_wf c1"
    "fci_cache_count c1 = fci_cache_count (lsf_cache fld)" "fci_cache_size c1 = fci_cache_size (lsf_cache fld)"
    using l assms(2) by (auto simp: fld_cache_lookup_def fld_cache_wf_def fld_nodes_def Let_def split: prod.split_asm if_split_asm)
  have S: "fld_sorted (fci_entries (lsf_cache fld))" using assms(2) unfolding fld_cache_wf_def by blast
  have rc: "rc = - ENOENT"
    using lookup_scan_spec [OF S, of "lsr_start r" None] l assms(1) by (auto simp: fld_cache_lookup_def Let_def split: prod.split_asm)
  have "fld_server_create io fld r = map_option (\<lambda>(rc, c). (rc, fld\<lparr>lsf_cache := c, lsf_obj := map_option (idx_insert r) (lsf_obj fld)\<rparr>))
       (fld_cache_insert c1 r (Some p) (fio_tail io))"
    using l rc assms(3-5)
    by (auto simp: fld_server_create_def fld_index_create_def fld_index_lookup_def fld_merges_def lu_seq_range_init_def
        fld_cache_insert_def fld_cache_entry_create_def lu_seq_range_is_sane_def less_imp_le errno_defs Let_def option.map_ident
        map_option_case split: option.split)
  then show ?thesis using c1 by blast
qed

lemma fld_count_lru:
  assumes "fld_cache_wf c"
  shows "fci_cache_count c = int (card (set (fci_lru c)))"
proof -
  have N: "fld_nodes c" using assms unfolding fld_cache_wf_def by blast
  have "card (fce_node ` set (fci_entries c)) = length (fci_entries c)"
    using N distinct_card [of "map fce_node (fci_entries c)"] unfolding fld_nodes_def by simp
  then show ?thesis using N fld_nodes_lru [OF N] unfolding fld_nodes_def by simp
qed

lemma fld_create_step:
  assumes wf: "fld_cache_wf (lsf_cache fld)" and r: "lsr_start r < lsr_end r"
    and room: "fci_cache_count (lsf_cache fld) < fci_cache_size (lsf_cache fld)"
    and apart: "\<forall>s \<in> seqs r. fld_abs (fci_entries (lsf_cache fld)) s = None"
    and io: "fio_ins io = 0" "fio_node io = Some p" "p \<notin> set (fci_lru (lsf_cache fld))"
  shows "\<exists>fld'. fld_server_create io fld r = Some (0, fld') \<and> fld_cache_wf (lsf_cache fld') \<and>
    fld_abs (fci_entries (lsf_cache fld')) = fld_update r (fld_abs (fci_entries (lsf_cache fld))) \<and>
    set (fci_lru (lsf_cache fld')) \<subseteq> insert p (set (fci_lru (lsf_cache fld))) \<and>
    fci_cache_size (lsf_cache fld') = fci_cache_size (lsf_cache fld) \<and>
    fci_cache_count (lsf_cache fld') \<le> fci_cache_count (lsf_cache fld) + 1"
proof -
  have "fld_abs (fci_entries (lsf_cache fld)) (lsr_start r) = None" using apart r by simp
  from fld_index_create_fresh [OF this wf r io(1,2)] obtain c1 where c1: "fci_entries c1 = fci_entries (lsf_cache fld)"
    "fci_lru c1 = fci_lru (lsf_cache fld)" "fld_cache_wf c1" "fci_cache_count c1 = fci_cache_count (lsf_cache fld)"
    "fci_cache_size c1 = fci_cache_size (lsf_cache fld)"
    and cr: "fld_server_create io fld r = map_option (\<lambda>(rc, c). (rc, fld\<lparr>lsf_cache := c, lsf_obj := map_option (idx_insert r) (lsf_obj fld)\<rparr>))
       (fld_cache_insert c1 r (Some p) (fio_tail io))" by blast
  have sh: "(if \<not> fci_no_shrink c1 then fld_cache_shrink c1 else c1) = c1" using room c1 by (simp add: fld_cache_shrink_def)
  have "\<forall>s v. lu_seq_range_within r s \<longrightarrow> fld_abs (fci_entries c1) s = Some v \<longrightarrow> v = (lsr_index r, lsr_flags r)"
    using apart c1(1) by (auto simp: lu_seq_range_within_def)
  from fld_insert_compat [OF c1(3) r _ this, of p "fio_tail io"] io(3) c1(2) sh
  obtain c2 where c2: "fld_cache_insert c1 r (Some p) (fio_tail io) = Some (0, c2)" "inserted r {p} c1 c2" by auto
  have "fld_cache_wf c2" "fci_cache_size c2 = fci_cache_size (lsf_cache fld)" and lru: "set (fci_lru c2) \<subseteq> insert p (set (fci_lru (lsf_cache fld)))"
    and "fld_abs (fci_entries c2) = fld_update r (fld_abs (fci_entries (lsf_cache fld)))"
    using c2(2) c1 unfolding inserted_def same_conf_def by auto
  moreover have "card (set (fci_lru c2)) \<le> card (set (fci_lru (lsf_cache fld))) + 1"
    using card_mono [OF _ lru] card_insert_le_m1 [of 1] by (metis List.finite_set Suc_eq_plus1 card.insert finite_insert insert_absorb le_SucI)
  ultimately show ?thesis using cr c2(1) fld_count_lru [OF wf] fld_count_lru [of c2] by auto
qed

lemma fld_create_all_spec:
  assumes "fld_cache_wf (lsf_cache fld)" "fci_cache_count (lsf_cache fld) + int (length rs) \<le> fci_cache_size (lsf_cache fld)"
    and "sorted_wrt (\<lambda>a b. seqs a \<inter> seqs b = {}) rs" "\<forall>r \<in> set rs. lsr_start r < lsr_end r"
    and "\<forall>r \<in> set rs. \<forall>s \<in> seqs r. fld_abs (fci_entries (lsf_cache fld)) s = None"
    and "\<forall>j. fio_ins (ios j) = 0 \<and> fio_node (ios j) = Some (nd j)" "inj nd" "\<forall>j \<ge> k. nd j \<notin> set (fci_lru (lsf_cache fld))"
  shows "\<exists>fld'. fld_create_all ios k rs fld = Some (0, fld') \<and> fld_cache_wf (lsf_cache fld') \<and>
    (\<forall>r \<in> set rs. \<forall>s \<in> seqs r. fld_abs (fci_entries (lsf_cache fld')) s = Some (lsr_index r, lsr_flags r)) \<and>
    (\<forall>s v. fld_abs (fci_entries (lsf_cache fld)) s = Some v \<longrightarrow> fld_abs (fci_entries (lsf_cache fld')) s = Some v)"
  using assms
proof (induction rs arbitrary: k fld)
  case (Cons r rs)
  obtain f1 where f1: "fld_server_create (ios k) fld r = Some (0, f1)" "fld_cache_wf (lsf_cache f1)"
    "fld_abs (fci_entries (lsf_cache f1)) = fld_update r (fld_abs (fci_entries (lsf_cache fld)))"
    "set (fci_lru (lsf_cache f1)) \<subseteq> insert (nd k) (set (fci_lru (lsf_cache fld)))"
    "fci_cache_size (lsf_cache f1) = fci_cache_size (lsf_cache fld)"
    "fci_cache_count (lsf_cache f1) \<le> fci_cache_count (lsf_cache fld) + 1"
  proof (rule exE [OF fld_create_step [OF Cons.prems(1), of r "ios k" "nd k"]])
    show "lsr_start r < lsr_end r" "\<forall>s \<in> seqs r. fld_abs (fci_entries (lsf_cache fld)) s = None"
      using bspec [OF Cons.prems(4), of r] bspec [OF Cons.prems(5), of r] by (blast intro: list.set_intros(1))+
    show "fci_cache_count (lsf_cache fld) < fci_cache_size (lsf_cache fld)" using Cons.prems(2) by simp
    show "fio_ins (ios k) = 0" "fio_node (ios k) = Some (nd k)" "nd k \<notin> set (fci_lru (lsf_cache fld))"
      using Cons.prems(6,8) by blast+
  qed blast
  have disj: "seqs r \<inter> seqs r' = {}" if "r' \<in> set rs" for r' using Cons.prems(3) that by simp
  obtain f2 where f2: "fld_create_all ios (k + 1) rs f1 = Some (0, f2)" "fld_cache_wf (lsf_cache f2)"
    "\<forall>r \<in> set rs. \<forall>s \<in> seqs r. fld_abs (fci_entries (lsf_cache f2)) s = Some (lsr_index r, lsr_flags r)"
    "\<forall>s v. fld_abs (fci_entries (lsf_cache f1)) s = Some v \<longrightarrow> fld_abs (fci_entries (lsf_cache f2)) s = Some v"
  proof (rule exE [OF Cons.IH [OF f1(2), of "k + 1"]])
    show "fci_cache_count (lsf_cache f1) + int (length rs) \<le> fci_cache_size (lsf_cache f1)" using Cons.prems(2) f1(5,6) by simp
    show "sorted_wrt (\<lambda>a b. seqs a \<inter> seqs b = {}) rs" "\<forall>r \<in> set rs. lsr_start r < lsr_end r" using Cons.prems(3,4) by simp_all
    show "\<forall>r' \<in> set rs. \<forall>s \<in> seqs r'. fld_abs (fci_entries (lsf_cache f1)) s = None"
    proof (intro ballI)
      fix r' s assume r': "r' \<in> set rs" and s: "s \<in> seqs r'"
      have "s \<notin> seqs r" using disj [OF r'] s by blast
      moreover have "fld_abs (fci_entries (lsf_cache fld)) s = None" using Cons.prems(5) r' s by (meson list.set_intros(2))
      ultimately show "fld_abs (fci_entries (lsf_cache f1)) s = None" by (auto simp: f1(3) fld_update_def lu_seq_range_within_def)
    qed
    show "\<forall>j \<ge> k + 1. nd j \<notin> set (fci_lru (lsf_cache f1))"
    proof (intro allI impI notI)
      fix j assume j: "k + 1 \<le> j" "nd j \<in> set (fci_lru (lsf_cache f1))"
      have "nd j \<notin> set (fci_lru (lsf_cache fld))" using Cons.prems(8) j(1) by simp
      then have "nd j = nd k" using f1(4) j(2) by blast
      then show False using injD [OF Cons.prems(7)] j(1) by fastforce
    qed
  qed (use Cons.prems(6,7) in blast)+
  have "fld_abs (fci_entries (lsf_cache f2)) s = Some (lsr_index r, lsr_flags r)" if "s \<in> seqs r" for s
    using that f2(4) by (simp add: f1(3) fld_update_def lu_seq_range_within_def)
  moreover have "fld_abs (fci_entries (lsf_cache f2)) s = Some v" if a: "fld_abs (fci_entries (lsf_cache fld)) s = Some v" for s v
  proof -
    have "s \<notin> seqs r" using Cons.prems(5) a by (metis list.set_intros(1) option.distinct(1))
    then have "fld_abs (fci_entries (lsf_cache f1)) s = Some v" using a by (auto simp: f1(3) fld_update_def lu_seq_range_within_def)
    then show ?thesis using f2(4) by blast
  qed
  moreover have "fld_create_all ios k (r # rs) fld = Some (0, f2)" using f1(1) f2(1) by simp
  ultimately show ?case using f2(2,3) by (intro exI [of _ f2] conjI ballI allI impI) (auto simp del: seqs_iff fld_create_all.simps)
qed simp

section \<open>Properties of the service\<close>

lemma find_target_less: "find_target idx ts i = Some j \<Longrightarrow> i \<le> j \<and> j < i + length ts"
  by (induction ts arbitrary: i) (auto split: if_split_asm dest: le_less_trans, force+)

lemma find_target_ex: "\<exists>t \<in> set ts. ft_idx t = idx \<Longrightarrow> \<exists>j. find_target idx ts i = Some j"
  by (induction ts arbitrary: i) auto

text \<open>A client that knows the target with index 0 and counts its targets always finds one to ask.\<close>

definition client_ok :: "lu_client_fld \<Rightarrow> bool" where
  "client_ok fld \<longleftrightarrow> lcf_hash fld = 0 \<and> lcf_count fld > 0 \<and> (\<exists>t \<in> set (lcf_targets fld). ft_idx t = 0)"

lemma client_get_target:
  assumes "client_ok fld"
  shows "\<exists>i. fld_client_get_target fld seq = Some i \<and> i < length (lcf_targets fld)"
proof -
  obtain j where j: "find_target 0 (lcf_targets fld) 0 = Some j"
    using assms find_target_ex unfolding client_ok_def by blast
  have "\<exists>i. fld_client_get_target fld seq = Some i"
    using assms j
    by (auto simp: client_ok_def fld_client_get_target_def fld_rrb_scan_def fld_rrb_hash_def split: option.split)
  moreover have "i < length (lcf_targets fld)" if "fld_client_get_target fld seq = Some i" for i
    using that find_target_less [of _ "lcf_targets fld" 0]
    by (auto simp: fld_client_get_target_def fld_rrb_scan_def bind_eq_Some_conv split: if_split_asm option.split_asm)
  ultimately show ?thesis by blast
qed

text \<open>C8. A lookup never makes a client disagree with the location database. When the caches of the client
  and of its local servers agree with the location \<open>loc\<close> of the sequences, and the peers answer with
  ranges that agree with it, then no assertion fails, whatever targets are shut down, whatever requests are
  repeated and whatever allocations fail; a lookup that returns 0 has found the index of the target of the
  sequence, and the cache of the client and those of its local servers, which a lookup also fills, agree with the
  locations as before.\<close>

theorem fld_client_coherent:
  assumes c: "coherent loc (lcf_cache fld)" and ok: "client_ok fld" and p: "node_fresh p (lcf_cache fld)"
    and ring: "\<And>i. i < length (lcf_targets fld) \<Longrightarrow> ring_ok loc (drop i (lcf_targets fld) @ take i (lcf_targets fld)) nodes"
    and rs: "replies_right loc seq rs"
  shows "case fld_client_lookup strtoul fld seq flags p t nodes rs of
      Inl e \<Rightarrow> e = Wait
    | Inr (rc, mds, fld') \<Rightarrow> coherent loc (lcf_cache fld') \<and> servers_coherent loc (lcf_targets fld') \<and>
        (rc = 0 \<longrightarrow> (\<exists>i f. mds = Some i \<and> loc seq = Some (i, f)))"
proof -
  obtain rc c' res where l: "fld_cache_lookup (lcf_cache fld) seq lu_seq_range_init = (rc, c', res)" by (metis prod_cases3)
  note k = coherent_lookup [OF c l]
  have mds: "\<exists>f. loc seq = Some (lsr_index r, f)" if "range_right loc r \<and> lu_seq_range_within r seq" for r
    using that unfolding range_right_def by blast
  have ts: "servers_coherent loc (lcf_targets fld)"
    using ring [of 0] ring_ok_coherent by (cases "lcf_targets fld") auto
  show ?thesis
  proof (cases "rc = 0")
    case True
    then show ?thesis using l k(1,3) mds ts by (simp add: fld_client_lookup_def)
  next
    case False
    let ?fld = "fld\<lparr>lcf_cache := c'\<rparr>"
    have "client_ok ?fld" using ok by (simp add: client_ok_def)
    then obtain i where i: "fld_client_get_target ?fld seq = Some i" "i < length (lcf_targets fld)"
      using client_get_target [of ?fld seq] by auto
    let ?r = "drop i (lcf_targets fld) @ take i (lcf_targets fld)"
    note R = lookup_ring_right [OF ring [OF i(2)] rs, of strtoul flags res]
    show ?thesis
    proof (cases "lookup_ring strtoul seq flags ?r res nodes rs")
      case (Inl e)
      then show ?thesis using R False l i(1) by (simp add: fld_client_lookup_def)
    next
      case (Inr x)
      obtain rc1 ring' res' rs' where x: "x = (rc1, ring', res', rs')" by (metis prod_cases4)
      have fr: "\<And>q. p = Some q \<Longrightarrow> q \<notin> set (fci_lru c')" using p k(2) by (simp add: node_fresh_def)
      have ts': "servers_coherent loc (drop m ring' @ take m ring')" for m
        using R Inr x unfolding servers_coherent_rotate by simp
      show ?thesis
      proof (cases "rc1 = 0")
        case True
        then have r: "range_right loc res' \<and> lu_seq_range_within res' seq" using R Inr x by simp
        obtain rc3 c3 where ins: "fld_cache_insert c' res' p t = Some (rc3, c3)" "coherent loc c3"
          using coherent_insert [OF k(1) _ fr] r by blast
        then show ?thesis using False l i(1) Inr x True mds [OF r] ts' by (simp add: fld_client_lookup_def Let_def)
      next
        case ne: False
        then show ?thesis using False l i(1) Inr x k(1) ts' by (simp add: fld_client_lookup_def Let_def)
      qed
    qed
  qed
qed

text \<open>A client with a local server and a remote target, the location of a new range and a reply that carries it.\<close>

definition fx_range :: lu_seq_range where
  "fx_range = \<lparr>lsr_start = 0x2000, lsr_end = 0x3000, lsr_index = 2, lsr_flags = 0\<rparr>"

definition fx_loc :: "u64 \<Rightarrow> (u32 \<times> u32) option" where
  "fx_loc = fld_update fx_range (fld_abs (fci_entries fx_cache))"

definition fx_client :: lu_client_fld where
  "fx_client = \<lparr>lcf_targets =
      [\<lparr>ft_exp = False, ft_srv = Some \<lparr>lsf_name = ''srv-lustre-MDT0001'', lsf_obj = None, lsf_control_exp = True,
                                       lsf_cache = fx_cache, lsf_new = False\<rparr>, ft_idx = 0\<rparr>,
       \<lparr>ft_exp = True, ft_srv = None, ft_idx = 1\<rparr>],
     lcf_hash = 0, lcf_count = 2, lcf_cache = fx_cache\<rparr>"

definition fx_reply :: rpc_reply where
  "fx_reply = \<lparr>rr_alloc = True, rr_rc = 0, rr_lwp = False, rr_range = Some fx_range, rr_data = None\<rparr>"

lemma fx_fresh:
  assumes "lu_seq_range_within fx_range s"
  shows "fld_abs (fci_entries fx_cache) s = None"
proof (rule fld_abs_above)
  fix e assume "e \<in> set (fci_entries fx_cache)"
  then have "eend e \<le> 0x2000" by (auto simp: fx_cache_def)
  then show "eend e \<le> s" using assms by (auto simp: lu_seq_range_within_def fx_range_def intro: order.trans)
qed

lemma fx_coherent: "coherent fx_loc fx_cache"
  using fx_cache_wf fx_fresh by (auto simp: coherent_def fx_loc_def fld_update_def)

lemma fx_replies: "replies_right fx_loc 0x2001 [fx_reply]"
  by (simp add: replies_right_def fx_reply_def range_right_def fx_loc_def fld_update_def) (simp add: fx_range_def lu_seq_range_within_def)

theorem fld_client_coherent_witness:
  "case fld_client_lookup (\<lambda>_. 1) fx_client 0x2001 LU_SEQ_RANGE_MDT (Some 4) None [(Some 4, None), (Some 4, None)] [fx_reply] of
      Inl e \<Rightarrow> e = Wait
    | Inr (rc, mds, fld') \<Rightarrow> coherent fx_loc (lcf_cache fld') \<and> servers_coherent fx_loc (lcf_targets fld') \<and>
        (rc = 0 \<longrightarrow> (\<exists>i f. mds = Some i \<and> fx_loc 0x2001 = Some (i, f)))"
proof (rule fld_client_coherent)
  fix i assume "i < length (lcf_targets fx_client)"
  then have "i = 0 \<or> i = 1" by (auto simp: fx_client_def)
  then show "ring_ok fx_loc (drop i (lcf_targets fx_client) @ take i (lcf_targets fx_client)) [(Some 4, None), (Some 4, None)]"
    using fx_coherent by (auto simp: fx_client_def node_fresh_def fx_cache_def)
qed (use fx_coherent fx_replies in \<open>simp_all add: fx_client_def client_ok_def node_fresh_def fx_cache_def\<close>)

text \<open>C17. A range that the sequence controller assigns is found again. When \<open>fld_server_create\<close> is called with a
  range that is apart from all cached ones and the record and the cache entry are written, it returns 0, the
  index has the range as a record of its own, the cache stays well-formed, and a lookup of each of its
  sequences, of its type or of any type, returns 0 and its index and flags without a request.\<close>

theorem fld_create_lookup:
  assumes wf: "fld_cache_wf (lsf_cache fld)" and r: "lsr_start r < lsr_end r"
    and apart: "\<And>s. lu_seq_range_within r s \<Longrightarrow> fld_abs (fci_entries (lsf_cache fld)) s = None"
    and io: "fio_ins io = 0" "fio_node io = Some p" "p \<notin> set (fci_lru (lsf_cache fld))"
  shows "\<exists>fld'. fld_server_create io fld r = Some (0, fld') \<and> fld_cache_wf (lsf_cache fld') \<and>
    lsf_obj fld' = map_option (idx_insert r) (lsf_obj fld) \<and>
    (\<forall>seq rng. lu_seq_range_within r seq \<longrightarrow> fld_range_type rng = fld_range_type r \<or> fld_range_is_any rng \<longrightarrow>
       (\<exists>fld'' rng'. fld_server_lookup strtoul fld' seq rng q t rs = Inr (0, fld'', rng', rs) \<and>
          lu_seq_range_within rng' seq \<and> lsr_index rng' = lsr_index r \<and> lsr_flags rng' = lsr_flags r))"
proof -
  have "fld_abs (fci_entries (lsf_cache fld)) (lsr_start r) = None" by (rule apart) (use r in \<open>simp add: lu_seq_range_within_def\<close>)
  from fld_index_create_fresh [OF this wf r io(1,2)] obtain c1 where c1: "fci_entries c1 = fci_entries (lsf_cache fld)"
    "fci_lru c1 = fci_lru (lsf_cache fld)" "fld_cache_wf c1"
    and cr: "fld_server_create io fld r = map_option (\<lambda>(rc, c). (rc, fld\<lparr>lsf_cache := c, lsf_obj := map_option (idx_insert r) (lsf_obj fld)\<rparr>))
       (fld_cache_insert c1 r (Some p) (fio_tail io))" by blast
  have "\<exists>c'. map_option snd (fld_cache_insert c1 r (fst (Some p, fio_tail io)) (snd (Some p, fio_tail io))) = Some c' \<and> fld_cache_wf c' \<and>
      (\<forall>s. lu_seq_range_within r s \<longrightarrow> fld_abs (fci_entries c') s = Some (lsr_index r, lsr_flags r))"
    by (rule flc.ins_fresh) (use c1 io r apart in auto)
  then obtain c2 where c2: "fld_cache_insert c1 r (Some p) (fio_tail io) = Some (0, c2)" "fld_cache_wf c2"
    "\<And>s. lu_seq_range_within r s \<Longrightarrow> fld_abs (fci_entries c2) s = Some (lsr_index r, lsr_flags r)"
    using r by (auto simp: fld_cache_insert_def fld_cache_entry_create_def fld_cache_insert_nolock_def lu_seq_range_is_sane_def Let_def less_imp_le)
  let ?fld = "fld\<lparr>lsf_cache := c2, lsf_obj := map_option (idx_insert r) (lsf_obj fld)\<rparr>"
  have "fld_server_create io fld r = Some (0, ?fld)" using cr c2(1) by simp
  then show ?thesis using c2(2,3) fld_server_lookup_cached [of ?fld _ r _ strtoul q t rs] by auto
qed

text \<open>The first metadata server with an empty index, and a storage stack that answers without an error.\<close>

definition fx_server :: lu_server_fld where
  "fx_server = \<lparr>lsf_name = ''srv-lustre-MDT0000'', lsf_obj = Some [], lsf_control_exp = False, lsf_cache = fx_cache, lsf_new = False\<rparr>"

definition fx_io :: fld_io where
  "fx_io = \<lparr>fio_rdonly = False, fio_create = 0, fio_decl_del = 0, fio_decl_ins = 0, fio_start = 0, fio_del = 0, fio_ins = 0,
     fio_node = Some 4, fio_tail = Some 5\<rparr>"

theorem fld_create_lookup_witness:
  "\<exists>fld'. fld_server_create fx_io fx_server fx_range = Some (0, fld') \<and> fld_cache_wf (lsf_cache fld') \<and>
    lsf_obj fld' = map_option (idx_insert fx_range) (lsf_obj fx_server) \<and>
    (\<forall>seq rng. lu_seq_range_within fx_range seq \<longrightarrow> fld_range_type rng = fld_range_type fx_range \<or> fld_range_is_any rng \<longrightarrow>
       (\<exists>fld'' rng'. fld_server_lookup (\<lambda>_. 0) fld' seq rng None None [] = Inr (0, fld'', rng', []) \<and>
          lu_seq_range_within rng' seq \<and> lsr_index rng' = lsr_index fx_range \<and> lsr_flags rng' = lsr_flags fx_range))"
  by (rule fld_create_lookup [of fx_server fx_range fx_io 4])
    (use fx_cache_wf fx_fresh in \<open>simp_all add: fx_server_def fx_io_def\<close>, simp_all add: fx_range_def fx_cache_def)

text \<open>C33. A new metadata server cannot copy a location database of more than one page. The controller answers a
  read that does not fit in a page with \<open>-EAGAIN\<close> and a full page. \<open>fld_client_rpc\<close> drops the request of every
  answer that is an error, so that \<open>fld_update_from_controller\<close>, which accepts \<open>-EAGAIN\<close> in order to read on,
  fails its assertion on the request; over the connection of a light-weight proxy the same page is asked for again.\<close>

theorem fld_update_second_page:
  assumes "lsf_new fld" "lsf_control_exp fld" "fld_name_to_index strtoul (lsf_name fld) 0 = (LDD_F_SV_TYPE_MDT, index)" "index \<noteq> 0"
    and "rr_alloc r" "rr_rc r = - EAGAIN"
  shows "fld_update_from_controller strtoul ios req0 (r # rs) fld =
    (if rr_lwp r then fld_update_from_controller strtoul ios req0 rs fld else Inl Bug)"
proof -
  have "fld_client_rpc rng FLD_READ req0 (r # rs) =
      (if rr_lwp r then fld_client_rpc rng FLD_READ req0 rs else Inr (- EAGAIN, rng, None, rs))" for rng
    using assms(5,6) by (simp add: errno_defs)
  then show ?thesis
    using assms(1-4) by (simp add: fld_update_from_controller_def update_loop.simps LDD_F_SV_TYPE_MDT_def)
qed

theorem fld_update_second_page_witness:
  "fld_update_from_controller (\<lambda>_. 1) (\<lambda>_. fx_io) None
     [\<lparr>rr_alloc = True, rr_rc = - EAGAIN, rr_lwp = False, rr_range = None, rr_data = Some [fx_range]\<rparr>]
     (fx_server\<lparr>lsf_name := ''srv-lustre-MDT0001'', lsf_control_exp := True, lsf_new := True\<rparr>) = Inl Bug"
  using fld_update_second_page [of "fx_server\<lparr>lsf_name := ''srv-lustre-MDT0001'', lsf_control_exp := True, lsf_new := True\<rparr>" "\<lambda>_. 1" 1
      "\<lparr>rr_alloc = True, rr_rc = - EAGAIN, rr_lwp = False, rr_range = None, rr_data = Some [fx_range]\<rparr>" "\<lambda>_. fx_io" None "[]"]
  by (simp add: fld_name_to_index_def target_name2index_def LDD_F_SV_TYPE_MDT_def)

section \<open>What the service does not do\<close>

text \<open>The index never merges: a lookup that fails leaves the range zero, so a record is inserted for each range.\<close>

lemma fld_index_never_merges:
  assumes "fld_index_lookup fld seq lu_seq_range_init = (- ENOENT, fld', rng)"
  shows "\<not> fld_merges new_range rng"
proof -
  obtain rc c r where l: "fld_cache_lookup (lsf_cache fld) seq lu_seq_range_init = (rc, c, r)" by (metis prod_cases3)
  have scan: "lookup_scan s prev xs = (True, y) \<Longrightarrow> \<exists>x. y = Some x \<and> lu_seq_range_within x s" for s prev xs y
    by (induction s prev xs rule: lookup_scan.induct) (auto split: if_split_asm)
  have "rc = 0 \<Longrightarrow> lu_seq_range_within r seq"
    using l scan [of seq None "fci_entries (lsf_cache fld)"]
    by (auto simp: fld_cache_lookup_def Let_def errno_defs split: prod.split_asm if_split_asm)
  then have "rng = lu_seq_range_init" using assms l by (auto simp: fld_index_lookup_def Let_def errno_defs split: if_split_asm)
  then show ?thesis by (simp add: fld_merges_def lu_seq_range_init_def)
qed

text \<open>
  A miss leaves the range of the left neighbour in the request, and the type is added to its flags:
  right of a range of an object storage target, the lookup of a metadata sequence asks for the
  wrong type, and the controller that has the sequence answers \<open>-ENOENT\<close>.
\<close>

definition fx_stale_client :: lu_client_fld where
  "fx_stale_client = \<lparr>lcf_targets = [\<lparr>ft_exp = False,
       ft_srv = Some (fx_server\<lparr>lsf_cache := fx_cache\<lparr>fci_entries := [\<lparr>fce_node = 1, fce_range = fx_range\<rparr>], fci_lru := [1], fci_cache_count := 1\<rparr>\<rparr>),
       ft_idx = 0\<rparr>], lcf_hash = 0, lcf_count = 1,
     lcf_cache = fx_cache\<lparr>fci_entries := fci_entries fx_cache @
         [\<lparr>fce_node = 4, fce_range = \<lparr>lsr_start = 0x4000, lsr_end = 0x5000, lsr_index = 1, lsr_flags = 0\<rparr>\<rparr>],
       fci_lru := [4, 3, 2, 1], fci_cache_count := 4\<rparr>\<rparr>"

lemma fld_lookup_stale_type:
  "(case fld_client_lookup (\<lambda>_. 0) fx_stale_client 0x2001 LU_SEQ_RANGE_MDT None None [] [] of
      Inl e \<Rightarrow> None | Inr (rc, mds, fld) \<Rightarrow> Some (rc, mds)) = Some (- ENOENT, None)"
  by (simp add: fx_stale_client_def fld_client_lookup_def fld_client_get_target_def fld_rrb_scan_def
      fid_seq_is_norm_def fld_server_lookup_def fld_local_lookup_def fld_cache_lookup_def fx_cache_def fx_server_def fx_range_def
      fld_range_set_type_def fld_range_type_def fld_range_is_any_def fld_name_to_index_def target_name2index_def
      lu_seq_range_within_def lu_seq_range_init_def const_defs errno_defs Let_def LU_SEQ_RANGE_MDT_def LU_SEQ_RANGE_MASK_def LU_SEQ_RANGE_ANY_def)

text \<open>
  No code sets \<open>fci_no_shrink\<close>, so the cache of the controller is shrunk as well; a range that is evicted
  is still in the index, and its lookup fails.
\<close>

definition fx_full_server :: lu_server_fld where
  "fx_full_server = fx_server\<lparr>lsf_obj := Some (map fce_range (fci_entries fx_cache)), lsf_cache := fx_cache\<lparr>fci_cache_size := 3, fci_threshold := 1\<rparr>\<rparr>"

lemma fld_controller_forgets:
  "(case fld_server_create fx_io fx_full_server fx_range of
      None \<Rightarrow> None
    | Some (rc, fld) \<Rightarrow> Some (rc, map lsr_start (the (lsf_obj fld)),
        case fld_server_lookup (\<lambda>_. 0) fld 0x500 lu_seq_range_init None None [] of Inl e \<Rightarrow> 0 | Inr (rc, _) \<Rightarrow> rc)) =
   Some (0, [0x400, 0x800, 0xc00, 0x2000], - ENOENT)"
  by (simp add: fx_full_server_def fx_server_def fx_io_def fx_cache_def fx_range_def fld_server_create_def fld_index_create_def
      fld_index_lookup_def fld_cache_lookup_def fld_merges_def lu_seq_range_within_def lu_seq_range_init_def
      fld_cache_entry_create_def fld_cache_insert_nolock_def fld_cache_shrink_def fld_cache_entry_delete_def
      fld_cache_entry_add_def fld_fix_new_list_def fix_list.simps lu_seq_range_is_sane_def fld_server_lookup_def fld_local_lookup_def
      fld_name_to_index_def target_name2index_def const_defs errno_defs Let_def)

text \<open>\<open>hash_is_sane\<close> counts the terminator of the table of hashes, so that a client is set up with no hash function.\<close>

lemma fld_hash_terminator:
  "\<exists>fld. fld_client_init 1 True 0 = Some (0, Some fld) \<and> fld_client_get_target fld seq = None"
  by (simp add: fld_client_init_def hash_is_sane_def fld_cache_init_def fld_client_get_target_def const_defs)

end
