(* ===== verification/Spec2Isabelle.thy ===== *)
theory Spec2Isabelle
  imports Seq_Safety Lov_Offset Nrs_Crr Tgt_Grant Fld_Service
begin

text \<open>
  A verification library of parts of the Lustre file system: the identifiers of files and how
  they are handed out and located, the arithmetic of striped files, the accounting of the space
  granted to clients, and a request scheduler with the heap it runs on. The paths below are under
  \<open>src/\<close>.

  \<^bold>\<open>Parts of the program and theories.\<close>

  \<^item> \<open>Lustre_Prelude\<close>: machine integers, error numbers, assertions (\<open>LASSERT\<close> and \<open>LBUG\<close> make the
    result \<open>None\<close>), arrays, and the facts on lists and words that the components share.
  \<^item> \<open>Fid\<close> (\<open>lustre/include/lustre_fid.h\<close>, \<open>uapi/linux/lustre/lustre_fid.h\<close>, \<open>lustre_ostid.h\<close>): file
    identifiers, the classes of sequences, the legacy object identifiers, resource names of locks,
    and inode numbers. Round trips between the encodings, and where the inode numbers are distinct.
  \<^item> \<open>Seq_Range\<close> (\<open>lustre/include/seq_range.h\<close>), \<open>Seq_Client\<close> (\<open>lustre/fid/fid_request.c\<close>), \<open>Seq_Server\<close>
    (\<open>lustre/fid/fid_handler.c\<close>, \<open>fid_store.c\<close>), \<open>Seq_Safety\<close>: the sequence manager. A controller hands
    super-sequences to metadata servers, these hand meta-sequences to clients, and clients take
    identifiers from them. Each stage is a machine over its memory and its disk, with commits that lag
    behind and power failures; the locale \<open>seq_source\<close> is what a stage promises to the next one, and it is
    interpreted for the controller and for the metadata servers. The step relation of a metadata server
    takes the storage outcomes it admits as an argument; with all stores succeeding (\<open>io_ok\<close>) no range and no
    identifier is handed out twice, and with a failing store a sequence can be.
  \<^item> \<open>Fld_Cache\<close> (\<open>lustre/fld/fld_cache.c\<close>) and \<open>Fld_Service\<close> (\<open>lustre/fld/fld_request.c\<close>,
    \<open>fld_handler.c\<close>, \<open>fld_index.c\<close>): the location database, which maps sequences to targets. The cache is
    a sorted list of ranges that an insertion cuts and merges; it refines the update of a map. Its two lists and
    its counter stay consistent whatever is inserted and whatever allocation fails (\<open>fld_reach\<close>). The locale
    \<open>location_cache\<close> is what the client and the server rely on; it is interpreted for the cache, and gives
    that lookups keep the cache of the client and those of its local servers in agreement with the locations
    that the controller assigned.
  \<^item> \<open>Lov_Offset\<close> (\<open>lustre/lov/lov_offset.c\<close>, \<open>lov_merge.c\<close>): the stripe of a byte of a file, the part of an
    extent that lies in an object, and the size of a file from the sizes of its objects, on 64-bit words.
  \<^item> \<open>Tgt_Grant\<close> (\<open>lustre/target/tgt_grant.c\<close>): the space that a target grants to its clients. The step
    relation interleaves the sections that the service threads run under \<open>tgd_grant_lock\<close>, \<open>dt_statfs\<close> and
    the commit callbacks, and what other code changes in between (connect flags, recovery). The totals are the
    sums of the counters of the exports. The state also carries the space that the backend has available
    (\<open>gs_avail\<close>), which no operation reads: with clients that give back no more than they hold and a backend that
    keeps its word, the space given away stays within it, and no assertion fails.
  \<^item> \<open>Binheap\<close> (\<open>libcfs/libcfs/heap.c\<close>): the binary heap over three levels of pointer blocks. It refines a
    heap in a list; the locale \<open>rank_compare\<close> is what it asks of the comparison and \<open>prio_queue\<close> what it
    promises.
  \<^item> \<open>Nrs_Crr\<close> (\<open>lustre/ptlrpc/nrs_crr.c\<close>): the scheduler that serves clients in rounds, with the heap as its
    queue. Requests of one client cannot starve those of another.
  \<^item> This theory: what the sequence controller and the location database guarantee together.

  \<^bold>\<open>How the code is read.\<close> A structure is a \<open>record\<close>, an enumeration a \<open>datatype\<close>; unsigned integers are words
  and wrap, return codes are integers with negated error numbers. A function of the code is a function of
  the state that returns the new state. What is outside the modelled files (the allocator, the storage
  stack, the network, the clock, \<open>simple_strtoul\<close>) is an argument, so that a theorem holds for every outcome.
  A lock makes the section under it one step; where sections of several threads interleave, the model is an
  inductive step relation (\<open>srv_step\<close>, \<open>ctl_step\<close>, \<open>cli_step\<close>, \<open>grant_step\<close>, the steps of \<open>Nrs_Crr\<close>) and the
  theorems are invariants of the reachable states.

  \<^bold>\<open>Loops and bounds.\<close> Loops over lists are structural recursions. \<open>fix_list\<close> (the restarts of
  \<open>fld_fix_new_list\<close>) and \<open>update_loop\<close> have termination proofs. The retry loop of \<open>fld_client_rpc\<close> has no bound in
  the code: it consumes a list of replies, and \<open>Wait\<close> is the result when they are used up. The loops of the
  client allocation (\<open>seq_client_meta_loop\<close>) and of the grant refresh take fuel; \<open>alloc_fid_result\<close> and
  \<open>grant_refresh_ends\<close> show that the fuel is enough (two calls of \<open>dt_statfs\<close> on connect, three on a write).
  The heap holds at most 134480384 nodes, which follows from its block sizes; the theorems on the scheduler
  assume fewer than \<open>2^62\<close> requests, so that its round counter does not wrap.

  \<^bold>\<open>What the theorems show.\<close> Safety of the identifiers: \<open>fid_unique\<close>, \<open>super_ranges_disjoint\<close>,
  \<open>meta_ranges_disjoint\<close>, \<open>controller_locates\<close>. Location: \<open>fld_insert_refines\<close>, \<open>fld_lookup_exact\<close>,
  \<open>fld_cache_type\<close>, \<open>fld_create_lookup\<close>, \<open>fld_client_coherent\<close>. Encodings: \<open>ostid_fid_roundtrip\<close>,
  \<open>ost_resid_roundtrip\<close>, \<open>fid_flatten_inj\<close>. Striping: \<open>lov_offset_roundtrip\<close>, \<open>lov_stripe_intersects_exact\<close>,
  \<open>lov_size_to_stripe_exact\<close>, \<open>lov_merge_size_roundtrip\<close>. Grants: \<open>grant_accounting\<close>, \<open>grant_bounded\<close>,
  \<open>grant_no_assert\<close>, \<open>grant_check_enforces\<close>, \<open>statfs_sees_commits\<close>, \<open>grant_refresh_ends\<close>. Scheduling:
  \<open>binheap_sorts\<close>, \<open>binheap_refines\<close>, \<open>binheap_relocate_restores\<close>, \<open>binheap_full\<close>, \<open>crrn_fair\<close>,
  \<open>crrn_batch_bound\<close>, \<open>crrn_no_assert\<close>. Behaviour the code should not have is proved as well, each on the
  branch where it occurs: \<open>meta_reuse_after_store_error\<close>, \<open>meta_empty_range_after_restart\<close>,
  \<open>alloc_spec_past_end\<close>, \<open>client_keeps_bad_range\<close>, \<open>shrink_below_zero\<close>, \<open>alloc_grants_negative\<close>,
  \<open>statfs_error_leaks\<close>, \<open>fld_suffix_asserts\<close>, \<open>fld_update_second_page\<close>, the lemmas at the end of
  \<open>Fld_Cache\<close> and \<open>Fld_Service\<close>, and \<open>claimed_grant_unchecked\<close> and \<open>dirty_overflow_asserts\<close> in \<open>Tgt_Grant\<close>. A theorem with hypotheses is followed by an instance on concrete data.

  \<^bold>\<open>Not modelled.\<close> The lock manager, the RPC layer and LNet, the client file system, the metadata and object
  servers, the storage back ends, configuration logs, quota and LFSCK, and the user tools. They consist
  of calls into the Linux kernel, ldiskfs and ZFS, whose code is not in the repository, or they run on top
  of these layers; where a modelled function calls them, their answer is an argument. In the modelled files
  the debugfs and procfs files, module set-up and byte order conversions are left out: they print or set
  single fields, or are inverse to each other at the two ends of a transfer.
\<close>

section \<open>Sequences are handed out and found again\<close>

text \<open>C4. The controller and its location database together. Whatever commits lag behind and whatever power
  failures happen, the super-sequences that a controller hands out can all be entered, one after the other, into
  an empty location database that has room for them: each call returns 0, and afterwards the lookup of every
  sequence that was handed out returns 0 and the target that its range was handed out to.\<close>

theorem controller_locates:
  assumes "ctl_boot s0" "seq_run ctl_step rs s0 s" "\<forall>r \<in> set rs. lsr_start r < lsr_end r"
    and "fld_cache_wf (lsf_cache fld)" "fci_entries (lsf_cache fld) = []" "int (length rs) \<le> fci_cache_size (lsf_cache fld)"
    and "\<forall>j. fio_ins (ios j) = 0 \<and> fio_node (ios j) = Some (nd j)" "inj nd"
  shows "\<exists>fld'. fld_create_all ios 0 rs fld = Some (0, fld') \<and>
    (\<forall>r \<in> set rs. \<forall>q \<in> seqs r. \<forall>rng. fld_range_is_any rng \<longrightarrow>
       (\<exists>fld'' rng'. fld_server_lookup strtoul fld' q rng p t reps = Inr (0, fld'', rng', reps) \<and>
          lsr_index rng' = lsr_index r \<and> lsr_flags rng' = lsr_flags r))"
proof -
  have d: "sorted_wrt (\<lambda>a b. seqs a \<inter> seqs b = {}) rs"
    using ctl.run_disjoint [OF assms(2) ctl_boot_inv [OF assms(1)]] by blast
  have N: "fld_nodes (lsf_cache fld)" using assms(4) unfolding fld_cache_wf_def by blast
  have "set (fci_lru (lsf_cache fld)) = {}" "fci_cache_count (lsf_cache fld) = 0"
    using fld_nodes_lru [OF N] N assms(5) by (simp_all add: fld_nodes_def)
  then obtain fld' where f: "fld_create_all ios 0 rs fld = Some (0, fld')" "fld_cache_wf (lsf_cache fld')"
    "\<forall>r \<in> set rs. \<forall>q \<in> seqs r. fld_abs (fci_entries (lsf_cache fld')) q = Some (lsr_index r, lsr_flags r)"
    using fld_create_all_spec [OF assms(4) _ d assms(3) _ assms(7,8), of 0] assms(5,6) by auto
  show ?thesis
  proof (rule exI [of _ fld'], rule conjI [OF f(1)], intro ballI allI impI)
    fix r q rng assume a: "r \<in> set rs" "q \<in> seqs r" "fld_range_is_any rng"
    show "\<exists>fld'' rng'. fld_server_lookup strtoul fld' q rng p t reps = Inr (0, fld'', rng', reps) \<and>
        lsr_index rng' = lsr_index r \<and> lsr_flags rng' = lsr_flags r"
      using fld_server_lookup_cached [OF f(2) f(3) [rule_format, OF a(1,2)] disjI2 [OF a(3)], of strtoul p t reps] by blast
  qed
qed

definition ex_fld :: lu_server_fld where
  "ex_fld = fx_server\<lparr>lsf_cache := fx_cache\<lparr>fci_entries := [], fci_lru := [], fci_cache_count := 0\<rparr>\<rparr>"

theorem controller_locates_witness:
  "\<exists>fld'. fld_create_all (\<lambda>j. fx_io\<lparr>fio_node := Some j\<rparr>) 0 [ex_range 0x200000400 0x240000400] ex_fld = Some (0, fld') \<and>
    (\<forall>r \<in> set [ex_range 0x200000400 0x240000400]. \<forall>q \<in> seqs r. \<forall>rng. fld_range_is_any rng \<longrightarrow>
       (\<exists>fld'' rng'. fld_server_lookup (\<lambda>_. 0) fld' q rng None None [] = Inr (0, fld'', rng', []) \<and>
          lsr_index rng' = lsr_index r \<and> lsr_flags rng' = lsr_flags r))"
proof (rule controller_locates [OF ex_ctl_boot])
  show "seq_run ctl_step [ex_range 0x200000400 0x240000400] (ex_ctl 0) (ex_ctl 1)"
    using run_step [where step = ctl_step, OF run_nil ex_ctl_step] by simp
  show "inj (\<lambda>j :: nat. j)" by simp
qed (simp_all add: ex_fld_def fx_cache_def fx_io_def ex_range_def fld_cache_wf_def fld_nodes_def)

end
